(* ===== verification/Gaffa_Prelude.thy ===== *)
theory Gaffa_Prelude
  imports Main "HOL-Library.Word" "HOL-Library.AList" "HOL-Library.Multiset"
begin

text \<open>
  The vocabulary the components of the message queue share: the machine integers of the Rust
  sources as words, \<open>Result\<close> together with the panics of the language as one outcome type, the
  error type of \<open>common/src/error.rs\<close> and its printed form, the broker configuration, big-endian
  integers, decimal text, hash maps with an arbitrary iteration order, and the generic facts on
  lists, words and bisection that the component theories use.
\<close>

named_theorems outcome_simps \<open>evaluation of outcomes\<close>
named_theorems hashmap_simps \<open>lookup, insertion and removal in hash maps\<close>
named_theorems frame_simps \<open>fields an operation leaves unchanged\<close>

section \<open>Machine integers\<close>

type_synonym u8 = "8 word"
type_synonym u16 = "16 word"
type_synonym u32 = "32 word"
type_synonym u64 = "64 word"
type_synonym bytes = "u8 list"

text \<open>
  Arithmetic of the sources on \<open>u32\<close> and \<open>u64\<close> is word arithmetic, which wraps as the release
  profile does; theorems that depend on it carry the bound under which nothing wraps (and under
  which a debug build does not panic). \<open>usize\<close> values are lengths and positions of data that
  is in memory, and are natural numbers. \<open>x as u32\<close> is \<open>of_nat\<close> or \<open>ucast\<close>, which truncate.
\<close>

section \<open>Errors and outcomes\<close>

datatype gaffa_error =
    Io string
  | Serialization string
  | TopicNotFound string
  | PartitionNotFound string u32
  | InvalidOffset u64
  | Protocol string
  | Connection string
  | InvalidMessage string
  | Storage string
  | Corruption string
  | SegmentNotFound string
  | GroupNotFound string
  | ConsumerNotFound string
  | Compression string

text \<open>
  A fallible call returns a value, returns an error, or panics (an index out of range, a
  division by zero, an allocation of an impossible size). A panic is not an \<open>Err\<close>: no \<open>match\<close>
  of the sources sees it.
\<close>

datatype 'a outcome = Ok 'a | Err gaffa_error | Panic

fun and_then :: "'a outcome \<Rightarrow> ('a \<Rightarrow> 'b outcome) \<Rightarrow> 'b outcome" where
  "and_then (Ok x) f = f x"
| "and_then (Err e) f = Err e"
| "and_then Panic f = Panic"

declare and_then.simps [outcome_simps]

fun is_ok :: "'a outcome \<Rightarrow> bool" where
  "is_ok (Ok x) = True"
| "is_ok (Err e) = False"
| "is_ok Panic = False"

fun is_err :: "'a outcome \<Rightarrow> bool" where
  "is_err (Ok x) = False"
| "is_err (Err e) = True"
| "is_err Panic = False"

fun ok_or :: "'a option \<Rightarrow> gaffa_error \<Rightarrow> 'a outcome" where
  "ok_or (Some x) e = Ok x"
| "ok_or None e = Err e"

lemma and_then_cong [fundef_cong]:
  assumes "m = m'" and "\<And>x. m' = Ok x \<Longrightarrow> f x = g x"
  shows "and_then m f = and_then m' g"
  using assms by (cases m') auto

lemma and_then_eq_Ok [outcome_simps]:
  "and_then m f = Ok y \<longleftrightarrow> (\<exists>x. m = Ok x \<and> f x = Ok y)"
  by (cases m) auto

lemma and_then_eq_Panic [outcome_simps]:
  "and_then m f = Panic \<longleftrightarrow> m = Panic \<or> (\<exists>x. m = Ok x \<and> f x = Panic)"
  by (cases m) auto

lemma and_then_assoc: "and_then (and_then m f) g = and_then m (\<lambda>x. and_then (f x) g)"
  by (cases m) auto

lemma ok_or_eq_Ok [simp]: "ok_or x e = Ok y \<longleftrightarrow> x = Some y"
  by (cases x) auto

lemma is_ok_iff: "is_ok m \<longleftrightarrow> (\<exists>x. m = Ok x)"
  by (cases m) auto

lemma is_err_iff: "is_err m \<longleftrightarrow> (\<exists>e. m = Err e)"
  by (cases m) auto

section \<open>Decimal text\<close>

text \<open>The \<open>{}\<close> of \<open>format!\<close> on unsigned integers, and the \<open>{:0w}\<close> that pads with zeros.\<close>

definition digit_char :: "nat \<Rightarrow> char" where
  "digit_char d = char_of (48 + d)"

fun show_nat :: "nat \<Rightarrow> string" where
  "show_nat n = (if n < 10 then [digit_char n] else show_nat (n div 10) @ [digit_char (n mod 10)])"

declare show_nat.simps [simp del]

definition show_word :: "'a::len word \<Rightarrow> string" where
  "show_word w = show_nat (unat w)"

definition pad_zeros :: "nat \<Rightarrow> string \<Rightarrow> string" where
  "pad_zeros w s = replicate (w - length s) (CHR ''0'') @ s"

text \<open>
  \<open>str::parse\<close> on an unsigned type of \<open>w\<close> bits: an optional plus sign, then at least one decimal
  digit and nothing else; a value that does not fit is an error.
\<close>

definition digit_val :: "char \<Rightarrow> nat option" where
  "digit_val c = (let n = of_char c :: nat in if 48 \<le> n \<and> n < 58 then Some (n - 48) else None)"

fun parse_digits :: "nat \<Rightarrow> string \<Rightarrow> nat option" where
  "parse_digits acc [] = Some acc"
| "parse_digits acc (c # cs) =
     (case digit_val c of None \<Rightarrow> None | Some d \<Rightarrow> parse_digits (acc * 10 + d) cs)"

definition parse_uint :: "nat \<Rightarrow> string \<Rightarrow> nat option" where
  "parse_uint w s =
     (let ds = (case s of [] \<Rightarrow> [] | c # cs \<Rightarrow> if c = CHR ''+'' then cs else s) in
      if ds = [] then None
      else case parse_digits 0 ds of
             None \<Rightarrow> None
           | Some n \<Rightarrow> if n < 2 ^ w then Some n else None)"

lemma digit_val_char [simp]: "d < 10 \<Longrightarrow> digit_val (digit_char d) = Some d"
  by (simp add: digit_val_def digit_char_def)

lemma parse_digits_append:
  "parse_digits acc (xs @ ys) = (case parse_digits acc xs of None \<Rightarrow> None | Some a \<Rightarrow> parse_digits a ys)"
  by (induction acc xs rule: parse_digits.induct) (auto split: option.splits)

lemma parse_digits_show: "parse_digits 0 (show_nat n) = Some n"
proof (induction n rule: show_nat.induct)
  case (1 n)
  then show ?case
    by (cases "n < 10") (simp_all add: show_nat.simps [of n] parse_digits_append)
qed

lemma show_nat_not_Nil [simp]: "show_nat n \<noteq> []"
  by (simp add: show_nat.simps)

text \<open>Cutting the last digits divides by a power of ten.\<close>

lemma take_show_nat: "10 ^ j \<le> n \<Longrightarrow> take (length (show_nat n) - j) (show_nat n) = show_nat (n div 10 ^ j)"
proof (induction j arbitrary: n)
  case (Suc j)
  have "(1::nat) \<le> 10 ^ j" by simp
  then have n: "\<not> n < 10" using Suc.prems unfolding power_Suc by linarith
  have "10 ^ j \<le> n div 10" using Suc.prems by (simp add: less_eq_div_iff_mult_less_eq mult.commute)
  from Suc.IH [OF this] show ?case
    using n by (simp add: show_nat.simps [of n] div_mult2_eq mult.commute)
qed simp

lemma digit_char_code: "d < 10 \<Longrightarrow> of_char (digit_char d) = (48 + d :: nat)"
  by (simp add: digit_char_def)

lemma show_nat_digits: "c \<in> set (show_nat n) \<Longrightarrow> 48 \<le> (of_char c :: nat) \<and> (of_char c :: nat) < 58"
proof (induction n rule: show_nat.induct)
  case (1 n)
  then show ?case
    by (cases "n < 10") (auto simp: show_nat.simps [of n] digit_char_code)
qed

lemma show_nat_no_sep:
  assumes "(of_char c :: nat) < 48 \<or> 58 \<le> (of_char c :: nat)"
  shows "c \<notin> set (show_nat n)"
  using assms show_nat_digits by fastforce

lemma parse_uint_show [simp]:
  assumes "n < 2 ^ w"
  shows "parse_uint w (show_nat n) = Some n"
proof -
  have "hd (show_nat n) \<noteq> CHR ''+''"
  proof
    assume "hd (show_nat n) = CHR ''+''"
    then have "CHR ''+'' \<in> set (show_nat n)"
      by (metis hd_in_set show_nat_not_Nil)
    then show False
      using show_nat_digits by fastforce
  qed
  then have "(case show_nat n of [] \<Rightarrow> [] | c # cs \<Rightarrow> if c = CHR ''+'' then cs else show_nat n) = show_nat n"
    by (cases "show_nat n") auto
  then show ?thesis
    using assms by (simp add: parse_uint_def parse_digits_show)
qed

section \<open>The printed form of errors\<close>

fun error_to_string :: "gaffa_error \<Rightarrow> string" where
  "error_to_string (Io e) = ''IO error: '' @ e"
| "error_to_string (Serialization e) = ''Serialization error: '' @ e"
| "error_to_string (TopicNotFound t) = ''Topic not found: '' @ t"
| "error_to_string (PartitionNotFound t p) =
     ''Partition not found: topic='' @ t @ '', partition='' @ show_word p"
| "error_to_string (InvalidOffset n) = ''Invalid offset: '' @ show_word n"
| "error_to_string (Protocol e) = ''Protocol error: '' @ e"
| "error_to_string (Connection e) = ''Connection error: '' @ e"
| "error_to_string (InvalidMessage e) = ''Invalid message: '' @ e"
| "error_to_string (Storage e) = ''Storage error: '' @ e"
| "error_to_string (Corruption e) = ''Data corruption detected: '' @ e"
| "error_to_string (SegmentNotFound e) = ''Segment not found: '' @ e"
| "error_to_string (GroupNotFound e) = ''Consumer group not found: '' @ e"
| "error_to_string (ConsumerNotFound e) = ''Consumer not found: '' @ e"
| "error_to_string (Compression e) = ''Compression error: '' @ e"

section \<open>Broker configuration\<close>

record broker_config =
  cfg_host :: string
  cfg_port :: u16
  cfg_data_dir :: string
  cfg_broker_id :: u32
  cfg_replication_factor :: u32
  cfg_max_isr_lag :: u64

definition broker_config_default :: broker_config where
  "broker_config_default =
     \<lparr>cfg_host = ''127.0.0.1'', cfg_port = 9092, cfg_data_dir = ''/tmp/gaffa'', cfg_broker_id = 0,
      cfg_replication_factor = 1, cfg_max_isr_lag = 1000\<rparr>"

section \<open>Big-endian integers\<close>

fun to_be :: "nat \<Rightarrow> nat \<Rightarrow> bytes" where
  "to_be 0 n = []"
| "to_be (Suc k) n = to_be k (n div 256) @ [of_nat (n mod 256)]"

definition from_be :: "bytes \<Rightarrow> nat" where
  "from_be bs = foldl (\<lambda>acc b. acc * 256 + unat b) 0 bs"

definition u64_to_be_bytes :: "u64 \<Rightarrow> bytes" where
  "u64_to_be_bytes w = to_be 8 (unat w)"

definition u32_to_be_bytes :: "u32 \<Rightarrow> bytes" where
  "u32_to_be_bytes w = to_be 4 (unat w)"

definition u64_from_be_bytes :: "bytes \<Rightarrow> u64" where
  "u64_from_be_bytes bs = of_nat (from_be bs)"

definition u32_from_be_bytes :: "bytes \<Rightarrow> u32" where
  "u32_from_be_bytes bs = of_nat (from_be bs)"

lemma length_to_be [simp]: "length (to_be k n) = k"
  by (induction k arbitrary: n) auto

lemma from_be_snoc: "from_be (bs @ [b]) = from_be bs * 256 + unat b"
  by (simp add: from_be_def)

lemma from_to_be: "from_be (to_be k n) = n mod 256 ^ k"
proof (induction k arbitrary: n)
  case 0
  then show ?case by (simp add: from_be_def)
next
  case (Suc k)
  have "unat (of_nat (n mod 256) :: u8) = n mod 256"
    by (simp add: unat_of_nat)
  moreover have "n mod 256 ^ Suc k = (n div 256) mod 256 ^ k * 256 + n mod 256"
    using mod_mult2_eq [of n 256 "256 ^ k"] by simp
  ultimately show ?case
    by (simp only: to_be.simps from_be_snoc Suc.IH)
qed

lemma length_u64_to_be_bytes [simp]: "length (u64_to_be_bytes w) = 8"
  by (simp add: u64_to_be_bytes_def)

lemma length_u32_to_be_bytes [simp]: "length (u32_to_be_bytes w) = 4"
  by (simp add: u32_to_be_bytes_def)

lemma unat_u64_less: "unat (w :: u64) < 18446744073709551616"
  using unsigned_less [of w, where ?'a = nat] by simp

lemma unat_u32_less: "unat (w :: u32) < 4294967296"
  using unsigned_less [of w, where ?'a = nat] by simp

lemma u64_be_bytes_inverse [simp]: "u64_from_be_bytes (u64_to_be_bytes w) = w"
  using unat_u64_less [of w]
  by (simp add: u64_from_be_bytes_def u64_to_be_bytes_def from_to_be)

lemma u32_be_bytes_inverse [simp]: "u32_from_be_bytes (u32_to_be_bytes w) = w"
  using unat_u32_less [of w]
  by (simp add: u32_from_be_bytes_def u32_to_be_bytes_def from_to_be)

lemma from_be_u32_to_be_bytes [simp]: "from_be (u32_to_be_bytes w) = unat w"
  using unat_u32_less [of w] by (simp add: u32_to_be_bytes_def from_to_be)

lemma unat_of_nat_u32: "n < 2 ^ 32 \<Longrightarrow> unat (of_nat n :: u32) = n"
  by (simp add: unat_of_nat)

lemma unat_of_nat_u64: "n < 2 ^ 64 \<Longrightarrow> unat (of_nat n :: u64) = n"
  by (simp add: unat_of_nat)

text \<open>The offset a counter reaches after \<open>n\<close> increments, when it does not wrap.\<close>

lemma unat_u64_plus:
  assumes "unat (b :: u64) + n < 2 ^ 64"
  shows "unat (b + of_nat n) = unat b + n"
proof -
  have "n < 2 ^ 64" using assms by simp
  then have "unat (of_nat n :: u64) = n" by (rule unat_of_nat_u64)
  then show ?thesis using assms by (simp add: unat_word_ariths)
qed

lemma u64_plus_le_iff:
  assumes "unat (b :: u64) + m < 2 ^ 64" and "unat b + n < 2 ^ 64"
  shows "b + of_nat m \<le> b + of_nat n \<longleftrightarrow> m \<le> n"
  using assms by (simp add: word_le_nat_alt unat_u64_plus)

lemma u64_plus_less_iff:
  assumes "unat (b :: u64) + m < 2 ^ 64" and "unat b + n < 2 ^ 64"
  shows "b + of_nat m < b + of_nat n \<longleftrightarrow> m < n"
  using assms by (simp add: word_less_nat_alt unat_u64_plus)

lemma u64_plus_eq_iff:
  assumes "unat (b :: u64) + m < 2 ^ 64" and "unat b + n < 2 ^ 64"
  shows "b + of_nat m = b + of_nat n \<longleftrightarrow> m = n"
  using assms by (metis add_left_cancel unat_u64_plus)

section \<open>Readers\<close>

text \<open>
  \<open>Read::read_exact\<close> on a reader over bytes in memory: the bytes and what is left, or the error
  of a reader that ends too early.
\<close>

definition read_exact :: "nat \<Rightarrow> bytes \<Rightarrow> (bytes \<times> bytes) option" where
  "read_exact n r = (if n \<le> length r then Some (take n r, drop n r) else None)"

definition eof_text :: string where
  "eof_text = ''failed to fill whole buffer''"

lemma read_exact_append [simp]:
  "length xs = n \<Longrightarrow> read_exact n (xs @ r) = Some (xs, r)"
  by (simp add: read_exact_def)

lemma read_exact_SomeD:
  "read_exact n r = Some (xs, r') \<Longrightarrow> r = xs @ r' \<and> length xs = n"
  by (auto simp: read_exact_def split: if_splits)

lemma read_exact_short [simp]: "length r < n \<Longrightarrow> read_exact n r = None"
  by (simp add: read_exact_def)

section \<open>Files\<close>

text \<open>
  An open \<open>std::fs::File\<close>: its bytes and the position of its cursor. Writing at the cursor
  overwrites what is there and extends the file past its end, with zeros in a gap. System calls on files
  that exist are taken to succeed.
\<close>

record open_file =
  contents :: bytes
  cursor :: nat

definition file_open :: "bytes \<Rightarrow> open_file" where
  "file_open bs = \<lparr>contents = bs, cursor = 0\<rparr>"

definition write_all :: "bytes \<Rightarrow> open_file \<Rightarrow> open_file" where
  "write_all d f =
     (let c = cursor f; bs = contents f in
      \<lparr>contents = take c bs @ replicate (c - length bs) 0 @ d @ drop (c + length d) bs,
       cursor = c + length d\<rparr>)"

definition seek_end :: "open_file \<Rightarrow> open_file" where
  "seek_end f = f\<lparr>cursor := length (contents f)\<rparr>"

definition not_found_text :: string where
  "not_found_text = ''No such file or directory (os error 2)''"

lemma write_all_at_end:
  assumes "cursor f = length (contents f)"
  shows "write_all d f = \<lparr>contents = contents f @ d, cursor = length (contents f @ d)\<rparr>"
  using assms by (simp add: write_all_def Let_def)

lemma write_all_at_start:
  "contents (write_all d (file_open bs)) = d @ drop (length d) bs"
  by (simp add: write_all_def file_open_def Let_def)

section \<open>Hash maps and iteration orders\<close>

text \<open>
  A \<open>HashMap\<close> or \<open>DashMap\<close> is an association list with distinct keys. The order in which it is
  iterated is not specified by the standard library, so every operation that iterates takes an
  \<^emph>\<open>order\<close>, a function that permutes the keys; theorems hold for every order.
\<close>

type_synonym ('k, 'v) hashmap = "('k \<times> 'v) list"

definition hm_ok :: "('k, 'v) hashmap \<Rightarrow> bool" where
  "hm_ok m \<longleftrightarrow> distinct (map fst m)"

definition hm_keys :: "('k, 'v) hashmap \<Rightarrow> 'k list" where
  "hm_keys m = map fst m"

abbreviation hm_insert :: "'k \<Rightarrow> 'v \<Rightarrow> ('k, 'v) hashmap \<Rightarrow> ('k, 'v) hashmap" where
  "hm_insert \<equiv> AList.update"

abbreviation hm_remove :: "'k \<Rightarrow> ('k, 'v) hashmap \<Rightarrow> ('k, 'v) hashmap" where
  "hm_remove \<equiv> AList.delete"

abbreviation hm_get :: "('k, 'v) hashmap \<Rightarrow> 'k \<Rightarrow> 'v option" where
  "hm_get \<equiv> map_of"

definition is_order :: "('a list \<Rightarrow> 'a list) \<Rightarrow> bool" where
  "is_order ord \<longleftrightarrow> (\<forall>xs. mset (ord xs) = mset xs)"

lemma hm_ok_Nil [simp]: "hm_ok []"
  by (simp add: hm_ok_def)

lemma hm_ok_insert [simp]: "hm_ok m \<Longrightarrow> hm_ok (hm_insert k v m)"
  unfolding hm_ok_def by (rule distinct_update)

lemma hm_ok_remove [simp]: "hm_ok m \<Longrightarrow> hm_ok (hm_remove k m)"
  unfolding hm_ok_def by (rule distinct_delete)

lemma hm_ok_filter [simp]: "hm_ok m \<Longrightarrow> hm_ok (filter P m)"
  unfolding hm_ok_def by (induction m) auto

lemma hm_ok_map_snd [simp]: "hm_ok (map (\<lambda>(k, v). (k, f k v)) m) = hm_ok m"
  by (simp add: hm_ok_def comp_def split_beta)

lemma hm_get_insert [hashmap_simps]:
  "hm_get (hm_insert k v m) k' = (if k' = k then Some v else hm_get m k')"
  by (simp add: update_conv')

lemma hm_get_remove [hashmap_simps]:
  "hm_get (hm_remove k m) k' = (if k' = k then None else hm_get m k')"
  by (simp add: delete_conv')

lemma hm_get_map [hashmap_simps]:
  "hm_get (map (\<lambda>(k, v). (k, f k v)) m) k = map_option (f k) (hm_get m k)"
  by (induction m) auto

lemma hm_get_filter:
  assumes "hm_ok m"
  shows "hm_get (filter (\<lambda>(k, v). P k v) m) k =
           (case hm_get m k of None \<Rightarrow> None | Some v \<Rightarrow> if P k v then Some v else None)"
  using assms unfolding hm_ok_def
  by (induction m) (auto simp: map_of_eq_None_iff split: option.splits)

lemma hm_get_eq_Some: "hm_ok m \<Longrightarrow> hm_get m k = Some v \<longleftrightarrow> (k, v) \<in> set m"
  by (simp add: hm_ok_def)

lemma hm_get_in_keys: "hm_get m k = Some v \<Longrightarrow> k \<in> set (hm_keys m)"
  by (force simp: hm_keys_def dest: map_of_SomeD)

lemma in_hm_keys_iff: "k \<in> set (hm_keys m) \<longleftrightarrow> hm_get m k \<noteq> None"
  by (simp add: hm_keys_def map_of_eq_None_iff)

text \<open>A map that is listed in another order is the same map.\<close>

lemma hm_permuted:
  assumes "mset m' = mset m" and "hm_ok m"
  shows "hm_ok m'" and "hm_get m' k = hm_get m k"
proof -
  have "mset (map fst m') = mset (map fst m)" using assms(1) by simp
  then show ok: "hm_ok m'" using assms(2) unfolding hm_ok_def by (metis mset_eq_imp_distinct_iff)
  have "set m' = set m" using assms(1) by (rule mset_eq_setD)
  then have "hm_get m' k = Some v \<longleftrightarrow> hm_get m k = Some v" for v
    by (simp add: hm_get_eq_Some [OF ok] hm_get_eq_Some [OF assms(2)])
  then show "hm_get m' k = hm_get m k" by (metis not_None_eq)
qed

lemma order_mset: "is_order ord \<Longrightarrow> mset (ord xs) = mset xs"
  by (simp add: is_order_def)

lemma order_set [simp]: "is_order ord \<Longrightarrow> set (ord xs) = set xs"
  by (metis order_mset set_mset_mset)

lemma order_length [simp]: "is_order ord \<Longrightarrow> length (ord xs) = length xs"
  by (metis order_mset size_mset)

lemma order_distinct [simp]: "is_order ord \<Longrightarrow> distinct (ord xs) = distinct xs"
  by (metis order_mset mset_eq_imp_distinct_iff)

lemma order_Nil [simp]: "is_order ord \<Longrightarrow> ord xs = [] \<longleftrightarrow> xs = []"
  by (metis order_length length_0_conv)

lemma is_order_id: "is_order (\<lambda>xs. xs)"
  by (simp add: is_order_def)

lemma is_order_rev: "is_order rev"
  by (simp add: is_order_def)

section \<open>Bisection\<close>

text \<open>
  The binary searches of \<open>index.rs\<close> and \<open>partition.rs\<close> keep a half-open range and move its
  left end past every midpoint that satisfies the test. On a test that is true on a prefix and false after
  it, they find the length of the prefix.
\<close>

function bisect :: "(nat \<Rightarrow> bool) \<Rightarrow> nat \<Rightarrow> nat \<Rightarrow> nat" where
  "bisect p left right =
     (if left < right then
        let mid = (left + right) div 2 in
        if p mid then bisect p (mid + 1) right else bisect p left mid
      else left)"
  by pat_completeness auto
termination
  by (relation "measure (\<lambda>(p, l, r). r - l)") auto

declare bisect.simps [simp del]

definition prefix_test :: "(nat \<Rightarrow> bool) \<Rightarrow> nat \<Rightarrow> nat \<Rightarrow> bool" where
  "prefix_test p n k \<longleftrightarrow> k \<le> n \<and> (\<forall>i<n. p i \<longleftrightarrow> i < k)"

lemma bisect_prefix:
  assumes "prefix_test p n k" and "l \<le> k" and "k \<le> r" and "r \<le> n"
  shows "bisect p l r = k"
  using assms
proof (induction p l r rule: bisect.induct)
  case (1 p l r)
  show ?case
  proof (cases "l < r")
    case True
    let ?m = "(l + r) div 2"
    have m: "l \<le> ?m" "?m < r" "?m < n" using True "1.prems" by auto
    show ?thesis
    proof (cases "p ?m")
      case True
      then have "?m + 1 \<le> k" using m "1.prems" by (auto simp: prefix_test_def)
      then have "bisect p (?m + 1) r = k"
        using "1.IH"(1) [OF \<open>l < r\<close> refl True] "1.prems" by simp
      then show ?thesis using True \<open>l < r\<close> by (simp add: bisect.simps [of p l r] Let_def)
    next
      case False
      then have "k \<le> ?m" using m "1.prems" by (auto simp: prefix_test_def)
      then have "bisect p l ?m = k"
        using "1.IH"(2) [OF \<open>l < r\<close> refl False] "1.prems" m by simp
      then show ?thesis using False \<open>l < r\<close> by (simp add: bisect.simps [of p l r] Let_def)
    qed
  next
    case False
    then show ?thesis using "1.prems" by (simp add: bisect.simps)
  qed
qed

text \<open>A sorted sequence of keys gives such a test.\<close>

lemma sorted_prefix_test:
  fixes ks :: "'a::linorder list"
  assumes "sorted ks"
  shows "prefix_test (\<lambda>i. ks ! i \<le> x) (length ks) (length (takeWhile (\<lambda>k. k \<le> x) ks))"
proof -
  let ?t = "takeWhile (\<lambda>k. k \<le> x) ks"
  have "ks ! i \<le> x" if "i < length ?t" for i
    using that by (metis nth_mem set_takeWhileD takeWhile_nth)
  moreover have "\<not> ks ! i \<le> x" if "i < length ks" "\<not> i < length ?t" for i
  proof -
    have "length ?t < length ks" using that by simp
    then have "\<not> ks ! length ?t \<le> x" by (rule nth_length_takeWhile)
    moreover have "ks ! length ?t \<le> ks ! i"
      using assms that by (intro sorted_nth_mono) auto
    ultimately show ?thesis by auto
  qed
  ultimately show ?thesis
    by (auto simp: prefix_test_def length_takeWhile_le)
qed

section \<open>Lists\<close>

lemma concat_map_take_drop:
  "concat (map f xs) = concat (map f (take n xs)) @ concat (map f (drop n xs))"
  by (metis append_take_drop_id concat_append map_append)

lemma drop_length_concat_take:
  "drop (length (concat (map f (take n xs)))) (concat (map f xs)) = concat (map f (drop n xs))"
  by (subst concat_map_take_drop [of f xs n]) simp

end
