(* ===== verification/Messages.thy ===== *)
theory Messages
  imports Gaffa_Prelude
begin

text \<open>
  The data of \<open>protocol/src/messages.rs\<close>: messages, stored records, metadata, and the request and
  response types of the wire protocol, with their constructors in the order of the source.
\<close>

section \<open>Messages and records\<close>

record message =
  msg_key :: "bytes option"
  msg_value :: bytes
  msg_timestamp :: u64

text \<open>
  \<open>Message::new\<close> reads the clock; \<open>now_ms\<close> is the number of milliseconds since the epoch, which the
  source truncates from 128 to 64 bits.
\<close>

definition message_new :: "nat \<Rightarrow> bytes \<Rightarrow> message" where
  "message_new now_ms v = \<lparr>msg_key = None, msg_value = v, msg_timestamp = of_nat now_ms\<rparr>"

definition with_key :: "bytes \<Rightarrow> message \<Rightarrow> message" where
  "with_key k m = m\<lparr>msg_key := Some k\<rparr>"

definition with_timestamp :: "u64 \<Rightarrow> message \<Rightarrow> message" where
  "with_timestamp t m = m\<lparr>msg_timestamp := t\<rparr>"

record stored_record =
  rec_topic :: string
  rec_partition :: u32
  rec_offset :: u64
  rec_message :: message

section \<open>Metadata\<close>

record partition_metadata =
  pm_id :: u32
  pm_leader :: u32
  pm_replicas :: "u32 list"
  pm_isr :: "u32 list"
  pm_high_watermark :: u64

definition partition_metadata_new :: "u32 \<Rightarrow> partition_metadata" where
  "partition_metadata_new i =
     \<lparr>pm_id = i, pm_leader = 0, pm_replicas = [0], pm_isr = [0], pm_high_watermark = 0\<rparr>"

definition partition_metadata_with_replication ::
    "u32 \<Rightarrow> u32 \<Rightarrow> u32 list \<Rightarrow> u32 list \<Rightarrow> partition_metadata" where
  "partition_metadata_with_replication i leader replicas isr =
     \<lparr>pm_id = i, pm_leader = leader, pm_replicas = replicas, pm_isr = isr, pm_high_watermark = 0\<rparr>"

record topic_metadata =
  tm_name :: string
  tm_partitions :: "partition_metadata list"

text \<open>The range \<open>0..count\<close> over \<open>u32\<close>.\<close>

definition u32_range :: "u32 \<Rightarrow> u32 list" where
  "u32_range n = map of_nat [0..<unat n]"

definition topic_metadata_new :: "string \<Rightarrow> u32 \<Rightarrow> topic_metadata" where
  "topic_metadata_new nm n =
     \<lparr>tm_name = nm, tm_partitions = map partition_metadata_new (u32_range n)\<rparr>"

record partition_assignment =
  pa_topic :: string
  pa_partition :: u32

definition partition_assignment_new :: "string \<Rightarrow> u32 \<Rightarrow> partition_assignment" where
  "partition_assignment_new t p = \<lparr>pa_topic = t, pa_partition = p\<rparr>"

record broker_metadata =
  bm_id :: u32
  bm_host :: string
  bm_port :: u16

record topic_partition_metadata =
  tpm_topic :: string
  tpm_partition :: u32
  tpm_leader :: u32
  tpm_replicas :: "u32 list"
  tpm_isr :: "u32 list"

section \<open>Requests\<close>

datatype request =
    CreateTopic string u32
  | Produce string u32 "message list"
  | Fetch string u32 u64 u32
  | GetMetadata "string list"
  | GetPartitions string
  | ListTopics
  | JoinGroup string "string option" "string list"
  | LeaveGroup string string
  | Heartbeat string string
  | CommitOffset string string u32 u64
  | FetchOffset string string u32
  | RegisterBroker u32 string u16
  | GetClusterMetadata
  | ReplicationFetch u32 string u32 u64

section \<open>Responses\<close>

datatype response =
    CreateTopicSuccess string u32
  | CreateTopicError string
  | ProduceSuccess string u32 u64 u32
  | ProduceError string
  | FetchSuccess string u32 "stored_record list"
  | FetchError string
  | Metadata "topic_metadata list"
  | MetadataError string
  | Partitions string u32
  | PartitionsError string
  | Topics "string list"
  | TopicsError string
  | JoinGroupSuccess string string "partition_assignment list"
  | JoinGroupError string
  | LeaveGroupSuccess string
  | LeaveGroupError string
  | HeartbeatSuccess
  | HeartbeatError string bool
  | CommitOffsetSuccess string string u32 u64
  | CommitOffsetError string
  | FetchOffsetSuccess string string u32 u64
  | FetchOffsetError string
  | RegisterBrokerSuccess u32
  | RegisterBrokerError string
  | ClusterMetadataResponse "broker_metadata list" "topic_partition_metadata list"
  | ClusterMetadataError string
  | ReplicationFetchSuccess "stored_record list" u64 u32
  | ReplicationFetchError string

section \<open>Facts about ranges of partitions\<close>

lemma length_u32_range [simp]: "length (u32_range n) = unat n"
  by (simp add: u32_range_def)

lemma nth_u32_range [simp]: "i < unat n \<Longrightarrow> u32_range n ! i = of_nat i"
  by (simp add: u32_range_def)

lemma set_u32_range: "set (u32_range n) = {p. p < n}"
proof (rule set_eqI)
  fix p
  show "p \<in> set (u32_range n) \<longleftrightarrow> p \<in> {p. p < n}"
  proof
    assume "p \<in> set (u32_range n)"
    then obtain i where i: "i < unat n" "p = of_nat i"
      by (auto simp: u32_range_def)
    then have "unat p = i"
      using unat_u32_less [of n] by (simp add: unat_of_nat_u32)
    then show "p \<in> {p. p < n}" using i by (simp add: word_less_nat_alt)
  next
    assume "p \<in> {p. p < n}"
    then have "unat p < unat n" by (simp add: word_less_nat_alt)
    then show "p \<in> set (u32_range n)"
      by (auto simp: u32_range_def image_iff intro!: bexI [of _ "unat p"])
  qed
qed

lemma distinct_u32_range [simp]: "distinct (u32_range n)"
proof -
  have "inj_on (of_nat :: nat \<Rightarrow> u32) {0..<unat n}"
    using unat_u32_less [of n] by (auto intro!: inj_onI dest: arg_cong [where f = unat] simp: unat_of_nat_u32)
  then show ?thesis by (simp add: u32_range_def distinct_map)
qed

end
