(* ===== verification/Compressors.thy ===== *)
theory Compressors
  imports Gaffa_Prelude
begin

text \<open>
  \<open>storage/src/compression.rs\<close>: the compression type and its byte, and the dispatch of
  \<open>compress\<close> and \<open>decompress\<close>. The compressors themselves (flate2, snap, lz4_flex) and the checksum
  (crc32fast) are other crates: they are the fields of a record that every definition using
  them takes as an argument. What the sources rely on is \<open>codecs_ok\<close>: decompressing what a
  compressor produced gives the input back.
\<close>

datatype compression_type = CNone | Gzip | Snappy | Lz4

fun from_u8 :: "u8 \<Rightarrow> compression_type outcome" where
  "from_u8 v =
     (if v = 0 then Ok CNone
      else if v = 1 then Ok Gzip
      else if v = 2 then Ok Snappy
      else if v = 3 then Ok Lz4
      else Err (InvalidMessage (''Unknown compression type: '' @ show_word v)))"

fun to_u8 :: "compression_type \<Rightarrow> u8" where
  "to_u8 CNone = 0"
| "to_u8 Gzip = 1"
| "to_u8 Snappy = 2"
| "to_u8 Lz4 = 3"

text \<open>The functions of the other crates; an \<open>Inl\<close> carries the text of their error.\<close>

record codecs =
  crc32 :: "bytes \<Rightarrow> u32"
  gz_encode :: "bytes \<Rightarrow> string + bytes"
  gz_decode :: "bytes \<Rightarrow> string + bytes"
  snap_encode :: "bytes \<Rightarrow> string + bytes"
  snap_decode :: "bytes \<Rightarrow> string + bytes"
  lz4_compress_prepend_size :: "bytes \<Rightarrow> bytes"
  lz4_decompress_size_prepended :: "bytes \<Rightarrow> string + bytes"

fun map_err :: "string \<Rightarrow> string + 'a \<Rightarrow> 'a outcome" where
  "map_err pre (Inl e) = Err (Compression (pre @ '': '' @ e))"
| "map_err pre (Inr x) = Ok x"

definition compress_gzip :: "codecs \<Rightarrow> bytes \<Rightarrow> bytes outcome" where
  "compress_gzip C d = map_err ''Gzip compression failed'' (gz_encode C d)"

definition decompress_gzip :: "codecs \<Rightarrow> bytes \<Rightarrow> bytes outcome" where
  "decompress_gzip C d = map_err ''Gzip decompression failed'' (gz_decode C d)"

definition compress_snappy :: "codecs \<Rightarrow> bytes \<Rightarrow> bytes outcome" where
  "compress_snappy C d = map_err ''Snappy compression failed'' (snap_encode C d)"

definition decompress_snappy :: "codecs \<Rightarrow> bytes \<Rightarrow> bytes outcome" where
  "decompress_snappy C d = map_err ''Snappy decompression failed'' (snap_decode C d)"

definition compress_lz4 :: "codecs \<Rightarrow> bytes \<Rightarrow> bytes outcome" where
  "compress_lz4 C d = Ok (lz4_compress_prepend_size C d)"

definition decompress_lz4 :: "codecs \<Rightarrow> bytes \<Rightarrow> bytes outcome" where
  "decompress_lz4 C d = map_err ''LZ4 decompression failed'' (lz4_decompress_size_prepended C d)"

fun compress :: "codecs \<Rightarrow> bytes \<Rightarrow> compression_type \<Rightarrow> bytes outcome" where
  "compress C d CNone = Ok d"
| "compress C d Gzip = compress_gzip C d"
| "compress C d Snappy = compress_snappy C d"
| "compress C d Lz4 = compress_lz4 C d"

fun decompress :: "codecs \<Rightarrow> bytes \<Rightarrow> compression_type \<Rightarrow> bytes outcome" where
  "decompress C d CNone = Ok d"
| "decompress C d Gzip = decompress_gzip C d"
| "decompress C d Snappy = decompress_snappy C d"
| "decompress C d Lz4 = decompress_lz4 C d"

lemmas compressor_defs =
  compress_gzip_def decompress_gzip_def compress_snappy_def decompress_snappy_def
  compress_lz4_def decompress_lz4_def

definition codecs_ok :: "codecs \<Rightarrow> bool" where
  "codecs_ok C \<longleftrightarrow>
     (\<forall>d z. gz_encode C d = Inr z \<longrightarrow> gz_decode C z = Inr d) \<and>
     (\<forall>d z. snap_encode C d = Inr z \<longrightarrow> snap_decode C z = Inr d) \<and>
     (\<forall>d. lz4_decompress_size_prepended C (lz4_compress_prepend_size C d) = Inr d)"

lemma from_u8_to_u8 [simp]: "from_u8 (to_u8 c) = Ok c"
  by (cases c) auto

declare from_u8.simps [simp del]

lemma from_u8_Ok: "from_u8 b = Ok c \<Longrightarrow> b = to_u8 c"
  by (auto simp: from_u8.simps split: if_splits)

lemma from_u8_Ok_iff: "from_u8 b = Ok c \<longleftrightarrow> b = to_u8 c"
  using from_u8_Ok from_u8_to_u8 by blast

lemma map_err_eq_Ok [simp]: "map_err p x = Ok y \<longleftrightarrow> x = Inr y"
  by (cases x) auto

lemma map_err_not_Panic [simp]: "map_err p x \<noteq> Panic"
  by (cases x) auto

lemma compress_not_Panic [simp]: "compress C d c \<noteq> Panic"
  by (cases c) (auto simp: compressor_defs)

lemma decompress_not_Panic [simp]: "decompress C d c \<noteq> Panic"
  by (cases c) (auto simp: compressor_defs)

lemma decompress_compress:
  assumes "codecs_ok C" and "compress C d c = Ok z"
  shows "decompress C z c = Ok d"
  using assms by (cases c) (auto simp: compressor_defs codecs_ok_def)

text \<open>
  Concrete codecs for evaluation: the sum of the bytes as checksum, a compressor that prepends a
  marker byte.
\<close>

definition demo_codecs :: codecs where
  "demo_codecs =
     (let mark = (\<lambda>b d. Inr (b # d)); unmark = (\<lambda>b d. case d of [] \<Rightarrow> Inl ''empty'' | x # r \<Rightarrow>
            if x = b then Inr r else Inl ''bad marker'') in
      \<lparr>crc32 = (\<lambda>d. sum_list (map ucast d)),
       gz_encode = mark 31, gz_decode = unmark 31,
       snap_encode = mark 255, snap_decode = unmark 255,
       lz4_compress_prepend_size = (\<lambda>d. 4 # d),
       lz4_decompress_size_prepended = unmark 4\<rparr>)"

lemma demo_codecs_ok: "codecs_ok demo_codecs"
  by (simp add: codecs_ok_def demo_codecs_def Let_def)

end
