(* ===== verification/Disk_Record.thy ===== *)
theory Disk_Record
  imports Messages Compressors
begin

text \<open>
  \<open>storage/src/record.rs\<close>: the on-disk record, its encoding with a checksum and its decoding from a
  reader. The lemmas show that decoding inverts encoding and leaves the rest of the reader, that
  a decoded record always consumes its sixteen header bytes (which is why every scan of a log
  ends), that a truncated record and a damaged one are errors.
\<close>

record disk_record =
  dr_offset :: u64
  dr_timestamp :: u64
  dr_key :: "bytes option"
  dr_value :: bytes
  dr_compression :: compression_type

definition disk_record_new :: "u64 \<Rightarrow> message \<Rightarrow> disk_record" where
  "disk_record_new off m =
     \<lparr>dr_offset = off, dr_timestamp = msg_timestamp m, dr_key = msg_key m, dr_value = msg_value m,
      dr_compression = CNone\<rparr>"

definition new_with_compression :: "u64 \<Rightarrow> message \<Rightarrow> compression_type \<Rightarrow> disk_record" where
  "new_with_compression off m c =
     \<lparr>dr_offset = off, dr_timestamp = msg_timestamp m, dr_key = msg_key m, dr_value = msg_value m,
      dr_compression = c\<rparr>"

fun key_size :: "bytes option \<Rightarrow> nat" where
  "key_size None = 0"
| "key_size (Some k) = length k"

definition serialized_size :: "disk_record \<Rightarrow> nat" where
  "serialized_size r =
     (8 + 4 + 4 + 1 + 8 + 4) + key_size (dr_key r) + 4 + length (dr_value r)"

text \<open>The bytes the checksum covers, and the size of the body with the checksum.\<close>

fun encode_key :: "bytes option \<Rightarrow> bytes" where
  "encode_key (Some k) = u32_to_be_bytes (of_nat (length k)) @ k"
| "encode_key None = u32_to_be_bytes (- 1)"

definition data_to_checksum :: "disk_record \<Rightarrow> bytes \<Rightarrow> bytes" where
  "data_to_checksum r value_data =
     [to_u8 (dr_compression r)] @ u64_to_be_bytes (dr_timestamp r) @ encode_key (dr_key r) @
     u32_to_be_bytes (of_nat (length value_data)) @ value_data"

definition body_size :: "disk_record \<Rightarrow> bytes \<Rightarrow> nat" where
  "body_size r value_data = (4 + 1 + 8 + 4) + key_size (dr_key r) + 4 + length value_data"

definition encode :: "codecs \<Rightarrow> disk_record \<Rightarrow> bytes outcome" where
  "encode C r =
     and_then (compress C (dr_value r) (dr_compression r)) (\<lambda>value_data.
       let data = data_to_checksum r value_data in
       Ok (u64_to_be_bytes (dr_offset r) @
           u32_to_be_bytes (of_nat (body_size r value_data)) @
           u32_to_be_bytes (crc32 C data) @ data))"

definition read_field :: "string \<Rightarrow> nat \<Rightarrow> bytes \<Rightarrow> (bytes \<times> bytes) outcome" where
  "read_field what n r =
     ok_or (read_exact n r) (Storage (''Failed to read '' @ what @ '': '' @ eof_text))"

text \<open>A key length is read as a signed integer; a negative one is a missing key.\<close>

definition read_key :: "bytes \<Rightarrow> (bytes option \<times> bytes) outcome" where
  "read_key r =
     and_then (read_field ''key length'' 4 r) (\<lambda>(len_buf, r).
       let key_len = sint (u32_from_be_bytes len_buf) in
       if key_len \<ge> 0 then
         and_then (read_field ''key'' (nat key_len) r) (\<lambda>(k, r). Ok (Some k, r))
       else Ok (None, r))"

definition parse_data :: "codecs \<Rightarrow> u64 \<Rightarrow> bytes \<Rightarrow> disk_record outcome" where
  "parse_data C offset data =
     and_then (read_field ''compression type'' 1 data) (\<lambda>(cb, r).
     and_then (from_u8 (cb ! 0)) (\<lambda>compression.
     and_then (read_field ''timestamp'' 8 r) (\<lambda>(tb, r).
     and_then (read_key r) (\<lambda>(key, r).
     and_then (read_field ''value length'' 4 r) (\<lambda>(vb, r).
     and_then (read_field ''value'' (from_be vb) r) (\<lambda>(value_data, r).
     and_then (decompress C value_data compression) (\<lambda>value.
       Ok \<lparr>dr_offset = offset, dr_timestamp = u64_from_be_bytes tb, dr_key = key,
           dr_value = value, dr_compression = compression\<rparr>)))))))"

text \<open>
  \<open>length - 4\<close> underflows when the length field is below four: in a debug build the subtraction
  panics, in a release build it wraps and the allocation of the buffer panics.
\<close>

definition decode :: "codecs \<Rightarrow> bytes \<Rightarrow> (disk_record \<times> bytes) outcome" where
  "decode C r =
     and_then (read_field ''offset'' 8 r) (\<lambda>(offset_buf, r).
     and_then (read_field ''length'' 4 r) (\<lambda>(length_buf, r).
     and_then (read_field ''CRC'' 4 r) (\<lambda>(crc_buf, r).
       let offset = u64_from_be_bytes offset_buf;
           len = from_be length_buf;
           expected_crc = u32_from_be_bytes crc_buf in
       if len < 4 then Panic
       else
         and_then (read_field ''record data'' (len - 4) r) (\<lambda>(data, r).
           let actual_crc = crc32 C data in
           if actual_crc \<noteq> expected_crc then
             Err (Corruption (''CRC mismatch at offset '' @ show_word offset @ '': expected '' @
               show_word expected_crc @ '', got '' @ show_word actual_crc))
           else and_then (parse_data C offset data) (\<lambda>rec. Ok (rec, r))))))"

definition to_message :: "disk_record \<Rightarrow> message" where
  "to_message r = \<lparr>msg_key = dr_key r, msg_value = dr_value r, msg_timestamp = dr_timestamp r\<rparr>"

lemma read_field_append [simp]: "length xs = n \<Longrightarrow> read_field what n (xs @ r) = Ok (xs, r)"
  by (simp add: read_field_def)

lemma read_field_byte [simp]: "read_field what (Suc 0) (b # r) = Ok ([b], r)"
  by (simp add: read_field_def read_exact_def)

lemma read_field_all [simp]: "length xs = n \<Longrightarrow> read_field what n xs = Ok (xs, [])"
  by (simp add: read_field_def read_exact_def)

lemma read_field_cases:
  "read_field what n r =
     (if n \<le> length r then Ok (take n r, drop n r)
      else Err (Storage (''Failed to read '' @ what @ '': '' @ eof_text)))"
  by (simp add: read_field_def read_exact_def)

lemma read_field_Ok: "read_field what n r = Ok (b, r') \<longleftrightarrow> n \<le> length r \<and> b = take n r \<and> r' = drop n r"
  by (auto simp: read_field_cases)

section \<open>Fixed-width fields\<close>

text \<open>
  What the record format relies on for each of its integer fields: a width, an encoding of that
  width and a decoding that inverts it.
\<close>

locale fixed_field =
  fixes width :: nat
    and enc :: "'a \<Rightarrow> bytes"
    and dec :: "bytes \<Rightarrow> 'a"
  assumes enc_width: "length (enc x) = width"
    and dec_enc: "dec (enc x) = x"
begin

lemma read_back:
  "and_then (read_field what width (enc x @ r)) (\<lambda>(b, r). f (dec b) r) = f x r"
  by (simp add: read_field_def enc_width dec_enc)

lemma read_short:
  assumes "n < width"
  shows "read_field what width (take n (enc x @ r)) =
           Err (Storage (''Failed to read '' @ what @ '': '' @ eof_text))"
  using assms by (simp add: read_field_def)

lemma take_past:
  assumes "width \<le> n"
  shows "take n (enc x @ r) = enc x @ take (n - width) r"
  using assms by (simp add: enc_width)

end

interpretation u64_field: fixed_field 8 u64_to_be_bytes u64_from_be_bytes
  by unfold_locales simp_all

interpretation u32_field: fixed_field 4 u32_to_be_bytes u32_from_be_bytes
  by unfold_locales simp_all

interpretation length_field: fixed_field 4 u32_to_be_bytes "\<lambda>b. of_nat (from_be b)"
  by unfold_locales simp_all

section \<open>Decoding inverts encoding\<close>

text \<open>
  The records the format can represent: the compressor succeeds, the key length fits the signed
  field and the body length fits the unsigned one. The source truncates larger lengths.
\<close>

definition record_fits :: "codecs \<Rightarrow> disk_record \<Rightarrow> bool" where
  "record_fits C r \<longleftrightarrow>
     (case compress C (dr_value r) (dr_compression r) of
        Ok z \<Rightarrow> key_size (dr_key r) < 2 ^ 31 \<and> body_size r z < 2 ^ 32
      | _ \<Rightarrow> False)"

definition enc_bytes :: "codecs \<Rightarrow> disk_record \<Rightarrow> bytes" where
  "enc_bytes C r = (case encode C r of Ok bs \<Rightarrow> bs | _ \<Rightarrow> [])"

lemma record_fitsE:
  assumes "record_fits C r"
  obtains z where "compress C (dr_value r) (dr_compression r) = Ok z"
    and "key_size (dr_key r) < 2 ^ 31" and "body_size r z < 2 ^ 32"
  using assms by (auto simp: record_fits_def split: outcome.splits)

lemma encode_fits: "record_fits C r \<Longrightarrow> encode C r = Ok (enc_bytes C r)"
  by (auto simp: enc_bytes_def encode_def Let_def elim!: record_fitsE)

lemma sint_of_nat_u32:
  assumes "n < 2 ^ 31"
  shows "sint (of_nat n :: u32) = int n"
proof -
  have "sint (of_nat n :: u32) = signed_take_bit 31 (int n)"
    by (simp add: signed_of_nat)
  also have "\<dots> = int n"
    using assms by (intro signed_take_bit_int_eq_self) auto
  finally show ?thesis .
qed

lemma read_key_encode:
  assumes "key_size k < 2 ^ 31"
  shows "read_key (encode_key k @ r) = Ok (k, r)"
proof (cases k)
  case None
  then show ?thesis
    by (simp add: read_key_def)
next
  case (Some b)
  then have "sint (of_nat (length b) :: u32) = int (length b)"
    using assms by (intro sint_of_nat_u32) simp
  then show ?thesis
    using Some by (simp add: read_key_def)
qed

lemma length_data_to_checksum: "length (data_to_checksum r z) + 4 = body_size r z"
  by (cases "dr_key r") (simp_all add: data_to_checksum_def body_size_def)

lemma parse_data_encode:
  assumes "codecs_ok C" and "compress C (dr_value r) (dr_compression r) = Ok z"
    and "key_size (dr_key r) < 2 ^ 31" and "body_size r z < 2 ^ 32"
  shows "parse_data C (dr_offset r) (data_to_checksum r z) = Ok r"
proof -
  have "unat (of_nat (length z) :: u32) = length z"
    using assms(4) by (intro unat_of_nat_u32) (simp add: body_size_def)
  then show ?thesis
    using read_key_encode [OF assms(3)] decompress_compress [OF assms(1,2)]
    by (simp add: parse_data_def data_to_checksum_def)
qed

text \<open>The layout of an encoded record: three header fields and the checksummed data.\<close>

lemma enc_bytes_layout:
  assumes "record_fits C r"
  obtains z where "compress C (dr_value r) (dr_compression r) = Ok z"
    and "key_size (dr_key r) < 2 ^ 31"
    and "body_size r z < 2 ^ 32"
    and "enc_bytes C r = u64_to_be_bytes (dr_offset r) @ u32_to_be_bytes (of_nat (body_size r z)) @
           u32_to_be_bytes (crc32 C (data_to_checksum r z)) @ data_to_checksum r z"
  using assms by (auto elim!: record_fitsE simp: enc_bytes_def encode_def Let_def)

text \<open>
  Decoding on any bytes with this header: everything but the data section is fixed, so this one
  equation serves the round trip, the corruption test and the truncation test.
\<close>

lemma decode_header:
  assumes "n < 2 ^ 32" and "4 \<le> n"
  shows "decode C (u64_to_be_bytes off @ u32_to_be_bytes (of_nat n) @ u32_to_be_bytes crc @ r) =
    and_then (read_field ''record data'' (n - 4) r) (\<lambda>(data, r).
      if crc32 C data \<noteq> crc then
        Err (Corruption (''CRC mismatch at offset '' @ show_word off @ '': expected '' @
          show_word crc @ '', got '' @ show_word (crc32 C data)))
      else and_then (parse_data C off data) (\<lambda>rec. Ok (rec, r)))"
  using assms by (simp add: decode_def unat_of_nat_u32 Let_def cong: if_cong)

lemma body_size_ge: "4 \<le> body_size r z"
  by (simp add: body_size_def)

lemma decode_encode:
  assumes "codecs_ok C" and "record_fits C r"
  shows "decode C (enc_bytes C r @ rest) = Ok (r, rest)"
proof -
  obtain z where z: "compress C (dr_value r) (dr_compression r) = Ok z"
      "key_size (dr_key r) < 2 ^ 31" "body_size r z < 2 ^ 32"
    and lay: "enc_bytes C r = u64_to_be_bytes (dr_offset r) @
      u32_to_be_bytes (of_nat (body_size r z)) @ u32_to_be_bytes (crc32 C (data_to_checksum r z)) @
      data_to_checksum r z"
    using enc_bytes_layout [OF assms(2)] by blast
  have len: "length (data_to_checksum r z) = body_size r z - 4"
    using length_data_to_checksum [of r z] by simp
  show ?thesis
    using parse_data_encode [OF assms(1) z] len
    by (simp add: lay decode_header [OF z(3) body_size_ge])
qed

section \<open>Decoding consumes the header\<close>

lemma decode_consumes:
  assumes "decode C r = Ok (x, r')"
  shows "length r' + 16 \<le> length r"
  using assms
  by (auto simp: decode_def outcome_simps read_field_Ok Let_def split: if_splits prod.splits)

lemma decode_Nil: "decode C [] = Err (Storage (''Failed to read offset: '' @ eof_text))"
  by (simp add: decode_def read_field_cases outcome_simps)

lemma enc_bytes_length:
  assumes "record_fits C r"
  shows "16 < length (enc_bytes C r)"
  using assms by (auto elim!: enc_bytes_layout simp: data_to_checksum_def)

lemma enc_bytes_not_Nil: "record_fits C r \<Longrightarrow> enc_bytes C r \<noteq> []"
  using enc_bytes_length by fastforce

section \<open>Truncated and damaged records\<close>

lemma decode_truncated:
  assumes "record_fits C r" and "n < length (enc_bytes C r)"
  shows "\<exists>e. decode C (take n (enc_bytes C r)) = Err (Storage e)"
proof -
  obtain z where z: "body_size r z < 2 ^ 32"
    and lay: "enc_bytes C r = u64_to_be_bytes (dr_offset r) @
      u32_to_be_bytes (of_nat (body_size r z)) @ u32_to_be_bytes (crc32 C (data_to_checksum r z)) @
      data_to_checksum r z"
    using enc_bytes_layout [OF assms(1)] by blast
  consider "n < 8" | "8 \<le> n" "n < 12" | "12 \<le> n" "n < 16" | "16 \<le> n" by linarith
  then show ?thesis
  proof cases
    case 4
    have "n - 16 < body_size r z - 4"
      using assms(2) 4 length_data_to_checksum [of r z] by (simp add: lay)
    then show ?thesis
      using 4 length_data_to_checksum [of r z]
      by (simp add: lay decode_header [OF z body_size_ge] read_field_cases outcome_simps)
  qed (simp_all add: lay decode_def read_field_cases outcome_simps)
qed

text \<open>
  Replacing the checksummed data by other data of the same length is reported as corruption, as
  soon as the checksum tells the two apart.
\<close>

lemma decode_damaged:
  assumes "record_fits C r"
    and "compress C (dr_value r) (dr_compression r) = Ok z"
    and "length data' = length (data_to_checksum r z)"
    and "crc32 C data' \<noteq> crc32 C (data_to_checksum r z)"
  shows "\<exists>e. decode C (take 16 (enc_bytes C r) @ data' @ rest) = Err (Corruption e)"
proof -
  have z: "body_size r z < 2 ^ 32"
    and lay: "enc_bytes C r = u64_to_be_bytes (dr_offset r) @
      u32_to_be_bytes (of_nat (body_size r z)) @ u32_to_be_bytes (crc32 C (data_to_checksum r z)) @
      data_to_checksum r z"
    using assms(1,2) by (auto elim!: enc_bytes_layout)
  have "length data' = body_size r z - 4"
    using assms(3) length_data_to_checksum [of r z] by simp
  then show ?thesis
    using assms(4) by (simp add: lay decode_header [OF z body_size_ge])
qed

text \<open>Without compression the announced size of a record is its encoded size.\<close>

lemma serialized_size_uncompressed:
  assumes "dr_compression r = CNone" and "encode C r = Ok bs"
  shows "length bs = serialized_size r"
  using assms length_data_to_checksum [of r "dr_value r"]
  by (auto simp: encode_def serialized_size_def body_size_def Let_def)

end
