(* ===== verification/Offset_Index.thy ===== *)
theory Offset_Index
  imports Gaffa_Prelude
begin

text \<open>
  \<open>storage/src/index.rs\<close>: the offset index of a log segment, a file of sixteen-byte entries that is
  searched through a memory map. The main facts: an append adds an entry at the end when the
  cursor of the file is there, which holds for an index that was created; the binary search
  returns the entry with the largest offset not above the target; and an index that was opened
  has its cursor at the start, so an append to it overwrites its first entry.
\<close>

definition INDEX_ENTRY_SIZE :: nat where
  "INDEX_ENTRY_SIZE = 16"

record offset_index =
  idx_file :: open_file
  idx_mmap :: "bytes option"
  idx_size :: nat

text \<open>
  \<open>create\<close> opens the file without truncating it, so bytes of an earlier file of that name
  (\<open>prior\<close>) stay; \<open>open\<close> needs the file to exist.
\<close>

definition index_create :: "bytes option \<Rightarrow> offset_index" where
  "index_create prior =
     \<lparr>idx_file = file_open (case prior of None \<Rightarrow> [] | Some b \<Rightarrow> b), idx_mmap = None, idx_size = 0\<rparr>"

definition index_open :: "bytes option \<Rightarrow> offset_index outcome" where
  "index_open prior =
     (case prior of
        None \<Rightarrow> Err (Io not_found_text)
      | Some b \<Rightarrow>
          Ok \<lparr>idx_file = file_open b,
              idx_mmap = (if length b > 0 then Some b else None),
              idx_size = length b div INDEX_ENTRY_SIZE\<rparr>)"

definition index_remap :: "offset_index \<Rightarrow> offset_index" where
  "index_remap ix =
     (if length (contents (idx_file ix)) > 0 then ix\<lparr>idx_mmap := Some (contents (idx_file ix))\<rparr>
      else ix)"

definition entry_bytes :: "u64 \<times> u64 \<Rightarrow> bytes" where
  "entry_bytes e = u64_to_be_bytes (fst e) @ u64_to_be_bytes (snd e)"

definition index_append :: "u64 \<Rightarrow> u64 \<Rightarrow> offset_index \<Rightarrow> offset_index" where
  "index_append off pos ix =
     index_remap (ix\<lparr>idx_file := write_all (entry_bytes (off, pos)) (idx_file ix),
                     idx_size := idx_size ix + 1\<rparr>)"

text \<open>Slicing the memory map outside its bounds panics.\<close>

definition read_u64_at :: "bytes \<Rightarrow> nat \<Rightarrow> u64 outcome" where
  "read_u64_at m pos =
     (if pos + 8 \<le> length m then Ok (u64_from_be_bytes (take 8 (drop pos m))) else Panic)"

definition read_offset_at :: "bytes \<Rightarrow> nat \<Rightarrow> u64 outcome" where
  "read_offset_at m i = read_u64_at m (i * INDEX_ENTRY_SIZE)"

definition read_position_at :: "bytes \<Rightarrow> nat \<Rightarrow> u64 outcome" where
  "read_position_at m i = read_u64_at m (i * INDEX_ENTRY_SIZE + 8)"

function lookup_loop :: "bytes \<Rightarrow> u64 \<Rightarrow> nat \<Rightarrow> nat \<Rightarrow> u64 option \<Rightarrow> u64 option outcome" where
  "lookup_loop m target left right result_position =
     (if left < right then
        let mid = (left + right) div 2 in
        and_then (read_offset_at m mid) (\<lambda>entry_offset.
          if entry_offset \<le> target then
            and_then (read_position_at m mid) (\<lambda>p. lookup_loop m target (mid + 1) right (Some p))
          else lookup_loop m target left mid result_position)
      else Ok result_position)"
  by pat_completeness auto
termination
  by (relation "measure (\<lambda>(m, t, l, r, p). r - l)") auto

declare lookup_loop.simps [simp del]

definition lookup :: "offset_index \<Rightarrow> u64 \<Rightarrow> u64 option outcome" where
  "lookup ix target =
     (if idx_size ix = 0 then Ok None
      else case idx_mmap ix of
             None \<Rightarrow> Ok None
           | Some m \<Rightarrow> lookup_loop m target 0 (idx_size ix) None)"

text \<open>\<open>flush\<close> only asks the system to write the file through; the bytes do not change.\<close>

definition index_flush :: "offset_index \<Rightarrow> offset_index" where
  "index_flush ix = ix"

section \<open>What an index holds\<close>

text \<open>
  The index holds the entries \<open>es\<close>: its file is their encoding and its map is current. A
  \<^emph>\<open>writable\<close> one also has its cursor at the end of the file.
\<close>

definition index_view :: "offset_index \<Rightarrow> (u64 \<times> u64) list \<Rightarrow> bool" where
  "index_view ix es \<longleftrightarrow>
     contents (idx_file ix) = concat (map entry_bytes es) \<and>
     idx_mmap ix = (if es = [] then None else Some (contents (idx_file ix))) \<and>
     idx_size ix = length es"

definition index_writable :: "offset_index \<Rightarrow> bool" where
  "index_writable ix \<longleftrightarrow> cursor (idx_file ix) = length (contents (idx_file ix))"

text \<open>The entry a lookup should find: the last one whose offset is not above the target.\<close>

definition floor_entry :: "(u64 \<times> u64) list \<Rightarrow> u64 \<Rightarrow> (u64 \<times> u64) option" where
  "floor_entry es target =
     (case takeWhile (\<lambda>e. fst e \<le> target) es of [] \<Rightarrow> None | x # xs \<Rightarrow> Some (last (x # xs)))"

lemma floor_entry_last:
  "floor_entry es target =
     (let t = takeWhile (\<lambda>e. fst e \<le> target) es in if t = [] then None else Some (last t))"
  by (simp add: floor_entry_def Let_def split: list.splits)

lemma length_entry_bytes [simp]: "length (entry_bytes e) = 16"
  by (simp add: entry_bytes_def)

lemma length_entries [simp]: "length (concat (map entry_bytes es)) = 16 * length es"
  by (induction es) auto

lemma index_view_create: "index_view (index_create None) [] \<and> index_writable (index_create None)"
  by (simp add: index_view_def index_writable_def index_create_def file_open_def)

lemma index_view_append:
  assumes "index_view ix es" and "index_writable ix"
  shows "index_view (index_append off pos ix) (es @ [(off, pos)]) \<and>
         index_writable (index_append off pos ix)"
  using assms
  by (auto simp: index_view_def index_writable_def index_append_def index_remap_def
      write_all_at_end)

lemma index_open_view:
  assumes "b = concat (map entry_bytes es)"
  shows "\<exists>ix. index_open (Some b) = Ok ix \<and> index_view ix es \<and> cursor (idx_file ix) = 0"
  using assms
  by (cases es) (auto simp: index_open_def index_view_def file_open_def INDEX_ENTRY_SIZE_def)

section \<open>Reading entries\<close>

lemma drop_entries:
  assumes "i < length es"
  shows "drop (16 * i) (concat (map entry_bytes es)) =
           entry_bytes (es ! i) @ concat (map entry_bytes (drop (Suc i) es))"
proof -
  have "drop (16 * i) (concat (map entry_bytes es)) = concat (map entry_bytes (drop i es))"
    using drop_length_concat_take [of entry_bytes i es] assms by simp
  then show ?thesis using assms by (simp add: Cons_nth_drop_Suc [symmetric])
qed

lemma read_offset_entry:
  assumes "i < length es"
  shows "read_offset_at (concat (map entry_bytes es)) i = Ok (fst (es ! i))"
  using assms drop_entries [OF assms]
  by (simp add: read_offset_at_def read_u64_at_def INDEX_ENTRY_SIZE_def mult.commute entry_bytes_def)

lemma read_position_entry:
  assumes "i < length es"
  shows "read_position_at (concat (map entry_bytes es)) i = Ok (snd (es ! i))"
proof -
  let ?m = "concat (map entry_bytes es)"
  have "drop (i * 16 + 8) ?m = drop 8 (drop (16 * i) ?m)"
    by (simp add: mult.commute add.commute)
  then show ?thesis
    using assms drop_entries [OF assms]
    by (simp add: read_position_at_def read_u64_at_def INDEX_ENTRY_SIZE_def entry_bytes_def)
qed

section \<open>The binary search\<close>

text \<open>The loop is the bisection of the prelude that remembers the position of its last success.\<close>

lemma bisect_ge: "l \<le> bisect p l r"
proof (induction p l r rule: bisect.induct)
  case (1 p l r)
  show ?case
  proof (cases "l < r")
    case True
    then show ?thesis
      using "1.IH"(1) [OF True refl] "1.IH"(2) [OF True refl]
      by (subst bisect.simps) (force simp: Let_def)
  qed (simp add: bisect.simps)
qed

lemma lookup_loop_bisect:
  assumes "right \<le> length es"
  shows "lookup_loop (concat (map entry_bytes es)) target left right res =
           (let k = bisect (\<lambda>i. fst (es ! i) \<le> target) left right in
            Ok (if k = left then res else Some (snd (es ! (k - 1)))))"
  using assms
proof (induction "concat (map entry_bytes es)" target left right res rule: lookup_loop.induct)
  case (1 target left right res)
  let ?m = "(left + right) div 2" and ?p = "\<lambda>i. fst (es ! i) \<le> target"
  show ?case
  proof (cases "left < right")
    case True
    then have m: "?m < length es" using "1.prems" by simp
    show ?thesis
    proof (cases "?p ?m")
      case p: True
      have "left < bisect ?p (?m + 1) right"
        using bisect_ge [of "?m + 1" ?p right] True by simp
      then show ?thesis
        using True p m "1.prems" "1.hyps"(1) [OF True refl read_offset_entry [OF m] p]
        by (auto simp: lookup_loop.simps [of _ target left right] bisect.simps [of ?p left right]
            read_offset_entry read_position_entry Let_def)
    next
      case False
      then show ?thesis
        using True m "1.prems" "1.hyps"(2) [OF True refl read_offset_entry [OF m] False]
        by (simp add: lookup_loop.simps [of _ target left right] bisect.simps [of ?p left right]
            read_offset_entry Let_def)
    qed
  next
    case False
    then show ?thesis by (simp add: lookup_loop.simps bisect.simps)
  qed
qed

lemma lookup_floor:
  assumes "index_view ix es" and "sorted (map fst es)"
  shows "lookup ix target = Ok (map_option snd (floor_entry es target))"
proof (cases "es = []")
  case True
  then show ?thesis using assms by (simp add: lookup_def index_view_def floor_entry_def)
next
  case False
  let ?t = "takeWhile (\<lambda>e. fst e \<le> target) es"
  have len: "length (takeWhile (\<lambda>k. k \<le> target) (map fst es)) = length ?t"
    by (simp add: takeWhile_map comp_def)
  have "prefix_test (\<lambda>i. map fst es ! i \<le> target) (length es) (length ?t)"
    using sorted_prefix_test [OF assms(2), of target] by (simp add: len)
  then have "prefix_test (\<lambda>i. fst (es ! i) \<le> target) (length es) (length ?t)"
    by (simp add: prefix_test_def)
  then have k: "bisect (\<lambda>i. fst (es ! i) \<le> target) 0 (length es) = length ?t"
    by (rule bisect_prefix) (simp_all add: length_takeWhile_le)
  have "lookup ix target = lookup_loop (concat (map entry_bytes es)) target 0 (length es) None"
    using assms(1) False by (simp add: lookup_def index_view_def)
  also have "\<dots> = Ok (if ?t = [] then None else Some (snd (es ! (length ?t - 1))))"
    by (simp add: lookup_loop_bisect k)
  also have "\<dots> = Ok (map_option snd (floor_entry es target))"
    by (simp add: floor_entry_last last_conv_nth takeWhile_nth)
  finally show ?thesis .
qed

section \<open>Appending to a reopened index\<close>

lemma index_reopen_append:
  assumes "index_view ix es" and "cursor (idx_file ix) = 0" and "es \<noteq> []"
  shows "contents (idx_file (index_append off pos ix)) =
           concat (map entry_bytes ((off, pos) # tl es)) \<and>
         idx_mmap (index_append off pos ix) =
           Some (concat (map entry_bytes ((off, pos) # tl es))) \<and>
         idx_size (index_append off pos ix) = length es + 1"
proof -
  obtain e es' where es: "es = e # es'" using assms(3) by (cases es) auto
  show ?thesis
    using assms(1,2)
    by (simp add: es index_view_def index_append_def index_remap_def write_all_def Let_def)
qed

text \<open>
  Every probe of a search for a large target moves right, so the search reaches the slot past the
  end of the map.
\<close>

lemma lookup_loop_runs_off:
  assumes "\<forall>e \<in> set es. fst e \<le> target" and "left \<le> length es"
  shows "lookup_loop (concat (map entry_bytes es)) target left (length es + 1) res = Panic"
  using assms
proof (induction "length es - left" arbitrary: left res rule: less_induct)
  case less
  define m where "m = (left + (length es + 1)) div 2"
  have loop: "lookup_loop (concat (map entry_bytes es)) target left (length es + 1) res =
      and_then (read_offset_at (concat (map entry_bytes es)) m) (\<lambda>entry_offset.
        if entry_offset \<le> target then
          and_then (read_position_at (concat (map entry_bytes es)) m)
            (\<lambda>p. lookup_loop (concat (map entry_bytes es)) target (m + 1) (length es + 1) (Some p))
        else lookup_loop (concat (map entry_bytes es)) target left m res)"
    using less.prems by (subst lookup_loop.simps) (simp add: m_def Let_def cong: if_cong)
  show ?case
  proof (cases "m < length es")
    case True
    then have "fst (es ! m) \<le> target" using less.prems by simp
    moreover have "lookup_loop (concat (map entry_bytes es)) target (m + 1) (length es + 1)
        (Some (snd (es ! m))) = Panic"
      using less.prems True by (intro less.hyps) (auto simp: m_def)
    ultimately show ?thesis
      by (simp only: loop read_offset_entry [OF True] read_position_entry [OF True] and_then.simps
          if_True)
  next
    case False
    then have "read_offset_at (concat (map entry_bytes es)) m = Panic"
      by (simp add: read_offset_at_def read_u64_at_def INDEX_ENTRY_SIZE_def)
    then show ?thesis by (simp only: loop and_then.simps)
  qed
qed

end
