(* ===== verification/Append_Log.thy ===== *)
theory Append_Log
  imports Gaffa_Prelude
begin

text \<open>
  The interface of an append-only log: what a segment promises to its partition and a partition
  to its topic. A log represents a list of records, an accepted batch extends the list and is
  acknowledged with the offset of its first record, and a fetch returns a slice of the list. The
  lemmas on a whole history of batches are proved once here.
\<close>

text \<open>A history of batches: the final state and the answers in order.\<close>

fun append_all :: "('m list \<Rightarrow> 's \<Rightarrow> 's \<times> 'a outcome) \<Rightarrow> 'm list list \<Rightarrow> 's \<Rightarrow> 's \<times> 'a outcome list" where
  "append_all app [] s = (s, [])"
| "append_all app (b # bs) s =
     (let (s1, r) = app b s; (s2, rest) = append_all app bs s1 in (s2, r # rest))"

text \<open>Every batch of the history is accepted in the state in which it arrives.\<close>

fun accepted ::
    "('m list \<Rightarrow> 's \<Rightarrow> 's \<times> 'a outcome) \<Rightarrow> ('s \<Rightarrow> 'm list \<Rightarrow> bool) \<Rightarrow> 'm list list \<Rightarrow> 's \<Rightarrow> bool" where
  "accepted app acc [] s = True"
| "accepted app acc (b # bs) s = (acc s b \<and> accepted app acc bs (fst (app b s)))"

locale append_log =
  fixes append_op :: "'m list \<Rightarrow> 's \<Rightarrow> 's \<times> u64 outcome"
    and fetch_op :: "'s \<Rightarrow> u64 \<Rightarrow> u32 \<Rightarrow> 'r list outcome"
    and rep :: "'s \<Rightarrow> 'r list \<Rightarrow> bool"
    and base :: "'s \<Rightarrow> u64"
    and content :: "'r \<Rightarrow> 'm"
    and accepts :: "'s \<Rightarrow> 'm list \<Rightarrow> bool"
  assumes append_ok:
    "rep s rs \<Longrightarrow> accepts s ms \<Longrightarrow>
       \<exists>s' new. append_op ms s = (s', Ok (base s + of_nat (length rs))) \<and> rep s' (rs @ new) \<and>
         map content new = ms \<and> base s' = base s"
    and fetch_ok:
    "rep s rs \<Longrightarrow> i \<le> length rs \<Longrightarrow>
       fetch_op s (base s + of_nat i) n = Ok (take (unat n) (drop i rs))"
begin

lemma append_okE:
  assumes "rep s rs" and "accepts s ms"
  obtains s' new where "append_op ms s = (s', Ok (base s + of_nat (length rs)))"
    and "rep s' (rs @ new)" and "map content new = ms" and "base s' = base s"
  using append_ok [OF assms] by blast

text \<open>A batch can be fetched at the offset it was acknowledged with.\<close>

lemma read_your_writes:
  assumes "rep s rs" and "accepts s ms" and "append_op ms s = (s', r)"
  shows "\<exists>off recs. r = Ok off \<and>
    (\<forall>n. length ms \<le> unat n \<longrightarrow> fetch_op s' off n = Ok recs) \<and> map content recs = ms"
proof -
  obtain new where new: "r = Ok (base s + of_nat (length rs))" "rep s' (rs @ new)"
      "map content new = ms" "base s' = base s"
    using append_okE [OF assms(1,2)] assms(3) by (metis prod.inject)
  have "length new = length ms" using new(3) by (metis length_map)
  then have "fetch_op s' (base s + of_nat (length rs)) n = Ok new" if "length ms \<le> unat n" for n
    using fetch_ok [OF new(2), of "length rs" n] new(4) that by simp
  then show ?thesis using new by blast
qed

text \<open>What was fetched before an append is fetched after it: records never change or move.\<close>

lemma history_stable:
  assumes "rep s rs" and "accepts s ms" and "append_op ms s = (s', r)"
    and "i + unat n \<le> length rs"
  shows "fetch_op s' (base s + of_nat i) n = fetch_op s (base s + of_nat i) n"
proof -
  obtain new where "rep s' (rs @ new)" "base s' = base s"
    using append_okE [OF assms(1,2)] assms(3) by (metis prod.inject)
  then show ?thesis
    using fetch_ok [of s' "rs @ new" i n] fetch_ok [OF assms(1), of i n] assms(4) by simp
qed

text \<open>
  After a history of accepted batches, the log holds all of their messages in the order of
  arrival after the old ones, and the batches were acknowledged with consecutive offsets.
\<close>

lemma append_all_rep:
  assumes "rep s rs" and "accepted append_op accepts bs s"
  shows "\<exists>s' new. append_all append_op bs s =
           (s', map (\<lambda>k. Ok (base s + of_nat (length rs + length (concat (take k bs))))) [0..<length bs]) \<and>
         rep s' (rs @ new) \<and> map content new = concat bs \<and> base s' = base s"
  using assms
proof (induction bs arbitrary: s rs)
  case Nil
  then show ?case by (auto intro!: exI [of _ "[]"])
next
  case (Cons b bs)
  obtain s1 new1 where s1: "append_op b s = (s1, Ok (base s + of_nat (length rs)))"
      "rep s1 (rs @ new1)" "map content new1 = b" "base s1 = base s"
    using append_okE [OF Cons.prems(1)] Cons.prems(2) by auto
  obtain s2 new2 where s2: "append_all append_op bs s1 = (s2, map (\<lambda>k. Ok (base s +
        of_nat (length (rs @ new1) + length (concat (take k bs))))) [0..<length bs])"
      "rep s2 ((rs @ new1) @ new2)" "map content new2 = concat bs" "base s2 = base s"
    using Cons.IH [OF s1(2)] Cons.prems(2) s1(1,4) by auto
  have "length new1 = length b" using s1(3) by (metis length_map)
  then have "append_all append_op (b # bs) s = (s2, map (\<lambda>k. Ok (base s +
        of_nat (length rs + length (concat (take k (b # bs)))))) [0..<length (b # bs)])"
    using s1(1) s2(1) by (simp add: upt_conv_Cons map_Suc_upt [symmetric] o_def add.assoc
        del: upt_Suc)
  then show ?case
    using s2(2-4) s1(3) by (intro exI [of _ s2] exI [of _ "new1 @ new2"]) simp
qed

end

end
