(* ===== verification/Log_Segment.thy ===== *)
theory Log_Segment
  imports Disk_Record Offset_Index Retention Append_Log
begin

text \<open>
  \<open>storage/src/segment.rs\<close>: a log segment, that is a log file, its offset index and the counters kept with
  them. A segment represents a list of records (\<open>seg_rep\<close>); appending extends the list, a read
  returns an element of it and a batch read a slice of it, whatever the index interval; opening
  the files of a segment recovers the list.
\<close>

definition DEFAULT_MAX_SEGMENT_SIZE :: u64 where
  "DEFAULT_MAX_SEGMENT_SIZE = 1024 * 1024 * 1024"

record segment_config =
  sc_max_size :: u64
  sc_index_interval :: u32
  sc_compression :: compression_type
  sc_retention :: retention_config

definition segment_config_default :: segment_config where
  "segment_config_default =
     \<lparr>sc_max_size = DEFAULT_MAX_SEGMENT_SIZE, sc_index_interval = 10, sc_compression = CNone,
      sc_retention = retention_config_default\<rparr>"

definition with_compression :: "compression_type \<Rightarrow> segment_config \<Rightarrow> segment_config" where
  "with_compression c cfg = cfg\<lparr>sc_compression := c\<rparr>"

definition with_retention :: "retention_config \<Rightarrow> segment_config \<Rightarrow> segment_config" where
  "with_retention r cfg = cfg\<lparr>sc_retention := r\<rparr>"

record log_segment =
  seg_base_offset :: u64
  seg_log_file :: open_file
  seg_mmap :: "bytes option"
  seg_index :: offset_index
  seg_size :: u64
  seg_next_offset :: u64
  seg_config :: segment_config
  seg_records_since_index :: u32

definition log_name :: "u64 \<Rightarrow> string" where
  "log_name base_offset = pad_zeros 20 (show_word base_offset) @ ''.log''"

definition index_name :: "u64 \<Rightarrow> string" where
  "index_name base_offset = pad_zeros 20 (show_word base_offset) @ ''.index''"

section \<open>Operations\<close>

text \<open>
  \<open>prior_log\<close> and \<open>prior_index\<close> are the bytes of files that already have the segment's names:
  \<open>create\<close> does not truncate them.
\<close>

definition segment_create ::
    "bytes option \<Rightarrow> bytes option \<Rightarrow> u64 \<Rightarrow> segment_config \<Rightarrow> log_segment" where
  "segment_create prior_log prior_index base_offset config =
     \<lparr>seg_base_offset = base_offset,
      seg_log_file = file_open (case prior_log of None \<Rightarrow> [] | Some b \<Rightarrow> b),
      seg_mmap = None,
      seg_index = index_create prior_index,
      seg_size = 0,
      seg_next_offset = base_offset,
      seg_config = config,
      seg_records_since_index = 0\<rparr>"

function scan_loop :: "codecs \<Rightarrow> u64 \<Rightarrow> bytes \<Rightarrow> u64 outcome" where
  "scan_loop C last_offset r =
     (case decode C r of
        Ok (rec, r') \<Rightarrow> scan_loop C (dr_offset rec) r'
      | Err e \<Rightarrow> Ok last_offset
      | Panic \<Rightarrow> Panic)"
  by pat_completeness auto
termination
  by (relation "measure (\<lambda>(C, l, r). length r)") (auto dest: decode_consumes)

declare scan_loop.simps [simp del]

definition scan_for_next_offset :: "codecs \<Rightarrow> bytes \<Rightarrow> u64 \<Rightarrow> u64 outcome" where
  "scan_for_next_offset C log base_offset =
     (if log = [] then Ok base_offset
      else and_then (scan_loop C base_offset log) (\<lambda>last_offset. Ok (last_offset + 1)))"

definition segment_open ::
    "codecs \<Rightarrow> bytes option \<Rightarrow> bytes option \<Rightarrow> u64 \<Rightarrow> segment_config \<Rightarrow> log_segment outcome" where
  "segment_open C log_bytes index_bytes base_offset config =
     (case log_bytes of
        None \<Rightarrow> Err (Io not_found_text)
      | Some log \<Rightarrow>
          and_then (index_open index_bytes) (\<lambda>index.
          and_then (scan_for_next_offset C log base_offset) (\<lambda>next_offset.
            Ok \<lparr>seg_base_offset = base_offset,
                seg_log_file = file_open log,
                seg_mmap = (if length log > 0 then Some log else None),
                seg_index = index,
                seg_size = of_nat (length log),
                seg_next_offset = next_offset,
                seg_config = config,
                seg_records_since_index = 0\<rparr>)))"

definition record_for :: "segment_config \<Rightarrow> u64 \<Rightarrow> message \<Rightarrow> disk_record" where
  "record_for config off m =
     (if sc_compression config = CNone then disk_record_new off m
      else new_with_compression off m (sc_compression config))"

text \<open>
  The loop of \<open>append\<close>. An error leaves the segment as the loop has changed it so far.
\<close>

fun append_loop :: "codecs \<Rightarrow> message list \<Rightarrow> log_segment \<Rightarrow> u64 \<Rightarrow> log_segment \<times> u64 outcome" where
  "append_loop C [] s current_position = (s, Ok current_position)"
| "append_loop C (m # ms) s current_position =
     (case encode C (record_for (seg_config s) (seg_next_offset s) m) of
        Ok encoded \<Rightarrow>
          let s1 = s\<lparr>seg_log_file := write_all encoded (seg_log_file s)\<rparr>;
              s2 = (if seg_records_since_index s1 \<ge> sc_index_interval (seg_config s1) then
                      s1\<lparr>seg_index := index_append (seg_next_offset s1) current_position (seg_index s1),
                         seg_records_since_index := 0\<rparr>
                    else s1);
              s3 = s2\<lparr>seg_next_offset := seg_next_offset s2 + 1,
                      seg_records_since_index := seg_records_since_index s2 + 1\<rparr>
          in append_loop C ms s3 (current_position + of_nat (length encoded))
      | Err e \<Rightarrow> (s, Err e)
      | Panic \<Rightarrow> (s, Panic))"

definition segment_remap :: "log_segment \<Rightarrow> log_segment" where
  "segment_remap s =
     (if length (contents (seg_log_file s)) > 0 then s\<lparr>seg_mmap := Some (contents (seg_log_file s))\<rparr>
      else s)"

definition segment_append :: "codecs \<Rightarrow> message list \<Rightarrow> log_segment \<Rightarrow> log_segment \<times> u64 outcome" where
  "segment_append C messages s =
     (if messages = [] then (s, Err (InvalidMessage ''No messages to append''))
      else
        let base_offset = seg_next_offset s;
            s0 = s\<lparr>seg_log_file := seek_end (seg_log_file s)\<rparr> in
        case append_loop C messages s0 (seg_size s0) of
          (s1, Ok current_position) \<Rightarrow>
            (segment_remap (s1\<lparr>seg_size := current_position\<rparr>), Ok base_offset)
        | (s1, Err e) \<Rightarrow> (s1, Err e)
        | (s1, Panic) \<Rightarrow> (s1, Panic))"

function read_loop :: "codecs \<Rightarrow> u64 \<Rightarrow> bytes \<Rightarrow> disk_record outcome" where
  "read_loop C off r =
     (case decode C r of
        Ok (rec, r') \<Rightarrow>
          if dr_offset rec = off then Ok rec
          else if dr_offset rec > off then Err (InvalidOffset off)
          else read_loop C off r'
      | Err e \<Rightarrow> Err e
      | Panic \<Rightarrow> Panic)"
  by pat_completeness auto
termination
  by (relation "measure (\<lambda>(C, off, r). length r)") (auto dest: decode_consumes)

declare read_loop.simps [simp del]

text \<open>
  The position a read starts from: the index entry below the offset, or the start of the file.
  Slicing the map from a position past its end panics.
\<close>

definition start_position :: "log_segment \<Rightarrow> bytes \<Rightarrow> u64 \<Rightarrow> bytes outcome" where
  "start_position s m off =
     and_then (lookup (seg_index s) off) (\<lambda>p.
       let position = unat (case p of None \<Rightarrow> 0 | Some p \<Rightarrow> p) in
       if position \<le> length m then Ok (drop position m) else Panic)"

definition segment_read :: "codecs \<Rightarrow> log_segment \<Rightarrow> u64 \<Rightarrow> disk_record outcome" where
  "segment_read C s off =
     (if off < seg_base_offset s then Err (InvalidOffset off)
      else if off \<ge> seg_next_offset s then Err (InvalidOffset off)
      else case seg_mmap s of
             None \<Rightarrow> Err (Storage ''Segment not memory-mapped'')
           | Some m \<Rightarrow> and_then (start_position s m off) (\<lambda>r. read_loop C off r))"

function batch_loop ::
    "codecs \<Rightarrow> u64 \<Rightarrow> nat \<Rightarrow> bool \<Rightarrow> disk_record list \<Rightarrow> bytes \<Rightarrow> disk_record list outcome" where
  "batch_loop C start_offset max_count found_start records r =
     (if length records < max_count then
        case decode C r of
          Ok (rec, r') \<Rightarrow>
            if dr_offset rec \<ge> start_offset then
              batch_loop C start_offset max_count True (records @ [rec]) r'
            else batch_loop C start_offset max_count found_start records r'
        | Err e \<Rightarrow> Ok records
        | Panic \<Rightarrow> Panic
      else Ok records)"
  by pat_completeness auto
termination
  by (relation "measure (\<lambda>(C, st, mx, f, rs, r). length r)") (auto dest: decode_consumes)

declare batch_loop.simps [simp del]

definition read_batch :: "codecs \<Rightarrow> log_segment \<Rightarrow> u64 \<Rightarrow> u32 \<Rightarrow> disk_record list outcome" where
  "read_batch C s start_offset max_count =
     (if start_offset < seg_base_offset s then Err (InvalidOffset start_offset)
      else if start_offset \<ge> seg_next_offset s then Ok []
      else case seg_mmap s of
             None \<Rightarrow> Err (Storage ''Segment not memory-mapped'')
           | Some m \<Rightarrow>
               and_then (start_position s m start_offset)
                 (\<lambda>r. batch_loop C start_offset (unat max_count) False [] r))"

definition should_rotate :: "log_segment \<Rightarrow> bool" where
  "should_rotate s \<longleftrightarrow> seg_size s \<ge> sc_max_size (seg_config s)"

definition segment_flush :: "log_segment \<Rightarrow> log_segment" where
  "segment_flush s = s\<lparr>seg_index := index_flush (seg_index s)\<rparr>"

section \<open>Scanning encoded records\<close>

abbreviation encode_all :: "codecs \<Rightarrow> disk_record list \<Rightarrow> bytes" where
  "encode_all C rs \<equiv> concat (map (enc_bytes C) rs)"

text \<open>
  The bytes after the last whole record of a log: reading a record from them fails without a
  panic. The empty tail is one, and so is the torn part of a record.
\<close>

definition torn :: "codecs \<Rightarrow> bytes \<Rightarrow> bool" where
  "torn C r \<longleftrightarrow> is_err (decode C r)"

lemma torn_Nil [simp]: "torn C []"
  by (simp add: torn_def decode_Nil)

lemma torn_prefix: "record_fits C r \<Longrightarrow> n < length (enc_bytes C r) \<Longrightarrow> torn C (take n (enc_bytes C r))"
  using decode_truncated [of C r n] by (auto simp: torn_def)

lemma tornE:
  assumes "torn C r"
  obtains e where "decode C r = Err e"
  using assms by (auto simp: torn_def is_err_iff)

lemma scan_loop_records:
  assumes "codecs_ok C" and "\<forall>r \<in> set rs. record_fits C r" and "torn C tail"
  shows "scan_loop C l (encode_all C rs @ tail) = Ok (last (l # map dr_offset rs))"
  using assms(2)
proof (induction rs arbitrary: l)
  case Nil
  then show ?case using assms(3) by (auto elim!: tornE simp: scan_loop.simps)
next
  case (Cons r rs)
  then show ?case
    by (simp add: scan_loop.simps [of C l "enc_bytes C r @ _"] decode_encode [OF assms(1)])
qed

lemma batch_loop_records:
  assumes "codecs_ok C" and "\<forall>r \<in> set rs. record_fits C r" and "torn C tail"
    and "length acc \<le> n"
  shows "batch_loop C st n f acc (encode_all C rs @ tail) =
           Ok (take n (acc @ filter (\<lambda>r. st \<le> dr_offset r) rs))"
  using assms(2,4)
proof (induction rs arbitrary: acc f)
  case Nil
  then show ?case using assms(3) by (auto elim!: tornE simp: batch_loop.simps)
next
  case (Cons r rs)
  then show ?case
    by (simp add: batch_loop.simps [of C st n f acc "enc_bytes C r @ _"]
        decode_encode [OF assms(1)] take_Cons')
qed

lemma read_loop_records:
  assumes "codecs_ok C" and "\<forall>r \<in> set rs. record_fits C r"
    and "i < length rs" and "\<forall>j<i. dr_offset (rs ! j) < off" and "dr_offset (rs ! i) = off"
  shows "read_loop C off (encode_all C rs @ tail) = Ok (rs ! i)"
  using assms(2-)
proof (induction rs arbitrary: i)
  case (Cons r rs)
  show ?case
  proof (cases i)
    case 0
    then show ?thesis using Cons.prems
      by (simp add: read_loop.simps [of C off "enc_bytes C r @ _"] decode_encode [OF assms(1)])
  next
    case (Suc k)
    have below: "dr_offset r < off" "\<forall>j<k. dr_offset (rs ! j) < off"
      using Cons.prems(3) by (simp_all add: Suc All_less_Suc2)
    have "read_loop C off (encode_all C rs @ tail) = Ok (rs ! k)"
      using Cons.prems below(2) Suc by (intro Cons.IH) simp_all
    then show ?thesis using Cons.prems Suc below(1)
      by (auto simp: read_loop.simps [of C off "enc_bytes C r @ _"] decode_encode [OF assms(1)])
  qed
qed simp

section \<open>What a segment represents\<close>

text \<open>The byte position of the \<open>i\<close>-th record.\<close>

definition rec_pos :: "codecs \<Rightarrow> disk_record list \<Rightarrow> nat \<Rightarrow> nat" where
  "rec_pos C rs i = length (encode_all C (take i rs))"

text \<open>Records whose offsets count up from the base offset without wrapping.\<close>

definition consecutive :: "u64 \<Rightarrow> disk_record list \<Rightarrow> bool" where
  "consecutive b rs \<longleftrightarrow>
     unat b + length rs < 2 ^ 64 \<and> (\<forall>i<length rs. dr_offset (rs ! i) = b + of_nat i)"

text \<open>Index entries that point at records of the list.\<close>

definition entries_ok :: "codecs \<Rightarrow> u64 \<Rightarrow> disk_record list \<Rightarrow> (u64 \<times> u64) list \<Rightarrow> bool" where
  "entries_ok C b rs es \<longleftrightarrow>
     sorted (map fst es) \<and>
     (\<forall>e \<in> set es. \<exists>i<length rs. fst e = b + of_nat i \<and> snd e = of_nat (rec_pos C rs i))"

text \<open>
  The part of the invariant that the loop of \<open>append\<close> keeps at every step: the log file is the
  encoding of the records, the next offset follows the last one, the index points into the log.
\<close>

definition seg_core :: "codecs \<Rightarrow> log_segment \<Rightarrow> disk_record list \<Rightarrow> bool" where
  "seg_core C s rs \<longleftrightarrow>
     (\<forall>r \<in> set rs. record_fits C r) \<and>
     consecutive (seg_base_offset s) rs \<and>
     contents (seg_log_file s) = encode_all C rs \<and>
     length (encode_all C rs) < 2 ^ 64 \<and>
     seg_next_offset s = seg_base_offset s + of_nat (length rs) \<and>
     (\<exists>es. index_view (seg_index s) es \<and> entries_ok C (seg_base_offset s) rs es)"

definition seg_rep :: "codecs \<Rightarrow> log_segment \<Rightarrow> disk_record list \<Rightarrow> bool" where
  "seg_rep C s rs \<longleftrightarrow>
     seg_core C s rs \<and>
     seg_size s = of_nat (length (encode_all C rs)) \<and>
     seg_mmap s = (if rs = [] then None else Some (encode_all C rs))"

text \<open>
  A segment that was created (not opened) writes its index at the end of the index file. An opened one may be written to
  only while its index is empty.
\<close>

definition seg_writable :: "log_segment \<Rightarrow> bool" where
  "seg_writable s \<longleftrightarrow> index_writable (seg_index s)"

text \<open>The records a batch of messages becomes.\<close>

fun records_for :: "segment_config \<Rightarrow> u64 \<Rightarrow> message list \<Rightarrow> disk_record list" where
  "records_for config off [] = []"
| "records_for config off (m # ms) = record_for config off m # records_for config (off + 1) ms"

definition batch_fits :: "codecs \<Rightarrow> log_segment \<Rightarrow> message list \<Rightarrow> bool" where
  "batch_fits C s ms \<longleftrightarrow>
     (let new = records_for (seg_config s) (seg_next_offset s) ms in
      list_all (record_fits C) new \<and>
      unat (seg_next_offset s) + length ms < 2 ^ 64 \<and>
      length (contents (seg_log_file s)) + length (encode_all C new) < 2 ^ 64)"

lemma length_records_for [simp]: "length (records_for cfg off ms) = length ms"
  by (induction ms arbitrary: off) auto

lemma dr_offset_record_for [simp]: "dr_offset (record_for cfg off m) = off"
  by (simp add: record_for_def disk_record_new_def new_with_compression_def)

lemma dr_offset_records_for:
  "i < length ms \<Longrightarrow> dr_offset (records_for cfg off ms ! i) = off + of_nat i"
  by (induction ms arbitrary: off i) (auto simp: nth_Cons split: nat.splits)

lemma to_message_record_for [simp]: "to_message (record_for cfg off m) = m"
  by (simp add: to_message_def record_for_def disk_record_new_def new_with_compression_def)

lemma to_message_records_for [simp]: "map to_message (records_for cfg off ms) = ms"
  by (induction ms arbitrary: off) auto

lemma consecutive_dr_offset:
  "consecutive b rs \<Longrightarrow> i < length rs \<Longrightarrow> dr_offset (rs ! i) = b + of_nat i"
  by (simp add: consecutive_def)

lemma consecutive_less_iff:
  assumes "consecutive b rs" and "i \<le> length rs" and "j \<le> length rs"
  shows "b + of_nat i < b + of_nat j \<longleftrightarrow> i < j"
  using assms by (intro u64_plus_less_iff) (auto simp: consecutive_def)

lemma consecutive_le_iff:
  assumes "consecutive b rs" and "i \<le> length rs" and "j \<le> length rs"
  shows "b + of_nat i \<le> b + of_nat j \<longleftrightarrow> i \<le> j"
  using assms by (intro u64_plus_le_iff) (auto simp: consecutive_def)

lemma consecutive_snoc:
  assumes "consecutive b rs" and "dr_offset r = b + of_nat (length rs)"
    and "unat b + length rs + 1 < 2 ^ 64"
  shows "consecutive b (rs @ [r])"
  using assms by (auto simp: consecutive_def nth_append less_Suc_eq)

lemma rec_pos_append: "i \<le> length rs \<Longrightarrow> rec_pos C (rs @ rs') i = rec_pos C rs i"
  by (simp add: rec_pos_def)

lemma rec_pos_length [simp]: "rec_pos C rs (length rs) = length (encode_all C rs)"
  by (simp add: rec_pos_def)

lemma rec_pos_le: "rec_pos C rs i \<le> length (encode_all C rs)"
  using concat_map_take_drop [of "enc_bytes C" rs i] by (metis le_add1 length_append rec_pos_def)

lemma drop_rec_pos: "drop (rec_pos C rs i) (encode_all C rs) = encode_all C (drop i rs)"
  unfolding rec_pos_def by (rule drop_length_concat_take)

lemma entries_okE:
  assumes "entries_ok C b rs es" and "e \<in> set es"
  obtains i where "i < length rs" and "fst e = b + of_nat i" and "snd e = of_nat (rec_pos C rs i)"
  using bspec [OF conjunct2 [OF assms(1) [unfolded entries_ok_def]] assms(2)] that by blast

lemma entries_ok_append:
  assumes "entries_ok C b rs es"
  shows "entries_ok C b (rs @ rs') es"
proof -
  have "\<exists>i<length (rs @ rs'). fst e = b + of_nat i \<and> snd e = of_nat (rec_pos C (rs @ rs') i)"
    if e: "e \<in> set es" for e
  proof -
    obtain i where "i < length rs" "fst e = b + of_nat i" "snd e = of_nat (rec_pos C rs i)"
      by (rule entries_okE [OF assms e])
    then show ?thesis by (intro exI [of _ i]) (simp add: rec_pos_append)
  qed
  then show ?thesis using assms by (simp add: entries_ok_def)
qed

lemma entries_ok_snoc:
  assumes "entries_ok C b rs es" and "consecutive b (rs @ [r])"
  shows "entries_ok C b (rs @ [r]) (es @ [(b + of_nat (length rs), of_nat (length (encode_all C rs)))])"
proof -
  have "fst e \<le> b + of_nat (length rs)" if e: "e \<in> set es" for e
  proof -
    obtain i where "i < length rs" "fst e = b + of_nat i"
      by (rule entries_okE [OF assms(1) e])
    then show ?thesis using consecutive_le_iff [OF assms(2), of i "length rs"] by simp
  qed
  moreover have "entries_ok C b (rs @ [r]) es" by (rule entries_ok_append [OF assms(1)])
  ultimately show ?thesis
    by (auto simp: entries_ok_def sorted_append rec_pos_append intro!: exI [of _ "length rs"])
qed

section \<open>Appending\<close>

lemma seg_coreE:
  assumes "seg_core C s rs"
  obtains es where "\<forall>r \<in> set rs. record_fits C r" and "consecutive (seg_base_offset s) rs"
    and "contents (seg_log_file s) = encode_all C rs" and "length (encode_all C rs) < 2 ^ 64"
    and "seg_next_offset s = seg_base_offset s + of_nat (length rs)"
    and "index_view (seg_index s) es" and "entries_ok C (seg_base_offset s) rs es"
  using assms by (auto simp: seg_core_def)

text \<open>One turn of the loop, on a file whose cursor is at its end.\<close>

definition append_one :: "log_segment \<Rightarrow> bytes \<Rightarrow> u64 \<Rightarrow> log_segment" where
  "append_one s encoded pos =
     (let s1 = s\<lparr>seg_log_file := write_all encoded (seg_log_file s)\<rparr>;
          s2 = (if seg_records_since_index s1 \<ge> sc_index_interval (seg_config s1) then
                  s1\<lparr>seg_index := index_append (seg_next_offset s1) pos (seg_index s1),
                     seg_records_since_index := 0\<rparr>
                else s1)
      in s2\<lparr>seg_next_offset := seg_next_offset s2 + 1,
            seg_records_since_index := seg_records_since_index s2 + 1\<rparr>)"

lemma append_loop_Cons:
  "append_loop C (m # ms) s pos =
     (case encode C (record_for (seg_config s) (seg_next_offset s) m) of
        Ok encoded \<Rightarrow> append_loop C ms (append_one s encoded pos) (pos + of_nat (length encoded))
      | Err e \<Rightarrow> (s, Err e)
      | Panic \<Rightarrow> (s, Panic))"
  by (simp add: append_one_def Let_def cong: if_cong split: outcome.split)

lemma append_one_fields [frame_simps]:
  "seg_base_offset (append_one s b pos) = seg_base_offset s"
  "seg_config (append_one s b pos) = seg_config s"
  "seg_next_offset (append_one s b pos) = seg_next_offset s + 1"
  "seg_log_file (append_one s b pos) = write_all b (seg_log_file s)"
  "seg_mmap (append_one s b pos) = seg_mmap s"
  "seg_size (append_one s b pos) = seg_size s"
  by (simp_all add: append_one_def Let_def)

lemma append_one_index:
  "seg_index (append_one s b pos) =
     (if seg_records_since_index s \<ge> sc_index_interval (seg_config s)
      then index_append (seg_next_offset s) pos (seg_index s) else seg_index s)"
  by (simp add: append_one_def Let_def)

lemma append_one_core:
  assumes core: "seg_core C s rs" and wr: "seg_writable s"
    and cur: "cursor (seg_log_file s) = length (contents (seg_log_file s))"
    and fits: "record_fits C r" and off: "dr_offset r = seg_next_offset s"
    and bound: "unat (seg_base_offset s) + length rs + 1 < 2 ^ 64"
    and size: "length (encode_all C (rs @ [r])) < 2 ^ 64"
  shows "seg_core C (append_one s (enc_bytes C r) (of_nat (length (encode_all C rs)))) (rs @ [r])"
    and "seg_writable (append_one s (enc_bytes C r) (of_nat (length (encode_all C rs))))"
    and "cursor (write_all (enc_bytes C r) (seg_log_file s)) =
           length (contents (write_all (enc_bytes C r) (seg_log_file s)))"
proof -
  obtain es where c: "\<forall>r \<in> set rs. record_fits C r" "consecutive (seg_base_offset s) rs"
    "contents (seg_log_file s) = encode_all C rs" "length (encode_all C rs) < 2 ^ 64"
    "seg_next_offset s = seg_base_offset s + of_nat (length rs)"
    and ix: "index_view (seg_index s) es" "entries_ok C (seg_base_offset s) rs es"
    using core by (rule seg_coreE)
  have cons: "consecutive (seg_base_offset s) (rs @ [r])"
    using c(2,5) off bound by (intro consecutive_snoc) simp_all
  let ?s = "append_one s (enc_bytes C r) (of_nat (length (encode_all C rs)))"
  have "\<exists>es'. index_view (seg_index ?s) es' \<and> entries_ok C (seg_base_offset s) (rs @ [r]) es'"
    using index_view_append [OF ix(1) wr [unfolded seg_writable_def]] ix(1)
      entries_ok_append [OF ix(2), of "[r]"] entries_ok_snoc [OF ix(2) cons] c(5)
    by (auto simp: append_one_index)
  then show "seg_core C ?s (rs @ [r])"
    using c cons fits size cur
    by (simp add: seg_core_def frame_simps write_all_at_end)
  show "seg_writable ?s"
    using wr index_view_append [OF ix(1)] by (simp add: seg_writable_def append_one_index)
  show "cursor (write_all (enc_bytes C r) (seg_log_file s)) =
      length (contents (write_all (enc_bytes C r) (seg_log_file s)))"
    using cur by (simp add: write_all_at_end)
qed

lemma append_loop_correct:
  assumes "seg_core C s rs" and "seg_writable s"
    and "cursor (seg_log_file s) = length (contents (seg_log_file s))"
    and "batch_fits C s ms" and "pos = of_nat (length (encode_all C rs))"
  shows "\<exists>s'. append_loop C ms s pos =
           (s', Ok (of_nat (length (encode_all C (rs @ records_for (seg_config s) (seg_next_offset s) ms))))) \<and>
         seg_core C s' (rs @ records_for (seg_config s) (seg_next_offset s) ms) \<and>
         seg_writable s' \<and> seg_base_offset s' = seg_base_offset s \<and> seg_config s' = seg_config s \<and>
         seg_mmap s' = seg_mmap s"
  using assms
proof (induction ms arbitrary: s rs pos)
  case Nil
  then show ?case by simp
next
  case (Cons m ms)
  let ?r = "record_for (seg_config s) (seg_next_offset s) m"
  let ?s = "append_one s (enc_bytes C ?r) pos"
  obtain es where c: "contents (seg_log_file s) = encode_all C rs"
    "consecutive (seg_base_offset s) rs"
    "seg_next_offset s = seg_base_offset s + of_nat (length rs)"
    using Cons.prems(1) by (rule seg_coreE)
  have fits: "record_fits C ?r"
    and bound: "unat (seg_next_offset s) + length (m # ms) < 2 ^ 64"
    and size: "length (encode_all C rs) + length (enc_bytes C ?r) +
        length (encode_all C (records_for (seg_config s) (seg_next_offset s + 1) ms)) < 2 ^ 64"
    using Cons.prems(4) c(1) by (simp_all add: batch_fits_def Let_def)
  have next_nat: "unat (seg_next_offset s) = unat (seg_base_offset s) + length rs"
    using c(2,3) by (simp add: consecutive_def unat_u64_plus)
  have core: "seg_core C ?s (rs @ [?r])" "seg_writable ?s"
      "cursor (seg_log_file ?s) = length (contents (seg_log_file ?s))"
    using append_one_core [OF Cons.prems(1-3) fits] bound size next_nat Cons.prems(5)
    by (simp_all add: frame_simps)
  have "unat (seg_next_offset s + 1) = unat (seg_next_offset s) + 1"
    using bound unat_u64_plus [of "seg_next_offset s" 1] by simp
  then have "batch_fits C ?s ms"
    using Cons.prems(3,4) c(1) size bound
    by (simp add: batch_fits_def Let_def frame_simps write_all_at_end)
  from Cons.IH [OF core this, of "of_nat (length (encode_all C (rs @ [?r])))"]
  show ?case
    using Cons.prems(5) by (simp add: append_loop_Cons encode_fits [OF fits] frame_simps
        del: append_loop.simps)
qed

text \<open>
  The contract of \<open>append\<close>: on a batch that fits, it returns the offset of the first record and
  the segment represents the old records followed by the new ones.
\<close>

lemma segment_append_correct:
  assumes rep: "seg_rep C s rs" and wr: "seg_writable s" and fits: "batch_fits C s ms"
    and ne: "ms \<noteq> []"
  obtains s' where "segment_append C ms s = (s', Ok (seg_next_offset s))"
    and "seg_rep C s' (rs @ records_for (seg_config s) (seg_next_offset s) ms)"
    and "seg_writable s'" and "seg_base_offset s' = seg_base_offset s"
    and "seg_config s' = seg_config s"
proof -
  let ?s0 = "s\<lparr>seg_log_file := seek_end (seg_log_file s)\<rparr>"
  let ?new = "rs @ records_for (seg_config s) (seg_next_offset s) ms"
  have "seg_core C ?s0 rs" "seg_writable ?s0" "batch_fits C ?s0 ms"
    "cursor (seg_log_file ?s0) = length (contents (seg_log_file ?s0))"
    "seg_size ?s0 = of_nat (length (encode_all C rs))"
    using rep wr fits
    by (simp_all add: seg_rep_def seg_core_def seg_writable_def seek_end_def batch_fits_def)
  from append_loop_correct [OF this(1,2,4,3,5)]
  obtain s1 where s1: "append_loop C ms ?s0 (seg_size ?s0) =
        (s1, Ok (of_nat (length (encode_all C ?new))))"
      "seg_core C s1 ?new" "seg_writable s1" "seg_base_offset s1 = seg_base_offset s"
      "seg_config s1 = seg_config s"
    by auto
  let ?s' = "segment_remap (s1\<lparr>seg_size := of_nat (length (encode_all C ?new))\<rparr>)"
  have log: "contents (seg_log_file s1) = encode_all C ?new" and "\<forall>r \<in> set ?new. record_fits C r"
    using s1(2) by (auto simp: seg_core_def)
  moreover have "?new \<noteq> []"
    using ne by (metis append_is_Nil_conv length_0_conv length_records_for)
  ultimately have "0 < length (encode_all C ?new)"
    by (metis concat_eq_Nil_conv enc_bytes_not_Nil length_greater_0_conv list.set_intros(1)
        list.set_map image_eqI neq_Nil_conv)
  then have "seg_rep C ?s' ?new" "seg_writable ?s'" "seg_base_offset ?s' = seg_base_offset s"
      "seg_config ?s' = seg_config s"
    using s1 log \<open>?new \<noteq> []\<close>
    by (auto simp: seg_rep_def seg_core_def segment_remap_def seg_writable_def)
  moreover have "segment_append C ms s = (?s', Ok (seg_next_offset s))"
    using ne s1(1) by (simp add: segment_append_def Let_def)
  ultimately show thesis using that by blast
qed

section \<open>Reading\<close>

text \<open>
  What reads need of a segment: the memory map is the encoding of the records, possibly with a
  torn tail, and the index entry below any of their offsets points at a record not after it.
  Segments that are being written satisfy it, and so do reopened ones.
\<close>

definition index_leads :: "codecs \<Rightarrow> u64 \<Rightarrow> disk_record list \<Rightarrow> (u64 \<times> u64) list \<Rightarrow> bool" where
  "index_leads C b rs es \<longleftrightarrow>
     sorted (map fst es) \<and>
     (\<forall>e \<in> set es. \<forall>i<length rs. fst e \<le> b + of_nat i \<longrightarrow>
        (\<exists>j\<le>i. snd e = of_nat (rec_pos C rs j)))"

definition seg_readable :: "codecs \<Rightarrow> log_segment \<Rightarrow> disk_record list \<Rightarrow> bool" where
  "seg_readable C s rs \<longleftrightarrow>
     (\<forall>r \<in> set rs. record_fits C r) \<and>
     consecutive (seg_base_offset s) rs \<and>
     length (encode_all C rs) < 2 ^ 64 \<and>
     seg_next_offset s = seg_base_offset s + of_nat (length rs) \<and>
     (rs \<noteq> [] \<longrightarrow> (\<exists>tail. torn C tail \<and> seg_mmap s = Some (encode_all C rs @ tail))) \<and>
     (\<exists>es. index_view (seg_index s) es \<and> index_leads C (seg_base_offset s) rs es)"

lemma entries_ok_leads:
  assumes "entries_ok C b rs es" and "consecutive b rs" and "k \<le> length rs"
  shows "index_leads C b (take k rs) es"
proof -
  have "\<exists>j\<le>i. snd e = of_nat (rec_pos C (take k rs) j)"
    if e: "e \<in> set es" and i: "i < length (take k rs)" and le: "fst e \<le> b + of_nat i" for e i
  proof -
    obtain j where j: "j < length rs" "fst e = b + of_nat j" "snd e = of_nat (rec_pos C rs j)"
      by (rule entries_okE [OF assms(1) e])
    have "j \<le> i" using le j consecutive_le_iff [OF assms(2), of j i] i by simp
    then show ?thesis using j(3) i by (auto simp: rec_pos_def intro!: exI [of _ j])
  qed
  then show ?thesis using assms(1) by (auto simp: index_leads_def entries_ok_def)
qed

lemma seg_rep_readable: "seg_rep C s rs \<Longrightarrow> seg_readable C s rs"
  using entries_ok_leads [of C "seg_base_offset s" rs _ "length rs"]
  by (auto simp: seg_rep_def seg_core_def seg_readable_def intro: exI [of _ "[]"])

lemma floor_entry_SomeD: "floor_entry es t = Some e \<Longrightarrow> e \<in> set es \<and> fst e \<le> t"
  by (auto simp: floor_entry_last Let_def split: if_splits
      dest!: last_in_set set_takeWhileD)

lemma start_position_records:
  assumes "index_view (seg_index s) es" and "index_leads C b rs es" and "i < length rs"
    and "length (encode_all C rs) < 2 ^ 64"
  obtains j where "j \<le> i"
    and "start_position s (encode_all C rs @ tail) (b + of_nat i) = Ok (encode_all C (drop j rs) @ tail)"
proof -
  have look: "lookup (seg_index s) (b + of_nat i) = Ok (map_option snd (floor_entry es (b + of_nat i)))"
    using assms(1,2) by (intro lookup_floor) (simp_all add: index_leads_def)
  show thesis
  proof (cases "floor_entry es (b + of_nat i)")
    case None
    then show ?thesis using look by (intro that [of 0]) (simp_all add: start_position_def)
  next
    case (Some e)
    then obtain j where j: "j \<le> i" "snd e = of_nat (rec_pos C rs j)"
      using assms(2,3) floor_entry_SomeD [OF Some] unfolding index_leads_def by meson
    have "unat (snd e) = rec_pos C rs j"
      using j(2) rec_pos_le [of C rs j] assms(4) by (simp add: unat_of_nat_u64)
    then have "start_position s (encode_all C rs @ tail) (b + of_nat i) =
        Ok (encode_all C (drop j rs) @ tail)"
      using look Some rec_pos_le [of C rs j]
      by (simp add: start_position_def drop_rec_pos trans_le_add1)
    then show ?thesis using j(1) that by blast
  qed
qed

lemma readable_range:
  assumes "seg_readable C s rs" and "i < length rs"
  shows "\<not> seg_base_offset s + of_nat i < seg_base_offset s"
    and "\<not> seg_next_offset s \<le> seg_base_offset s + of_nat i"
proof -
  have c: "consecutive (seg_base_offset s) rs"
    and n: "seg_next_offset s = seg_base_offset s + of_nat (length rs)"
    using assms(1) by (simp_all add: seg_readable_def)
  show "\<not> seg_base_offset s + of_nat i < seg_base_offset s"
    using consecutive_less_iff [OF c, of i 0] assms(2) by simp
  show "\<not> seg_next_offset s \<le> seg_base_offset s + of_nat i"
    using consecutive_le_iff [OF c, of "length rs" i] assms(2) n by simp
qed

lemma readableE:
  assumes "seg_readable C s rs" and "i < length rs"
  obtains j tail where "j \<le> i" and "torn C tail" and "\<forall>r \<in> set (drop j rs). record_fits C r"
    and "seg_mmap s = Some (encode_all C rs @ tail)"
    and "start_position s (encode_all C rs @ tail) (seg_base_offset s + of_nat i) =
           Ok (encode_all C (drop j rs) @ tail)"
proof -
  obtain tail where tail: "torn C tail" "seg_mmap s = Some (encode_all C rs @ tail)"
    using assms unfolding seg_readable_def by (metis length_0_conv less_nat_zero_code)
  obtain es where "index_view (seg_index s) es" "index_leads C (seg_base_offset s) rs es"
    using assms(1) by (auto simp: seg_readable_def)
  moreover have "length (encode_all C rs) < 2 ^ 64" "\<forall>r \<in> set rs. record_fits C r"
    using assms(1) by (auto simp: seg_readable_def)
  ultimately show thesis
    using start_position_records [OF _ _ assms(2)] tail that by (metis in_set_dropD)
qed

lemma segment_read_correct:
  assumes "codecs_ok C" and "seg_readable C s rs" and "i < length rs"
  shows "segment_read C s (seg_base_offset s + of_nat i) = Ok (rs ! i)"
proof -
  let ?b = "seg_base_offset s"
  obtain j tail where j: "j \<le> i" and fits: "\<forall>r \<in> set (drop j rs). record_fits C r"
    and m: "seg_mmap s = Some (encode_all C rs @ tail)"
    and st: "start_position s (encode_all C rs @ tail) (?b + of_nat i) =
      Ok (encode_all C (drop j rs) @ tail)"
    by (rule readableE [OF assms(2,3)])
  have c: "consecutive ?b rs" using assms(2) by (simp add: seg_readable_def)
  have "dr_offset (drop j rs ! l) < ?b + of_nat i" if "l < i - j" for l
    using that assms(3) consecutive_dr_offset [OF c, of "j + l"]
      consecutive_less_iff [OF c, of "j + l" i] by simp
  then have "read_loop C (?b + of_nat i) (encode_all C (drop j rs) @ tail) = Ok (drop j rs ! (i - j))"
    using assms(3) j consecutive_dr_offset [OF c assms(3)]
    by (intro read_loop_records [OF assms(1) fits]) auto
  then show ?thesis
    using readable_range [OF assms(2,3)] m st j assms(3) by (simp add: segment_read_def)
qed

lemma filter_from_offset:
  assumes "consecutive b rs" and "j \<le> i" and "i \<le> length rs"
  shows "filter (\<lambda>r. b + of_nat i \<le> dr_offset r) (drop j rs) = drop i rs"
proof -
  have "filter (\<lambda>r. b + of_nat i \<le> dr_offset r) (take (i - j) (drop j rs)) = []"
    using assms consecutive_dr_offset [OF assms(1)] consecutive_le_iff [OF assms(1), of i]
    by (auto simp: filter_empty_conv in_set_conv_nth simp del: of_nat_add)
  moreover have "filter (\<lambda>r. b + of_nat i \<le> dr_offset r) (drop i rs) = drop i rs"
    using assms consecutive_dr_offset [OF assms(1)] consecutive_le_iff [OF assms(1), of i]
    by (auto simp: filter_id_conv in_set_conv_nth simp del: of_nat_add)
  moreover have "drop j rs = take (i - j) (drop j rs) @ drop i rs"
    using assms by (metis append_take_drop_id drop_drop le_add_diff_inverse2)
  ultimately show ?thesis by (metis append_Nil filter_append)
qed

lemma read_batch_correct:
  assumes "codecs_ok C" and "seg_readable C s rs" and "i \<le> length rs"
  shows "read_batch C s (seg_base_offset s + of_nat i) n = Ok (take (unat n) (drop i rs))"
proof (cases "i < length rs")
  case True
  let ?b = "seg_base_offset s"
  obtain j tail where j: "j \<le> i" "torn C tail" and fits: "\<forall>r \<in> set (drop j rs). record_fits C r"
    and m: "seg_mmap s = Some (encode_all C rs @ tail)"
    and st: "start_position s (encode_all C rs @ tail) (?b + of_nat i) =
      Ok (encode_all C (drop j rs) @ tail)"
    by (rule readableE [OF assms(2) True])
  have c: "consecutive ?b rs" using assms(2) by (simp add: seg_readable_def)
  have "batch_loop C (?b + of_nat i) (unat n) False [] (encode_all C (drop j rs) @ tail) =
      Ok (take (unat n) (drop i rs))"
    using batch_loop_records [OF assms(1) fits j(2), of "[]"] filter_from_offset [OF c j(1) assms(3)]
    by simp
  then show ?thesis
    using readable_range [OF assms(2) True] m st by (simp add: read_batch_def)
next
  case False
  then have i: "i = length rs" using assms(3) by simp
  have "consecutive (seg_base_offset s) rs" using assms(2) by (simp add: seg_readable_def)
  from consecutive_less_iff [OF this, of "length rs" 0]
  show ?thesis using assms(2) i by (simp add: read_batch_def seg_readable_def)
qed

section \<open>Opening\<close>

text \<open>A prefix of an encoded log is some whole records and a torn tail.\<close>

lemma take_encode_all:
  assumes "\<forall>r \<in> set rs. record_fits C r" and "n \<le> length (encode_all C rs)"
  obtains k tail where "k \<le> length rs" and "take n (encode_all C rs) = encode_all C (take k rs) @ tail"
    and "torn C tail" and "rec_pos C rs k \<le> n"
    and "k < length rs \<longrightarrow> n < rec_pos C rs (Suc k)"
  using assms
proof (induction rs arbitrary: n thesis)
  case Nil
  then show ?case by (intro Nil.prems(1) [of 0 "[]"]) (simp_all add: rec_pos_def)
next
  case (Cons r rs)
  let ?l = "length (enc_bytes C r)"
  show ?case
  proof (cases "n < ?l")
    case True
    then show ?thesis
      using Cons.prems(2) torn_prefix [of C r n]
      by (intro Cons.prems(1) [of 0 "take n (enc_bytes C r)"]) (simp_all add: rec_pos_def)
  next
    case False
    have p: "\<forall>r \<in> set rs. record_fits C r" "n - ?l \<le> length (encode_all C rs)"
      using Cons.prems(2,3) by auto
    obtain k tail where k: "k \<le> length rs" "take (n - ?l) (encode_all C rs) = encode_all C (take k rs) @ tail"
      "torn C tail" "rec_pos C rs k \<le> n - ?l" "k < length rs \<longrightarrow> n - ?l < rec_pos C rs (Suc k)"
      by (rule Cons.IH [OF _ p])
    then show ?thesis
      using False by (intro Cons.prems(1) [of "Suc k" tail]) (auto simp: rec_pos_def)
  qed
qed

lemma scan_for_next_offset_records:
  assumes "codecs_ok C" and "\<forall>r \<in> set rs. record_fits C r" and "torn C tail"
    and "consecutive b rs" and "rs \<noteq> []"
  shows "scan_for_next_offset C (encode_all C rs @ tail) b = Ok (b + of_nat (length rs))"
proof -
  have "encode_all C rs @ tail \<noteq> []"
    using assms(2,5) by (cases rs) (auto simp: enc_bytes_not_Nil)
  then have "scan_for_next_offset C (encode_all C rs @ tail) b =
      and_then (scan_loop C b (encode_all C rs @ tail)) (\<lambda>l. Ok (l + 1))"
    unfolding scan_for_next_offset_def by (rule if_not_P)
  moreover have "last (b # map dr_offset rs) = b + of_nat (length rs - 1)"
    using assms(5) consecutive_dr_offset [OF assms(4), of "length rs - 1"]
    by (simp add: last_conv_nth)
  moreover have "of_nat (length rs) = (of_nat (length rs - 1) + 1 :: u64)"
    using assms(5) by (cases rs) simp_all
  ultimately show ?thesis
    using scan_loop_records [OF assms(1,2,3), of b] by (simp add: add.assoc)
qed

text \<open>
  Opening a log of which some suffix was lost, with its index file intact: the whole records that
  are left can be read, if there is at least one.
\<close>

lemma segment_open_truncated:
  assumes "codecs_ok C" and "seg_core C s rs" and "n \<le> length (encode_all C rs)"
  obtains k s' where "k \<le> length rs" and "rec_pos C rs k \<le> n"
    and "k < length rs \<longrightarrow> n < rec_pos C rs (Suc k)"
    and "segment_open C (Some (take n (contents (seg_log_file s))))
           (Some (contents (idx_file (seg_index s)))) (seg_base_offset s) cfg = Ok s'"
    and "0 < k \<or> n = 0 \<longrightarrow> seg_readable C s' (take k rs)"
    and "k = 0 \<longrightarrow> 0 < n \<longrightarrow> seg_next_offset s' = seg_base_offset s + 1"
    and "seg_base_offset s' = seg_base_offset s"
    and "seg_size s' = of_nat n"
proof -
  let ?b = "seg_base_offset s"
  obtain es where c: "\<forall>r \<in> set rs. record_fits C r" "consecutive ?b rs"
    "contents (seg_log_file s) = encode_all C rs" "length (encode_all C rs) < 2 ^ 64"
    and ix: "index_view (seg_index s) es" "entries_ok C ?b rs es"
    using assms(2) by (rule seg_coreE)
  obtain k tail where k: "k \<le> length rs" "take n (encode_all C rs) = encode_all C (take k rs) @ tail"
    "torn C tail" "rec_pos C rs k \<le> n" "k < length rs \<longrightarrow> n < rec_pos C rs (Suc k)"
    by (rule take_encode_all [OF c(1) assms(3)])
  obtain ix' where ix': "index_open (Some (contents (idx_file (seg_index s)))) = Ok ix'" "index_view ix' es"
    using index_open_view [of _ es] ix(1) by (auto simp: index_view_def)
  have ck: "\<forall>r \<in> set (take k rs). record_fits C r" "consecutive ?b (take k rs)"
    using c(1,2) by (auto simp: consecutive_def dest: in_set_takeD)
  have lead: "index_leads C ?b (take k rs) es" by (rule entries_ok_leads [OF ix(2) c(2) k(1)])
  have len: "length (encode_all C (take k rs)) < 2 ^ 64"
    using rec_pos_le [of C rs k] c(4) by (simp add: rec_pos_def)
  let ?log = "take n (encode_all C rs)"
  let ?seg = "\<lambda>nx. \<lparr>seg_base_offset = ?b, seg_log_file = file_open ?log,
      seg_mmap = (if length ?log > 0 then Some ?log else None), seg_index = ix',
      seg_size = of_nat (length ?log), seg_next_offset = nx, seg_config = cfg,
      seg_records_since_index = 0\<rparr>"
  have opened: "segment_open C (Some (take n (contents (seg_log_file s))))
      (Some (contents (idx_file (seg_index s)))) ?b cfg =
      and_then (scan_for_next_offset C ?log ?b) (\<lambda>nx. Ok (?seg nx))"
    using ix'(1) c(3) by (simp add: segment_open_def)
  have size: "length ?log = n" using assms(3) by simp
  show thesis
  proof (cases "k = 0")
    case False
    then have ne: "take k rs \<noteq> []" using k(1) by auto
    have "encode_all C (take k rs) \<noteq> []"
      using ck(1) ne by (cases "take k rs") (auto simp: enc_bytes_not_Nil)
    then have "seg_readable C (?seg (?b + of_nat k)) (take k rs)"
      using ck lead len ix'(2) k(1,2,3) by (auto simp: seg_readable_def)
    moreover have "scan_for_next_offset C ?log ?b = Ok (?b + of_nat k)"
      using scan_for_next_offset_records [OF assms(1) ck(1) k(3) ck(2) ne] k(1,2) by simp
    ultimately show ?thesis
      using opened k(1,4,5) False size
      by (intro that [of k "?seg (?b + of_nat k)"]) (simp_all del: length_take)
  next
    case True
    then have tail: "?log = tail" using k(2) by simp
    have "scan_loop C ?b tail = Ok ?b"
      using scan_loop_records [OF assms(1) _ k(3), of "[]"] by simp
    then have "scan_for_next_offset C ?log ?b = Ok (if n = 0 then ?b else ?b + 1)"
      using tail size unfolding scan_for_next_offset_def tail by (cases "n = 0") auto
    moreover have "n = 0 \<longrightarrow> seg_readable C (?seg ?b) (take 0 rs)"
      using ck lead len ix'(2) True by (auto simp: seg_readable_def)
    ultimately show ?thesis
      using opened k(1,4,5) True size
      by (intro that [of 0 "?seg (if n = 0 then ?b else ?b + 1)"]) (simp_all del: length_take)
  qed
qed

text \<open>
  Opening the files of a segment that was closed recovers all of its records. Its index takes
  further entries at the end of the file only if it had none.
\<close>

lemma segment_reopen:
  assumes "codecs_ok C" and "seg_rep C s rs"
  obtains s' where "segment_open C (Some (contents (seg_log_file s)))
           (Some (contents (idx_file (seg_index s)))) (seg_base_offset s) cfg = Ok s'"
    and "seg_rep C s' rs" and "seg_base_offset s' = seg_base_offset s" and "seg_config s' = cfg"
    and "contents (idx_file (seg_index s)) = [] \<longrightarrow> seg_writable s'"
proof -
  let ?b = "seg_base_offset s" and ?log = "encode_all C rs"
  have "seg_core C s rs" using assms(2) by (simp add: seg_rep_def)
  then obtain es where c: "\<forall>r \<in> set rs. record_fits C r" "consecutive ?b rs"
    "contents (seg_log_file s) = ?log" "length ?log < 2 ^ 64"
    and ix: "index_view (seg_index s) es" "entries_ok C ?b rs es"
    by (rule seg_coreE)
  obtain ix' where ix': "index_open (Some (contents (idx_file (seg_index s)))) = Ok ix'"
      "index_view ix' es" "cursor (idx_file ix') = 0"
    using index_open_view [of _ es] ix(1) by (auto simp: index_view_def)
  have same: "contents (idx_file ix') = contents (idx_file (seg_index s))"
    using ix'(2) ix(1) by (simp add: index_view_def)
  have nil: "?log = [] \<longleftrightarrow> rs = []" using c(1) by (cases rs) (auto simp: enc_bytes_not_Nil)
  have scan: "scan_for_next_offset C ?log ?b = Ok (?b + of_nat (length rs))"
  proof (cases "rs = []")
    case False
    then show ?thesis using scan_for_next_offset_records [OF assms(1) c(1) torn_Nil c(2)] by simp
  qed (simp add: scan_for_next_offset_def)
  let ?s = "\<lparr>seg_base_offset = ?b, seg_log_file = file_open ?log,
      seg_mmap = (if length ?log > 0 then Some ?log else None), seg_index = ix',
      seg_size = of_nat (length ?log), seg_next_offset = ?b + of_nat (length rs), seg_config = cfg,
      seg_records_since_index = 0\<rparr>"
  have "segment_open C (Some (contents (seg_log_file s)))
      (Some (contents (idx_file (seg_index s)))) ?b cfg = Ok ?s"
    using ix'(1) scan c(3) by (simp add: segment_open_def)
  moreover have "seg_rep C ?s rs"
    unfolding seg_rep_def seg_core_def using c ix'(2) ix(2) nil
    by (auto simp: file_open_def simp del: concat_eq_Nil_conv)
  moreover have "contents (idx_file (seg_index s)) = [] \<longrightarrow> seg_writable ?s"
    using same ix'(3) by (simp add: seg_writable_def index_writable_def)
  ultimately show thesis using that [of ?s] by simp
qed

section \<open>A segment is an append-only log\<close>

definition seg_log :: "codecs \<Rightarrow> log_segment \<Rightarrow> disk_record list \<Rightarrow> bool" where
  "seg_log C s rs \<longleftrightarrow> codecs_ok C \<and> seg_rep C s rs \<and> seg_writable s"

definition seg_accepts :: "codecs \<Rightarrow> log_segment \<Rightarrow> message list \<Rightarrow> bool" where
  "seg_accepts C s ms \<longleftrightarrow> ms \<noteq> [] \<and> batch_fits C s ms"

lemma seg_rep_next:
  "seg_rep C s rs \<Longrightarrow> seg_next_offset s = seg_base_offset s + of_nat (length rs)"
  by (simp add: seg_rep_def seg_core_def)

lemma seg_log_append:
  assumes "seg_log C s rs" and "seg_accepts C s ms"
  shows "\<exists>s' new. segment_append C ms s = (s', Ok (seg_base_offset s + of_nat (length rs))) \<and>
           seg_log C s' (rs @ new) \<and> map to_message new = ms \<and> seg_base_offset s' = seg_base_offset s"
proof -
  let ?new = "records_for (seg_config s) (seg_next_offset s) ms"
  obtain s' where "segment_append C ms s = (s', Ok (seg_next_offset s))"
    "seg_rep C s' (rs @ ?new)" "seg_writable s'" "seg_base_offset s' = seg_base_offset s"
    using assms by (auto simp: seg_log_def seg_accepts_def elim: segment_append_correct)
  then show ?thesis
    using assms(1) seg_rep_next [of C s rs]
    by (intro exI [of _ s'] exI [of _ ?new]) (simp add: seg_log_def)
qed

interpretation seglog: append_log "segment_append C" "read_batch C" "seg_log C" seg_base_offset
    to_message "seg_accepts C" for C
proof
  show "\<exists>s' new. segment_append C ms s = (s', Ok (seg_base_offset s + of_nat (length rs))) \<and>
      seg_log C s' (rs @ new) \<and> map to_message new = ms \<and> seg_base_offset s' = seg_base_offset s"
    if "seg_log C s rs" and "seg_accepts C s ms" for s rs ms
    using that by (rule seg_log_append)
  show "read_batch C s (seg_base_offset s + of_nat i) n = Ok (take (unat n) (drop i rs))"
    if "seg_log C s rs" and "i \<le> length rs" for s rs i n
    using that by (intro read_batch_correct seg_rep_readable) (simp_all add: seg_log_def)
qed

text \<open>A fresh segment represents no records.\<close>

lemma segment_create_rep:
  shows "seg_rep C (segment_create None None b cfg) []" and "seg_writable (segment_create None None b cfg)"
  using index_view_create unat_u64_less [of b]
  by (auto simp: seg_rep_def seg_core_def segment_create_def file_open_def consecutive_def
      entries_ok_def seg_writable_def)

end
