(* ===== verification/Partition_Log.thy ===== *)
theory Partition_Log
  imports Log_Segment Messages
begin

text \<open>
  \<open>storage/src/partition.rs\<close>: a partition is a row of segments, the last of which is written to
  and replaced when it is full. A partition represents the list of all records of its segments:
  appending extends the list whether or not the active segment is rotated, a fetch returns a
  slice of it however many segments it spans, and opening the directory recovers it.
\<close>

record partition =
  p_partition_id :: u32
  p_topic_name :: string
  p_data_dir :: string
  p_segments :: "log_segment list"
  p_config :: segment_config
  p_other :: "(string, bytes) hashmap"

text \<open>
  \<open>p_other\<close> is not a field of the code: it holds the files of the partition's directory that
  belong to none of its segments, so that the directory is a function of the partition.
\<close>

definition segment_files :: "log_segment \<Rightarrow> (string \<times> bytes) list" where
  "segment_files s =
     [(log_name (seg_base_offset s), contents (seg_log_file s)),
      (index_name (seg_base_offset s), contents (idx_file (seg_index s)))]"

definition partition_files :: "partition \<Rightarrow> (string, bytes) hashmap" where
  "partition_files p = concat (map segment_files (p_segments p)) @ p_other p"

section \<open>Operations\<close>

definition path_join :: "string \<Rightarrow> string \<Rightarrow> string" where
  "path_join a b =
     (if b \<noteq> [] \<and> hd b = CHR ''/'' then b
      else if a = [] \<or> last a = CHR ''/'' then a @ b
      else a @ ''/'' @ b)"

definition partition_dir_name :: "u32 \<Rightarrow> string" where
  "partition_dir_name partition_id = ''partition-'' @ show_word partition_id"

definition partition_dir :: "string \<Rightarrow> string \<Rightarrow> u32 \<Rightarrow> string" where
  "partition_dir data_dir topic partition_id =
     path_join (path_join data_dir topic) (partition_dir_name partition_id)"

text \<open>Creating a segment takes over the files that have its names.\<close>

definition create_in :: "(string, bytes) hashmap \<Rightarrow> u64 \<Rightarrow> segment_config \<Rightarrow> log_segment" where
  "create_in files base_offset config =
     segment_create (hm_get files (log_name base_offset)) (hm_get files (index_name base_offset))
       base_offset config"

definition without_segment :: "u64 \<Rightarrow> (string, bytes) hashmap \<Rightarrow> (string, bytes) hashmap" where
  "without_segment base_offset files =
     hm_remove (log_name base_offset) (hm_remove (index_name base_offset) files)"

text \<open>\<open>files\<close> are the files that are in the partition's directory before.\<close>

definition partition_with_config ::
    "string \<Rightarrow> u32 \<Rightarrow> string \<Rightarrow> segment_config \<Rightarrow> (string, bytes) hashmap \<Rightarrow> partition" where
  "partition_with_config topic_name partition_id data_dir config files =
     \<lparr>p_partition_id = partition_id,
      p_topic_name = topic_name,
      p_data_dir = partition_dir data_dir topic_name partition_id,
      p_segments = [create_in files 0 config],
      p_config = config,
      p_other = without_segment 0 files\<rparr>"

definition partition_new :: "string \<Rightarrow> u32 \<Rightarrow> string \<Rightarrow> (string, bytes) hashmap \<Rightarrow> partition" where
  "partition_new topic_name partition_id data_dir files =
     partition_with_config topic_name partition_id data_dir segment_config_default files"

text \<open>
  \<open>Path::extension\<close> and \<open>Path::file_stem\<close>: the last dot separates them, unless it is the first
  character of the name.
\<close>

definition split_extension :: "string \<Rightarrow> string \<times> string option" where
  "split_extension name =
     (let ext = rev (takeWhile (\<lambda>c. c \<noteq> CHR ''.'') (rev name));
          before = rev (dropWhile (\<lambda>c. c \<noteq> CHR ''.'') (rev name)) in
      if length before \<le> 1 then (name, None) else (butlast before, Some ext))"

fun segment_base_offsets :: "string list \<Rightarrow> u64 list" where
  "segment_base_offsets [] = []"
| "segment_base_offsets (name # names) =
     (case split_extension name of
        (filename, Some ext) \<Rightarrow>
          (if ext = ''log'' then
             case parse_uint 64 filename of
               Some off \<Rightarrow> of_nat off # segment_base_offsets names
             | None \<Rightarrow> segment_base_offsets names
           else segment_base_offsets names)
      | (_, None) \<Rightarrow> segment_base_offsets names)"

fun open_segments ::
    "codecs \<Rightarrow> (string, bytes) hashmap \<Rightarrow> segment_config \<Rightarrow> u64 list \<Rightarrow> log_segment list outcome" where
  "open_segments C files config [] = Ok []"
| "open_segments C files config (b # bs) =
     and_then (segment_open C (hm_get files (log_name b)) (hm_get files (index_name b)) b config) (\<lambda>s.
     and_then (open_segments C files config bs) (\<lambda>ss. Ok (s # ss)))"

text \<open>
  \<open>listing\<close> is the directory, in the order in which \<open>read_dir\<close> returns its entries, or \<open>None\<close>
  when there is no such directory.
\<close>

definition open_with_config ::
    "codecs \<Rightarrow> string \<Rightarrow> u32 \<Rightarrow> string \<Rightarrow> segment_config \<Rightarrow> (string, bytes) hashmap option \<Rightarrow> partition outcome" where
  "open_with_config C topic_name partition_id data_dir config listing =
     (let dir = partition_dir data_dir topic_name partition_id in
      case listing of
        None \<Rightarrow> Err (Io not_found_text)
      | Some files \<Rightarrow>
          let bases = segment_base_offsets (hm_keys files) in
          if bases = [] then
            Err (Storage (''No segments found in partition directory: '' @ dir))
          else
            and_then (open_segments C files config (sort bases)) (\<lambda>segments.
              Ok \<lparr>p_partition_id = partition_id,
                  p_topic_name = topic_name,
                  p_data_dir = dir,
                  p_segments = segments,
                  p_config = config,
                  p_other = fold without_segment bases files\<rparr>))"

definition partition_open ::
    "codecs \<Rightarrow> string \<Rightarrow> u32 \<Rightarrow> string \<Rightarrow> (string, bytes) hashmap option \<Rightarrow> partition outcome" where
  "partition_open C topic_name partition_id data_dir listing =
     open_with_config C topic_name partition_id data_dir segment_config_default listing"

text \<open>The rotation of \<open>append\<close>, on the active segment.\<close>

definition rotate :: "partition \<Rightarrow> partition" where
  "rotate p =
     (if p_segments p \<noteq> [] \<and> should_rotate (last (p_segments p)) then
        let next_offset = seg_next_offset (last (p_segments p)) in
        p\<lparr>p_segments := p_segments p @ [create_in (partition_files p) next_offset (p_config p)],
          p_other := without_segment next_offset (p_other p)\<rparr>
      else p)"

definition partition_append :: "codecs \<Rightarrow> message list \<Rightarrow> partition \<Rightarrow> partition \<times> u64 outcome" where
  "partition_append C messages p =
     (if messages = [] then (p, Err (InvalidMessage ''No messages to append''))
      else if p_segments p = [] then (p, Err (Storage ''No active segment''))
      else
        let p1 = rotate p;
            (active, r) = segment_append C messages (last (p_segments p1)) in
        (p1\<lparr>p_segments := butlast (p_segments p1) @ [active]\<rparr>, r))"

definition find_segment_index :: "log_segment list \<Rightarrow> u64 \<Rightarrow> nat outcome" where
  "find_segment_index segments off =
     (let left = bisect (\<lambda>mid. seg_base_offset (segments ! mid) \<le> off) 0 (length segments) in
      if left > 0 then Ok (left - 1) else Err (InvalidOffset off))"

definition to_record :: "string \<Rightarrow> u32 \<Rightarrow> disk_record \<Rightarrow> stored_record" where
  "to_record topic_name partition_id r =
     \<lparr>rec_topic = topic_name, rec_partition = partition_id, rec_offset = dr_offset r,
      rec_message = to_message r\<rparr>"

fun fetch_loop ::
    "codecs \<Rightarrow> string \<Rightarrow> u32 \<Rightarrow> log_segment list \<Rightarrow> u64 \<Rightarrow> u32 \<Rightarrow> stored_record list \<Rightarrow>
     stored_record list outcome" where
  "fetch_loop C t pid [] current_offset remaining all_records = Ok all_records"
| "fetch_loop C t pid (s # ss) current_offset remaining all_records =
     (if remaining = 0 then Ok all_records
      else
        and_then (read_batch C s current_offset remaining) (\<lambda>disk_records.
          if disk_records = [] then Ok all_records
          else
            fetch_loop C t pid ss (dr_offset (last disk_records) + 1)
              (remaining - of_nat (length disk_records))
              (all_records @ map (to_record t pid) disk_records)))"

definition partition_fetch :: "codecs \<Rightarrow> partition \<Rightarrow> u64 \<Rightarrow> u32 \<Rightarrow> stored_record list outcome" where
  "partition_fetch C p off max_messages =
     and_then (find_segment_index (p_segments p) off) (\<lambda>start_segment_idx.
       fetch_loop C (p_topic_name p) (p_partition_id p) (drop start_segment_idx (p_segments p))
         off max_messages [])"

definition partition_next_offset :: "partition \<Rightarrow> u64" where
  "partition_next_offset p =
     (if p_segments p \<noteq> [] then seg_next_offset (last (p_segments p)) else 0)"

definition partition_flush :: "partition \<Rightarrow> partition" where
  "partition_flush p = p\<lparr>p_segments := map segment_flush (p_segments p)\<rparr>"

section \<open>Names of segment files\<close>

lemma parse_digits_zeros: "parse_digits 0 (replicate n (CHR ''0'') @ s) = parse_digits 0 s"
  by (induction n) (simp_all add: digit_val_def)

lemma pad_show_not_plus: "\<exists>c cs. pad_zeros w (show_nat n) = c # cs \<and> c \<noteq> CHR ''+''"
proof (cases "w - length (show_nat n)")
  case 0
  obtain c cs where c: "show_nat n = c # cs" by (cases "show_nat n") simp_all
  moreover have "c \<noteq> CHR ''+''" using show_nat_digits [of c n] c by auto
  ultimately show ?thesis using 0 by (simp add: pad_zeros_def)
next
  case (Suc k)
  then show ?thesis by (simp add: pad_zeros_def)
qed

lemma parse_uint_pad [simp]: "parse_uint 64 (pad_zeros w (show_word (b :: u64))) = Some (unat b)"
proof -
  obtain c cs where "pad_zeros w (show_nat (unat b)) = c # cs" "c \<noteq> CHR ''+''"
    using pad_show_not_plus by blast
  moreover have "parse_digits 0 (pad_zeros w (show_nat (unat b))) = Some (unat b)"
    by (simp add: pad_zeros_def parse_digits_zeros parse_digits_show)
  ultimately show ?thesis
    using unat_u64_less [of b] by (simp add: parse_uint_def show_word_def)
qed

lemma pad_show_not_Nil [simp]: "pad_zeros w (show_word b) \<noteq> []"
  using pad_show_not_plus [of w "unat b"] by (auto simp: show_word_def)

lemma split_extension_append:
  assumes "stem \<noteq> []" and "CHR ''.'' \<notin> set ext"
  shows "split_extension (stem @ CHR ''.'' # ext) = (stem, Some ext)"
proof -
  have "takeWhile (\<lambda>c. c \<noteq> CHR ''.'') (rev ext @ CHR ''.'' # rev stem) = rev ext"
    using assms(2) by (subst takeWhile_append2) auto
  moreover have "dropWhile (\<lambda>c. c \<noteq> CHR ''.'') (rev ext @ CHR ''.'' # rev stem) = CHR ''.'' # rev stem"
    using assms(2) by (subst dropWhile_append2) auto
  ultimately show ?thesis using assms(1) by (simp add: split_extension_def Let_def)
qed

lemma split_log_name [simp]:
  "split_extension (log_name b) = (pad_zeros 20 (show_word b), Some ''log'')"
  by (simp add: log_name_def split_extension_append)

lemma split_index_name [simp]:
  "split_extension (index_name b) = (pad_zeros 20 (show_word b), Some ''index'')"
  by (simp add: index_name_def split_extension_append)

lemma pad_show_inject:
  assumes "pad_zeros 20 (show_word (a :: u64)) = pad_zeros 20 (show_word b)"
  shows "a = b"
  using parse_uint_pad [of 20 a] parse_uint_pad [of 20 b] assms by (simp add: word_unat_eq_iff)

lemma log_name_inject [simp]: "log_name a = log_name b \<longleftrightarrow> a = b"
  by (auto simp: log_name_def dest: pad_show_inject)

lemma index_name_inject [simp]: "index_name a = index_name b \<longleftrightarrow> a = b"
  by (auto simp: index_name_def dest: pad_show_inject)

lemma log_name_not_index [simp]: "log_name a \<noteq> index_name b" "index_name b \<noteq> log_name a"
  using split_log_name [of a] split_index_name [of b] by fastforce+

lemma segment_base_offsets_append [simp]:
  "segment_base_offsets (xs @ ys) = segment_base_offsets xs @ segment_base_offsets ys"
  by (induction xs) (auto split: prod.splits option.splits)

lemma segment_base_offsets_log [simp]: "segment_base_offsets [log_name b] = [b]"
  by simp

lemma segment_base_offsets_index [simp]: "segment_base_offsets [index_name b] = []"
  by simp

lemma segment_base_offsets_files:
  "segment_base_offsets (map fst (concat (map segment_files ss))) = map seg_base_offset ss"
  by (induction ss) (simp_all add: segment_files_def)

lemma segment_base_offsets_msum:
  "mset (segment_base_offsets xs) = (\<Sum>x \<in># mset xs. mset (segment_base_offsets [x]))"
proof (induction xs)
  case (Cons x xs)
  have "segment_base_offsets (x # xs) = segment_base_offsets [x] @ segment_base_offsets xs"
    by (metis append_Cons append_Nil segment_base_offsets_append)
  then show ?case using Cons by (simp del: segment_base_offsets.simps)
qed simp

lemma mset_segment_base_offsets:
  "mset xs = mset ys \<Longrightarrow> mset (segment_base_offsets xs) = mset (segment_base_offsets ys)"
  using segment_base_offsets_msum [of xs] segment_base_offsets_msum [of ys]
  by (simp del: segment_base_offsets.simps)

section \<open>What a partition represents\<close>

text \<open>
  Segments that follow each other without a gap, starting at offset \<open>n\<close>; all but the last hold
  at least one record. \<open>R\<close> relates one segment to its records.
\<close>

fun chain ::
    "(log_segment \<Rightarrow> disk_record list \<Rightarrow> bool) \<Rightarrow> nat \<Rightarrow> log_segment list \<Rightarrow> disk_record list list \<Rightarrow> bool" where
  "chain R n [] rss = (rss = [])"
| "chain R n (s # ss) rss =
     (case rss of
        [] \<Rightarrow> False
      | rs # rss' \<Rightarrow>
          R s rs \<and> seg_base_offset s = of_nat n \<and> (ss \<noteq> [] \<longrightarrow> rs \<noteq> []) \<and> chain R (n + length rs) ss rss')"

lemma chain_length: "chain R n ss rss \<Longrightarrow> length rss = length ss"
  by (induction ss arbitrary: n rss) (auto split: list.splits)

lemma chain_mono: "(\<And>s rs. R s rs \<Longrightarrow> Q s rs) \<Longrightarrow> chain R n ss rss \<Longrightarrow> chain Q n ss rss"
  by (induction ss arbitrary: n rss) (auto split: list.splits)

lemma chain_snoc:
  "chain R n (ss @ [s]) rss \<longleftrightarrow>
     (\<exists>rss' rs. rss = rss' @ [rs] \<and> chain R n ss rss' \<and> [] \<notin> set rss' \<and> R s rs \<and>
        seg_base_offset s = of_nat (n + length (concat rss')))"
proof (induction ss arbitrary: n rss)
  case Nil
  then show ?case by (auto split: list.splits)
next
  case (Cons a ss)
  have "chain R n ((a # ss) @ [s]) rss \<longleftrightarrow>
      (\<exists>rs0 rss0. rss = rs0 # rss0 \<and> R a rs0 \<and> seg_base_offset a = of_nat n \<and> rs0 \<noteq> [] \<and>
         chain R (n + length rs0) (ss @ [s]) rss0)"
    by (auto split: list.splits)
  also have "\<dots> \<longleftrightarrow> (\<exists>rss' rs. rss = rss' @ [rs] \<and> chain R n (a # ss) rss' \<and> [] \<notin> set rss' \<and> R s rs \<and>
        seg_base_offset s = of_nat (n + length (concat rss')))"
    (is "?l \<longleftrightarrow> ?r")
  proof
    assume ?l
    then obtain rs0 rss0 rss' rs where "rss = rs0 # rss' @ [rs]" "R a rs0" "seg_base_offset a = of_nat n"
        "rs0 \<noteq> []" "chain R (n + length rs0) ss rss'" "[] \<notin> set rss'" "R s rs"
        "seg_base_offset s = of_nat (n + length rs0 + length (concat rss'))"
      unfolding Cons.IH by blast
    then show ?r
      by (intro exI [of _ "rs0 # rss'"] exI [of _ rs]) (simp add: add.assoc)
  next
    assume ?r
    then show ?l unfolding Cons.IH by (fastforce split: list.splits simp: add.assoc)
  qed
  finally show ?case .
qed

lemma chain_base:
  "chain R n ss rss \<Longrightarrow> i < length ss \<Longrightarrow> seg_base_offset (ss ! i) = of_nat (n + length (concat (take i rss)))"
proof (induction ss arbitrary: n rss i)
  case (Cons s ss)
  then show ?case by (cases i) (auto simp: add.assoc split: list.splits)
qed simp

lemma chain_sorted:
  assumes "chain R n ss rss" and "n + length (concat rss) < 2 ^ 64"
  shows "sorted (map seg_base_offset ss)"
proof -
  have "seg_base_offset (ss ! i) \<le> seg_base_offset (ss ! j)" if "i \<le> j" "j < length ss" for i j
  proof -
    have "length (concat (take i rss)) \<le> length (concat (take j rss))"
      using that(1) by (metis concat_append length_append le_add1 take_add le_add_diff_inverse)
    moreover have "length (concat (take j rss)) \<le> length (concat rss)"
      by (metis append_take_drop_id concat_append le_add1 length_append)
    ultimately show ?thesis
      using chain_base [OF assms(1), of i] chain_base [OF assms(1), of j] that assms(2)
      by (simp add: word_le_nat_alt unat_of_nat_u64 del: of_nat_add)
  qed
  then show ?thesis by (auto simp: sorted_iff_nth_mono)
qed

section \<open>Fetching\<close>

lemma fetch_loop_done [simp]: "fetch_loop C t pid ss off 0 acc = Ok acc"
  by (cases ss) simp_all

text \<open>A batch read at or past the end of a segment is empty.\<close>

lemma read_batch_any:
  assumes "codecs_ok C" and "seg_readable C s rs" and "seg_base_offset s = of_nat n"
    and "n + i < 2 ^ 64" and "n + length rs < 2 ^ 64"
  shows "read_batch C s (of_nat (n + i)) m = Ok (take (unat m) (drop i rs))"
proof (cases "i \<le> length rs")
  case True
  then show ?thesis using read_batch_correct [OF assms(1,2) True] assms(3) by simp
next
  case False
  have next_off: "seg_next_offset s = of_nat (n + length rs)"
    using assms(2,3) by (simp add: seg_readable_def)
  have "unat (of_nat (n + length rs) :: u64) = n + length rs"
      "unat (of_nat (n + i) :: u64) = n + i" "unat (of_nat n :: u64) = n"
    using assms(4,5) by (simp_all add: unat_of_nat_u64 del: of_nat_add)
  then show ?thesis
    using False assms(3) next_off
    by (simp add: read_batch_def word_le_nat_alt word_less_nat_alt del: of_nat_add)
qed

text \<open>
  From a segment that holds the offset, or from the last one, the loop collects the records of
  all that follow.
\<close>

lemma fetch_loop_chain:
  assumes "codecs_ok C" and "chain (seg_readable C) n ss rss"
    and "n + length (concat rss) < 2 ^ 64" and "n + i < 2 ^ 64"
    and "ss \<noteq> []" and "i < length (hd rss) \<or> length ss = 1"
  shows "fetch_loop C t pid ss (of_nat (n + i)) m acc =
           Ok (acc @ map (to_record t pid) (take (unat m) (drop i (concat rss))))"
  using assms(2-)
proof (induction ss arbitrary: n rss i m acc)
  case (Cons s ss)
  obtain rs rss' where rss: "rss = rs # rss'" and rd: "seg_readable C s rs"
    and b: "seg_base_offset s = of_nat n" and ch: "chain (seg_readable C) (n + length rs) ss rss'"
    using Cons.prems(1) by (auto split: list.splits)
  let ?d = "take (unat m) (drop i rs)"
  have batch: "read_batch C s (of_nat (n + i)) m = Ok ?d"
    using Cons.prems(2,3) rss by (intro read_batch_any [OF assms(1) rd b]) simp_all
  consider "m = 0" | "m \<noteq> 0" "?d = []" | "?d \<noteq> []" by blast
  then show ?case
  proof cases
    case 2
    then have "length rs \<le> i" by (auto simp: unat_eq_0)
    then have "drop i (concat rss) = []"
      using Cons.prems(5) rss ch by (auto dest: chain_length)
    then show ?thesis using 2 batch by simp
  next
    case 3
    then have i: "i < length rs" and m: "m \<noteq> 0" by auto
    have rem: "unat (m - of_nat (length ?d)) = unat m - length ?d"
      using unat_u32_less [of m] by (simp add: unat_sub unat_of_nat_u32 word_le_nat_alt)
    have loop: "fetch_loop C t pid (s # ss) (of_nat (n + i)) m acc =
        fetch_loop C t pid ss (dr_offset (last ?d) + 1) (m - of_nat (length ?d))
          (acc @ map (to_record t pid) ?d)"
      using 3 m batch by (simp del: take_eq_Nil drop_eq_Nil of_nat_add)
    show ?thesis
    proof (cases "unat m \<le> length rs - i \<or> ss = []")
      case True
      have "fetch_loop C t pid ss (dr_offset (last ?d) + 1) (m - of_nat (length ?d)) acc' = Ok acc'" for acc'
      proof (cases "ss = []")
        case False
        then have "m - of_nat (length ?d) = 0"
          using True rem by (simp add: unat_eq_0 [symmetric])
        then show ?thesis by simp
      qed simp
      moreover have "take (unat m) (drop i (concat rss)) = ?d"
        using True i rss ch by (auto dest: chain_length)
      ultimately show ?thesis using loop by simp
    next
      case False
      then have d: "?d = drop i rs" by simp
      have "rs \<noteq> []" using i by auto
      have "dr_offset (last rs) = of_nat (n + (length rs - 1))"
        using rd b consecutive_dr_offset [of "seg_base_offset s" rs "length rs - 1"] \<open>rs \<noteq> []\<close>
        by (simp add: seg_readable_def last_conv_nth add.commute diff_add_eq)
      then have nxt: "dr_offset (last ?d) + 1 = of_nat (n + length rs + 0)"
        using d i by (simp add: last_drop)
      have "fetch_loop C t pid ss (of_nat (n + length rs + 0)) (m - of_nat (length ?d))
          (acc @ map (to_record t pid) ?d) =
        Ok ((acc @ map (to_record t pid) ?d) @
          map (to_record t pid) (take (unat (m - of_nat (length ?d))) (drop 0 (concat rss'))))"
      proof (rule Cons.IH [OF ch])
        show "0 < length (hd rss') \<or> length ss = 1"
          using ch False by (cases ss) (auto split: list.splits)
      qed (use Cons.prems(2) rss False in simp_all)
      then show ?thesis
        using loop nxt rem d rss i False by simp
    qed
  qed simp
qed simp

text \<open>The segment the binary search selects.\<close>

lemma chain_select:
  assumes "chain R n ss rss" and "n + length (concat rss) < 2 ^ 64" and "n \<le> j" and "j < 2 ^ 64"
    and "ss \<noteq> []"
  obtains k where "length (takeWhile (\<lambda>b. b \<le> of_nat j) (map seg_base_offset ss)) = Suc k"
    and "k < length ss" and "chain R (n + length (concat (take k rss))) (drop k ss) (drop k rss)"
    and "n + length (concat (take k rss)) \<le> j"
    and "j < n + length (concat (take (Suc k) rss)) \<or> Suc k = length ss"
  using assms
proof (induction ss arbitrary: n rss thesis)
  case (Cons s ss)
  obtain rs rss' where rss: "rss = rs # rss'" and b: "seg_base_offset s = of_nat n"
    and ch: "chain R (n + length rs) ss rss'"
    using Cons.prems(2) by (auto split: list.splits)
  have le: "seg_base_offset s \<le> of_nat j"
    using b Cons.prems(4,5) by (simp add: word_le_nat_alt unat_of_nat_u64)
  show ?case
  proof (cases "ss = [] \<or> j < n + length rs")
    case True
    have "takeWhile (\<lambda>b. b \<le> of_nat j) (map seg_base_offset ss) = []"
    proof (cases ss)
      case (Cons s' ss')
      then have "seg_base_offset s' = of_nat (n + length rs)"
        using ch by (auto split: list.splits)
      then show ?thesis using True Cons Cons.prems(3,5) rss
        by (simp add: word_le_nat_alt unat_of_nat_u64 del: of_nat_add)
    qed simp
    then show ?thesis
      using Cons.prems(2,4) True rss le by (intro Cons.prems(1) [of 0]) auto
  next
    case False
    then have p: "n + length rs + length (concat rss') < 2 ^ 64" "n + length rs \<le> j" "ss \<noteq> []"
      using Cons.prems(3) rss by auto
    obtain k where "length (takeWhile (\<lambda>b. b \<le> of_nat j) (map seg_base_offset ss)) = Suc k"
      "k < length ss" "chain R (n + length rs + length (concat (take k rss'))) (drop k ss) (drop k rss')"
      "n + length rs + length (concat (take k rss')) \<le> j"
      "j < n + length rs + length (concat (take (Suc k) rss')) \<or> Suc k = length ss"
      by (rule Cons.IH [OF _ ch p(1,2) Cons.prems(5) p(3)])
    then show ?thesis
      using rss le by (intro Cons.prems(1) [of "Suc k"]) (auto simp: add.assoc)
  qed
qed simp

text \<open>The records of a chain carry the offsets of their positions.\<close>

lemma chain_offsets:
  assumes "chain (seg_readable C) n ss rss" and "i < length (concat rss)"
  shows "dr_offset (concat rss ! i) = of_nat (n + i)"
  using assms
proof (induction ss arbitrary: n rss i)
  case (Cons s ss)
  obtain rs rss' where rss: "rss = rs # rss'" and rd: "seg_readable C s rs"
    and b: "seg_base_offset s = of_nat n" and ch: "chain (seg_readable C) (n + length rs) ss rss'"
    using Cons.prems(1) by (auto split: list.splits)
  show ?case
  proof (cases "i < length rs")
    case True
    then show ?thesis
      using rd b rss consecutive_dr_offset [of "seg_base_offset s" rs i]
      by (simp add: seg_readable_def nth_append)
  next
    case False
    then have "dr_offset (concat rss' ! (i - length rs)) = of_nat (n + length rs + (i - length rs))"
      using Cons.prems(2) rss by (intro Cons.IH [OF ch]) simp
    then show ?thesis using False rss by (simp add: nth_append del: of_nat_add)
  qed
qed simp

definition part_view :: "codecs \<Rightarrow> partition \<Rightarrow> disk_record list list \<Rightarrow> bool" where
  "part_view C p rss \<longleftrightarrow>
     chain (seg_readable C) 0 (p_segments p) rss \<and> p_segments p \<noteq> [] \<and> length (concat rss) < 2 ^ 64"

text \<open>
  The contract of \<open>fetch\<close> for every offset: a slice of the records, which is empty from the end
  of the log on. No offset is an error.
\<close>

lemma partition_fetch_correct:
  assumes "codecs_ok C" and "part_view C p rss"
  shows "partition_fetch C p off m =
           Ok (map (to_record (p_topic_name p) (p_partition_id p))
                 (take (unat m) (drop (unat off) (concat rss))))"
proof -
  let ?ss = "p_segments p" and ?j = "unat off"
  have ch: "chain (seg_readable C) 0 ?ss rss" and ne: "?ss \<noteq> []" and bound: "length (concat rss) < 2 ^ 64"
    using assms(2) by (simp_all add: part_view_def)
  have j: "?j < 2 ^ 64" "of_nat ?j = off" using unat_u64_less [of off] by simp_all
  obtain k where k: "length (takeWhile (\<lambda>b. b \<le> of_nat ?j) (map seg_base_offset ?ss)) = Suc k"
    "k < length ?ss" "chain (seg_readable C) (0 + length (concat (take k rss))) (drop k ?ss) (drop k rss)"
    "0 + length (concat (take k rss)) \<le> ?j"
    "?j < 0 + length (concat (take (Suc k) rss)) \<or> Suc k = length ?ss"
    using chain_select [OF ch _ _ j(1) ne] bound by auto
  let ?n = "length (concat (take k rss))" and ?i = "?j - length (concat (take k rss))"
  have len: "length rss = length ?ss" using ch by (rule chain_length)
  have split: "concat rss = concat (take k rss) @ concat (drop k rss)"
    by (metis append_take_drop_id concat_append)
  have "sorted (map seg_base_offset ?ss)" using chain_sorted [OF ch] bound by simp
  then have "prefix_test (\<lambda>mid. seg_base_offset (?ss ! mid) \<le> off) (length ?ss) (Suc k)"
    using sorted_prefix_test [of "map seg_base_offset ?ss" off] k(1) j(2)
    by (simp add: prefix_test_def)
  then have "bisect (\<lambda>mid. seg_base_offset (?ss ! mid) \<le> off) 0 (length ?ss) = Suc k"
    using k(2) by (intro bisect_prefix [where n = "length ?ss"]) simp_all
  then have "find_segment_index ?ss off = Ok k" by (simp add: find_segment_index_def)
  moreover have "?i < length (hd (drop k rss)) \<or> length (drop k ?ss) = 1"
    using k(2,4,5) len by (auto simp: hd_drop_conv_nth take_Suc_conv_app_nth)
  then have "fetch_loop C (p_topic_name p) (p_partition_id p) (drop k ?ss) (of_nat (?n + ?i)) m [] =
      Ok ([] @ map (to_record (p_topic_name p) (p_partition_id p))
        (take (unat m) (drop ?i (concat (drop k rss)))))"
    using k(2,3,4) bound j(1) split
    by (intro fetch_loop_chain [OF assms(1)]) simp_all
  ultimately show ?thesis
    using k(4) j split by (simp add: partition_fetch_def del: of_nat_add of_nat_diff)
qed

section \<open>Appending\<close>

text \<open>A directory has no file of a segment.\<close>

definition no_segment_files :: "(string, bytes) hashmap \<Rightarrow> bool" where
  "no_segment_files files \<longleftrightarrow>
     segment_base_offsets (hm_keys files) = [] \<and>
     list_all (\<lambda>name. snd (split_extension name) \<noteq> Some ''index'') (hm_keys files)"

lemma no_segment_files_get:
  assumes "no_segment_files files"
  shows "hm_get files (log_name b) = None" and "hm_get files (index_name b) = None"
proof -
  have "index_name b \<notin> set (hm_keys files)"
    using assms by (auto simp: no_segment_files_def list_all_iff)
  moreover have "log_name b \<notin> set (hm_keys files)"
  proof
    assume "log_name b \<in> set (hm_keys files)"
    then obtain xs ys where "hm_keys files = xs @ [log_name b] @ ys"
      by (metis append_Cons append_Nil split_list)
    then show False using assms by (auto simp: no_segment_files_def)
  qed
  ultimately show "hm_get files (log_name b) = None" and "hm_get files (index_name b) = None"
    by (simp_all add: hm_keys_def map_of_eq_None_iff)
qed

lemma without_segment_id:
  assumes "no_segment_files files"
  shows "without_segment b files = files"
proof -
  have "hm_remove (log_name b) files = files" "hm_remove (index_name b) files = files"
    using no_segment_files_get [OF assms, of b]
    by (simp_all add: map_of_eq_None_iff)
  then show ?thesis by (simp add: without_segment_def)
qed

text \<open>
  A partition that is being written: every segment represents its records, the active one takes
  appends, and the directory holds no files of segments that are not there.
\<close>

definition part_rep :: "codecs \<Rightarrow> partition \<Rightarrow> disk_record list list \<Rightarrow> bool" where
  "part_rep C p rss \<longleftrightarrow>
     chain (seg_rep C) 0 (p_segments p) rss \<and> p_segments p \<noteq> [] \<and> length (concat rss) < 2 ^ 64 \<and>
     no_segment_files (p_other p)"

definition part_writable :: "partition \<Rightarrow> bool" where
  "part_writable p \<longleftrightarrow>
     seg_writable (last (p_segments p)) \<and> seg_config (last (p_segments p)) = p_config p \<and>
     0 < sc_max_size (p_config p)"

lemma part_rep_view: "part_rep C p rss \<Longrightarrow> part_view C p rss"
  unfolding part_rep_def part_view_def by (blast intro: chain_mono seg_rep_readable)

lemma part_repE:
  assumes "part_rep C p rss"
  obtains ss s rss' rs where "p_segments p = ss @ [s]" and "rss = rss' @ [rs]"
    and "chain (seg_rep C) 0 ss rss'" and "[] \<notin> set rss'" and "seg_rep C s rs"
    and "seg_base_offset s = of_nat (length (concat rss'))"
    and "seg_next_offset s = of_nat (length (concat rss))"
    and "length (concat rss) < 2 ^ 64" and "no_segment_files (p_other p)"
proof -
  obtain ss s where ss: "p_segments p = ss @ [s]"
    using assms by (metis append_butlast_last_id part_rep_def)
  with assms show thesis
    by (auto simp: part_rep_def chain_snoc intro!: that dest: seg_rep_next)
qed

lemma segment_name_free:
  assumes "chain R 0 ss rss" and "length (concat rss) = n" and "n < 2 ^ 64" and "[] \<notin> set rss"
    and "no_segment_files other"
  shows "hm_get (concat (map segment_files ss) @ other) (log_name (of_nat n)) = None"
    and "hm_get (concat (map segment_files ss) @ other) (index_name (of_nat n)) = None"
proof -
  have "seg_base_offset s \<noteq> of_nat n" if s: "s \<in> set ss" for s
  proof -
    obtain i where i: "i < length ss" "s = ss ! i" using s by (metis in_set_conv_nth)
    have "length rss = length ss" using assms(1) by (rule chain_length)
    then have "rss ! i \<noteq> []" "concat rss = concat (take i rss) @ rss ! i @ concat (drop (Suc i) rss)"
      using i(1) assms(4) by (metis nth_mem, metis append.assoc concat_append concat.simps(2)
          id_take_nth_drop)
    then have "length (concat (take i rss)) < n" using assms(2) by auto
    then show ?thesis
      using chain_base [OF assms(1) i(1)] i(2) assms(3) u64_plus_eq_iff [of 0 _ n] by auto
  qed
  then have "\<forall>s \<in> set ss. of_nat n \<noteq> seg_base_offset s" by metis
  then show "hm_get (concat (map segment_files ss) @ other) (log_name (of_nat n)) = None"
    and "hm_get (concat (map segment_files ss) @ other) (index_name (of_nat n)) = None"
    using no_segment_files_get [OF assms(5)]
    by (auto simp: map_of_eq_None_iff segment_files_def)
qed

lemma should_rotate_not_empty:
  assumes "seg_rep C s rs" and "should_rotate s" and "0 < sc_max_size (seg_config s)"
  shows "rs \<noteq> []"
  using assms by (auto simp: should_rotate_def seg_rep_def)

lemma rotate_rep:
  assumes rep: "part_rep C p rss" and wr: "part_writable p"
  obtains rss' where "part_rep C (rotate p) rss'" and "part_writable (rotate p)"
    and "concat rss' = concat rss" and "p_topic_name (rotate p) = p_topic_name p"
    and "p_partition_id (rotate p) = p_partition_id p"
proof (cases "should_rotate (last (p_segments p))")
  case False
  then show thesis using that [of rss] rep wr by (simp add: rotate_def)
next
  case True
  obtain ss s rss0 rs where p: "p_segments p = ss @ [s]" "rss = rss0 @ [rs]"
    "chain (seg_rep C) 0 ss rss0" "[] \<notin> set rss0" "seg_rep C s rs"
    "seg_base_offset s = of_nat (length (concat rss0))"
    "seg_next_offset s = of_nat (length (concat rss))"
    "length (concat rss) < 2 ^ 64" "no_segment_files (p_other p)"
    using rep by (rule part_repE)
  have "rs \<noteq> []" using should_rotate_not_empty [OF p(5)] True wr p(1) by (simp add: part_writable_def)
  then have ne: "[] \<notin> set rss" using p(2,4) by simp
  have ch: "chain (seg_rep C) 0 (p_segments p) rss" using rep by (simp add: part_rep_def)
  let ?new = "segment_create None None (of_nat (length (concat rss))) (p_config p)"
  have "create_in (partition_files p) (seg_next_offset s) (p_config p) = ?new"
    using segment_name_free [OF ch refl p(8) ne p(9)] p(7)
    by (simp add: create_in_def partition_files_def del: map_of_append)
  then have rot: "rotate p = p\<lparr>p_segments := p_segments p @ [?new]\<rparr>"
    using True p(1,9) by (simp add: rotate_def Let_def without_segment_id)
  have "part_rep C (rotate p) (rss @ [[]])"
    using ch ne p(8,9) segment_create_rep(1) unfolding rot part_rep_def
    by (auto simp: chain_snoc segment_create_def)
  moreover have "part_writable (rotate p)"
    using wr segment_create_rep(2) unfolding rot part_writable_def by (simp add: segment_create_def)
  ultimately show thesis using that by (simp add: rot)
qed

definition part_accepts :: "codecs \<Rightarrow> partition \<Rightarrow> message list \<Rightarrow> bool" where
  "part_accepts C p ms \<longleftrightarrow> seg_accepts C (last (p_segments (rotate p))) ms"

lemma partition_append_correct:
  assumes rep: "part_rep C p rss" and wr: "part_writable p" and acc: "part_accepts C p ms"
  obtains p' rss' new where "partition_append C ms p = (p', Ok (of_nat (length (concat rss))))"
    and "part_rep C p' rss'" and "part_writable p'" and "concat rss' = concat rss @ new"
    and "map to_message new = ms" and "p_topic_name p' = p_topic_name p"
    and "p_partition_id p' = p_partition_id p" and "p_config p' = p_config p"
    and "new = records_for (p_config p) (of_nat (length (concat rss))) ms"
proof -
  obtain rss1 where r: "part_rep C (rotate p) rss1" "part_writable (rotate p)" "concat rss1 = concat rss"
      "p_topic_name (rotate p) = p_topic_name p" "p_partition_id (rotate p) = p_partition_id p"
    by (rule rotate_rep [OF rep wr])
  have cfg: "p_config (rotate p) = p_config p" by (simp add: rotate_def Let_def)
  obtain ss s rss0 rs where p: "p_segments (rotate p) = ss @ [s]" "rss1 = rss0 @ [rs]"
    "chain (seg_rep C) 0 ss rss0" "[] \<notin> set rss0" "seg_rep C s rs"
    "seg_base_offset s = of_nat (length (concat rss0))"
    "seg_next_offset s = of_nat (length (concat rss1))"
    "length (concat rss1) < 2 ^ 64" "no_segment_files (p_other (rotate p))"
    using r(1) by (rule part_repE)
  have fits: "ms \<noteq> []" "batch_fits C s ms" "seg_writable s"
    using acc r(2) p(1) by (simp_all add: part_accepts_def seg_accepts_def part_writable_def)
  let ?new = "records_for (seg_config s) (seg_next_offset s) ms"
  obtain s' where s': "segment_append C ms s = (s', Ok (seg_next_offset s))"
    "seg_rep C s' (rs @ ?new)" "seg_writable s'" "seg_base_offset s' = seg_base_offset s"
    "seg_config s' = seg_config s"
    using segment_append_correct [OF p(5) fits(3,2,1)] .
  let ?p = "rotate p\<lparr>p_segments := ss @ [s']\<rparr>"
  have "unat (seg_next_offset s) = length (concat rss1)"
    using p(7,8) by (simp add: unat_of_nat_u64)
  then have "length (concat rss1) + length ms < 2 ^ 64"
    using fits(2) by (simp add: batch_fits_def Let_def)
  then have "part_rep C ?p (rss0 @ [rs @ ?new])"
    using p(2,3,4,6,9) s'(2,4) by (auto simp: part_rep_def chain_snoc)
  moreover have "part_writable ?p"
    using r(2) s'(3,5) p(1) by (simp add: part_writable_def)
  moreover have "partition_append C ms p = (?p, Ok (of_nat (length (concat rss))))"
    using fits(1) p(1,7) s'(1) r(3) rep by (simp add: partition_append_def Let_def part_rep_def)
  ultimately show thesis
    using that [of ?p "rss0 @ [rs @ ?new]" ?new] p(1,2,7) r(2-5) cfg by (simp add: part_writable_def)
qed

section \<open>Uncompressed batches\<close>

text \<open>
  What a batch needs to be accepted, for a partition without compression: at least one message,
  keys and values below two gigabytes together, and room in the sixty-four bits of offsets and
  positions.
\<close>

definition small_message :: "message \<Rightarrow> bool" where
  "small_message m \<longleftrightarrow> key_size (msg_key m) + length (msg_value m) < 2 ^ 31"

definition batch_bytes :: "message list \<Rightarrow> nat" where
  "batch_bytes ms = sum_list (map (\<lambda>m. 33 + key_size (msg_key m) + length (msg_value m)) ms)"

lemma plain_record:
  assumes "sc_compression cfg = CNone" and "small_message m"
  shows "record_fits C (record_for cfg off m)"
    and "length (enc_bytes C (record_for cfg off m)) = 33 + key_size (msg_key m) + length (msg_value m)"
proof -
  show fits: "record_fits C (record_for cfg off m)"
    using assms by (simp add: record_fits_def record_for_def disk_record_new_def body_size_def small_message_def)
  show "length (enc_bytes C (record_for cfg off m)) = 33 + key_size (msg_key m) + length (msg_value m)"
    using serialized_size_uncompressed [OF _ encode_fits [OF fits]] assms(1)
    by (simp add: record_for_def disk_record_new_def serialized_size_def)
qed

lemma plain_records:
  assumes "sc_compression cfg = CNone" and "list_all small_message ms"
  shows "list_all (record_fits C) (records_for cfg off ms)"
    and "length (encode_all C (records_for cfg off ms)) = batch_bytes ms"
  using assms plain_record [OF assms(1)]
  by (induction ms arbitrary: off) (simp_all add: batch_bytes_def)

lemma part_accepts_plain:
  assumes rep: "part_rep C p rss" and wr: "part_writable p" and cfg: "sc_compression (p_config p) = CNone"
    and ms: "ms \<noteq> []" "list_all small_message ms"
    and room: "length (concat rss) + length ms < 2 ^ 64"
      "length (encode_all C (concat rss)) + batch_bytes ms < 2 ^ 64"
  shows "part_accepts C p ms"
proof -
  obtain rss1 where r: "part_rep C (rotate p) rss1" "part_writable (rotate p)" "concat rss1 = concat rss"
    by (rule rotate_rep [OF rep wr])
  obtain ss s rss0 rs where p: "p_segments (rotate p) = ss @ [s]" "rss1 = rss0 @ [rs]"
    "chain (seg_rep C) 0 ss rss0" "[] \<notin> set rss0" "seg_rep C s rs"
    "seg_base_offset s = of_nat (length (concat rss0))"
    "seg_next_offset s = of_nat (length (concat rss1))"
    "length (concat rss1) < 2 ^ 64" "no_segment_files (p_other (rotate p))"
    using r(1) by (rule part_repE)
  have "p_config (rotate p) = p_config p" by (simp add: rotate_def Let_def)
  then have c: "sc_compression (seg_config s) = CNone"
    using r(2) p(1) cfg by (simp add: part_writable_def)
  have log: "contents (seg_log_file s) = encode_all C rs"
    using p(5) by (simp add: seg_rep_def seg_core_def)
  have "length (encode_all C rs) \<le> length (encode_all C (concat rss))"
    using r(3) [symmetric] p(2) by simp
  then have "batch_fits C s ms"
    using plain_records [OF c ms(2)] room p(7,8) r(3) log
    by (simp add: batch_fits_def Let_def unat_of_nat_u64)
  then show ?thesis using ms(1) p(1) by (simp add: part_accepts_def seg_accepts_def)
qed

lemma accepted_plain:
  assumes "part_rep C p rss" and "part_writable p" and "sc_compression (p_config p) = CNone"
    and "list_all (\<lambda>ms. ms \<noteq> [] \<and> list_all small_message ms) bs"
    and "length (concat rss) + length (concat bs) < 2 ^ 64"
    and "length (encode_all C (concat rss)) + batch_bytes (concat bs) < 2 ^ 64"
  shows "accepted (partition_append C) (part_accepts C) bs p"
  using assms
proof (induction bs arbitrary: p rss)
  case (Cons ms bs)
  have acc: "part_accepts C p ms"
    using Cons.prems by (intro part_accepts_plain [OF Cons.prems(1,2,3)]) (auto simp: batch_bytes_def)
  obtain p' rss' new where p': "partition_append C ms p = (p', Ok (of_nat (length (concat rss))))"
      "part_rep C p' rss'" "part_writable p'" "concat rss' = concat rss @ new"
      "map to_message new = ms" "p_config p' = p_config p"
      "new = records_for (p_config p) (of_nat (length (concat rss))) ms"
    by (rule partition_append_correct [OF Cons.prems(1,2) acc])
  have "length (encode_all C new) = batch_bytes ms"
    using plain_records(2) [OF Cons.prems(3)] Cons.prems(4) p'(7) by simp
  moreover have "length new = length ms" using p'(5) by (metis length_map)
  ultimately have "accepted (partition_append C) (part_accepts C) bs p'"
    using Cons.prems(3-6) p'(2,3,4,6) by (intro Cons.IH [of p' rss']) (auto simp: batch_bytes_def)
  then show ?case using acc p'(1) by simp
qed simp

section \<open>A partition is an append-only log\<close>

definition part_log :: "codecs \<Rightarrow> partition \<Rightarrow> stored_record list \<Rightarrow> bool" where
  "part_log C p recs \<longleftrightarrow>
     codecs_ok C \<and> part_writable p \<and>
     (\<exists>rss. part_rep C p rss \<and>
        recs = map (to_record (p_topic_name p) (p_partition_id p)) (concat rss))"

lemma part_logE:
  assumes "part_log C p recs"
  obtains rss where "codecs_ok C" and "part_writable p" and "part_rep C p rss"
    and "recs = map (to_record (p_topic_name p) (p_partition_id p)) (concat rss)"
  using assms by (auto simp: part_log_def)

interpretation partlog: append_log "partition_append C" "partition_fetch C" "part_log C" "\<lambda>p. 0"
    rec_message "part_accepts C" for C
proof
  show "\<exists>p' new. partition_append C ms p = (p', Ok (0 + of_nat (length recs))) \<and>
      part_log C p' (recs @ new) \<and> map rec_message new = ms \<and> (0::u64) = 0"
    if log: "part_log C p recs" and acc: "part_accepts C p ms" for p recs ms
  proof -
    obtain rss where r: "codecs_ok C" "part_writable p" "part_rep C p rss"
        "recs = map (to_record (p_topic_name p) (p_partition_id p)) (concat rss)"
      using log by (rule part_logE)
    obtain p' rss' new where p': "partition_append C ms p = (p', Ok (of_nat (length (concat rss))))"
        "part_rep C p' rss'" "part_writable p'" "concat rss' = concat rss @ new"
        "map to_message new = ms" "p_topic_name p' = p_topic_name p"
        "p_partition_id p' = p_partition_id p"
      by (rule partition_append_correct [OF r(3,2) acc])
    let ?new = "map (to_record (p_topic_name p) (p_partition_id p)) new"
    have "part_log C p' (recs @ ?new)"
      unfolding part_log_def using r(1,4) p'(2-4,6,7) by (intro conjI exI [of _ rss']) simp_all
    moreover have "map rec_message ?new = ms"
      using p'(5) by (simp add: to_record_def o_def)
    ultimately show ?thesis using p'(1) r(4) by auto
  qed
  show "partition_fetch C p (0 + of_nat i) n = Ok (take (unat n) (drop i recs))"
    if log: "part_log C p recs" and i: "i \<le> length recs" for p recs i n
  proof -
    obtain rss where r: "codecs_ok C" "part_writable p" "part_rep C p rss"
        "recs = map (to_record (p_topic_name p) (p_partition_id p)) (concat rss)"
      using log by (rule part_logE)
    then have "unat (of_nat i :: u64) = i"
      using i by (simp add: part_rep_def unat_of_nat_u64)
    then show ?thesis
      using partition_fetch_correct [OF r(1) part_rep_view [OF r(3)]] r(4)
      by (simp add: take_map drop_map)
  qed
qed

lemma part_rep_offset:
  assumes "part_rep C p rss" and "i < length (concat rss)"
  shows "dr_offset (concat rss ! i) = of_nat i"
proof -
  have "chain (seg_readable C) 0 (p_segments p) rss"
    using assms(1) part_rep_view by (auto simp: part_view_def)
  from chain_offsets [OF this assms(2)] show ?thesis by simp
qed

lemma part_rep_next_offset:
  "part_rep C p rss \<Longrightarrow> partition_next_offset p = of_nat (length (concat rss))"
  by (erule part_repE) (simp add: partition_next_offset_def)

text \<open>What the log says of its records, for the reader of a partition.\<close>

lemma part_log_fetch:
  assumes "part_log C p recs"
  shows "partition_fetch C p off n = Ok (take (unat n) (drop (unat off) recs))"
  using assms partition_fetch_correct [OF _ part_rep_view]
  by (auto simp: part_log_def take_map drop_map)

lemma part_log_offset:
  assumes "part_log C p recs" and "i < length recs"
  shows "rec_offset (recs ! i) = of_nat i"
  using assms part_rep_offset by (auto simp: part_log_def to_record_def)

lemma part_log_length: "part_log C p recs \<Longrightarrow> length recs < 2 ^ 64"
  by (auto simp: part_log_def part_rep_def)

lemma partition_with_config_rep:
  assumes "no_segment_files files" and "0 < sc_max_size config"
  shows "part_rep C (partition_with_config t pid dir config files) [[]]"
    and "part_writable (partition_with_config t pid dir config files)"
proof -
  let ?p = "partition_with_config t pid dir config files"
  have p: "p_segments ?p = [segment_create None None 0 config]" "p_other ?p = files"
    using assms(1)
    by (simp_all add: partition_with_config_def create_in_def no_segment_files_get without_segment_id)
  show "part_rep C ?p [[]]"
    using p assms(1) segment_create_rep(1) by (simp add: part_rep_def segment_create_def)
  show "part_writable ?p"
    using p assms(2) segment_create_rep(2)
    by (simp add: part_writable_def) (simp add: segment_create_def partition_with_config_def)
qed

lemma partition_with_config_log:
  assumes "codecs_ok C" and "no_segment_files files" and "0 < sc_max_size config"
  shows "part_log C (partition_with_config t pid dir config files) []"
  using assms(1) partition_with_config_rep [OF assms(2,3)] unfolding part_log_def
  by (intro conjI exI [of _ "[[]]"]) simp_all

lemma accepted_fresh:
  assumes "no_segment_files files" and "0 < sc_max_size config" and "sc_compression config = CNone"
    and "list_all (\<lambda>ms. ms \<noteq> [] \<and> list_all small_message ms) bs"
    and "length (concat bs) < 2 ^ 64" and "batch_bytes (concat bs) < 2 ^ 64"
  shows "accepted (partition_append C) (part_accepts C) bs (partition_with_config t pid dir config files)"
  using assms(3-6)
  by (intro accepted_plain [OF partition_with_config_rep [OF assms(1,2)]])
    (simp_all add: partition_with_config_def)

text \<open>The records of a partition that was given some messages, each labelled with its place.\<close>

abbreviation history :: "string \<Rightarrow> u32 \<Rightarrow> message list \<Rightarrow> stored_record list" where
  "history t pid ms \<equiv>
     map (\<lambda>(j, m). \<lparr>rec_topic = t, rec_partition = pid, rec_offset = of_nat j, rec_message = m\<rparr>) (enumerate 0 ms)"

lemma to_record_history:
  assumes "part_rep C p rss"
  shows "map (to_record t pid) (concat rss) = history t pid (map to_message (concat rss))" (is "?l = ?r")
proof (rule nth_equalityI)
  show "?l ! i = ?r ! i" if "i < length ?l" for i
    using that part_rep_offset [OF assms, of i] by (simp add: to_record_def nth_enumerate_eq)
qed simp

section \<open>The directory of a partition\<close>

lemma chain_distinct:
  assumes "chain R n ss rss" and "n + length (concat rss) < 2 ^ 64"
  shows "distinct (map seg_base_offset ss)"
  using assms
proof (induction ss arbitrary: n rss)
  case (Cons s ss)
  obtain rs rss' where rss: "rss = rs # rss'" and b: "seg_base_offset s = of_nat n" "ss \<noteq> [] \<longrightarrow> rs \<noteq> []"
    and ch: "chain R (n + length rs) ss rss'"
    using Cons.prems(1) by (auto split: list.splits)
  have "seg_base_offset s' \<noteq> of_nat n" if s': "s' \<in> set ss" for s'
  proof -
    obtain i where i: "i < length ss" "s' = ss ! i" using s' by (metis in_set_conv_nth)
    let ?k = "length rs + length (concat (take i rss'))"
    have "seg_base_offset s' = of_nat (n + ?k)"
      using chain_base [OF ch i(1)] i(2) by (simp add: add.assoc)
    moreover have "0 < ?k" using b(2) i(1) by auto
    moreover have "length (concat (take i rss')) \<le> length (concat rss')"
      by (metis append_take_drop_id concat_append length_append le_add1)
    then have "n + ?k < 2 ^ 64" using Cons.prems(2) rss by simp
    ultimately show ?thesis
      using u64_plus_eq_iff [of 0 "n + ?k" n] by auto
  qed
  then have "seg_base_offset s \<notin> set (map seg_base_offset ss)" using b(1) by (metis in_set_conv_nth length_map nth_map nth_mem)
  then show ?case using Cons.IH [OF ch] Cons.prems(2) rss by simp
qed simp

lemma partition_files_ok:
  assumes "part_rep C p rss" and "hm_ok (p_other p)"
  shows "hm_ok (partition_files p)"
proof -
  have "distinct (map fst (concat (map segment_files ss)))" if "distinct (map seg_base_offset ss)" for ss
    using that by (induction ss) (auto simp: segment_files_def)
  moreover have "distinct (map seg_base_offset (p_segments p))"
    using chain_distinct [of _ 0 "p_segments p" rss] assms(1) by (auto simp: part_rep_def)
  moreover have "(log_name b, v) \<notin> set (p_other p)" "(index_name b, v) \<notin> set (p_other p)" for b v
    using no_segment_files_get [of "p_other p" b] assms(1)
    by (force simp: part_rep_def map_of_eq_None_iff)+
  ultimately show ?thesis
    using assms(2) by (auto simp: hm_ok_def partition_files_def segment_files_def)
qed

section \<open>Opening\<close>

lemma open_segments_chain:
  assumes "codecs_ok C" and "chain (seg_rep C) n ss rss"
    and "\<forall>s \<in> set ss. hm_get files (log_name (seg_base_offset s)) = Some (contents (seg_log_file s)) \<and>
      hm_get files (index_name (seg_base_offset s)) = Some (contents (idx_file (seg_index s)))"
  shows "\<exists>ss'. open_segments C files cfg (map seg_base_offset ss) = Ok ss' \<and>
           chain (seg_rep C) n ss' rss \<and> length ss' = length ss \<and>
           (ss \<noteq> [] \<longrightarrow> seg_config (last ss') = cfg \<and>
             (contents (idx_file (seg_index (last ss))) = [] \<longrightarrow> seg_writable (last ss')))"
  using assms(2,3)
proof (induction ss arbitrary: n rss)
  case (Cons s ss)
  obtain rs rss' where rss: "rss = rs # rss'" and rep: "seg_rep C s rs"
    and b: "seg_base_offset s = of_nat n" "ss \<noteq> [] \<longrightarrow> rs \<noteq> []"
    and ch: "chain (seg_rep C) (n + length rs) ss rss'"
    using Cons.prems(1) by (auto split: list.splits)
  obtain s' where s': "segment_open C (Some (contents (seg_log_file s)))
           (Some (contents (idx_file (seg_index s)))) (seg_base_offset s) cfg = Ok s'"
    "seg_rep C s' rs" "seg_base_offset s' = seg_base_offset s" "seg_config s' = cfg"
    "contents (idx_file (seg_index s)) = [] \<longrightarrow> seg_writable s'"
    by (rule segment_reopen [OF assms(1) rep])
  obtain ss' where ss': "open_segments C files cfg (map seg_base_offset ss) = Ok ss'"
    "chain (seg_rep C) (n + length rs) ss' rss'" "length ss' = length ss"
    "ss \<noteq> [] \<longrightarrow> seg_config (last ss') = cfg \<and>
       (contents (idx_file (seg_index (last ss))) = [] \<longrightarrow> seg_writable (last ss'))"
    using Cons.IH [OF ch] Cons.prems(2) by auto
  have "ss' = [] \<longleftrightarrow> ss = []" using ss'(3) by auto
  then show ?case
    using Cons.prems(2) s' ss' b rss by (intro exI [of _ "s' # ss'"]) auto
qed simp

lemma set_fold_without_segment:
  "x \<in> set (fold without_segment bs files) \<longleftrightarrow>
     x \<in> set files \<and> (\<forall>b \<in> set bs. fst x \<noteq> log_name b \<and> fst x \<noteq> index_name b)"
  by (induction bs arbitrary: files) (auto simp: without_segment_def AList.delete_eq)

lemma segment_base_offsets_Nil_iff:
  "segment_base_offsets xs = [] \<longleftrightarrow> (\<forall>x \<in> set xs. segment_base_offsets [x] = [])"
proof (induction xs)
  case (Cons x xs)
  have "segment_base_offsets (x # xs) = segment_base_offsets [x] @ segment_base_offsets xs"
    by (metis append_Cons append_Nil segment_base_offsets_append)
  then show ?case using Cons by (auto simp del: segment_base_offsets.simps)
qed simp

lemma no_segment_files_alt:
  "no_segment_files files \<longleftrightarrow>
     (\<forall>x \<in> set files. segment_base_offsets [fst x] = [] \<and> snd (split_extension (fst x)) \<noteq> Some ''index'')"
  using segment_base_offsets_Nil_iff [of "map fst files"]
  unfolding no_segment_files_def list_all_iff hm_keys_def by (auto simp del: segment_base_offsets.simps)

text \<open>
  Opening the directory of a partition, in whatever order it is listed, recovers every segment
  and record.
\<close>

lemma open_with_config_recovers:
  assumes C: "codecs_ok C" and rep: "part_rep C p rss"
    and dir: "mset files = mset (partition_files p)" and dist: "hm_ok files"
  obtains p' where "open_with_config C t pid d cfg (Some files) = Ok p'" and "part_rep C p' rss"
    and "p_topic_name p' = t" and "p_partition_id p' = pid"
    and "contents (idx_file (seg_index (last (p_segments p)))) = [] \<longrightarrow> 0 < sc_max_size cfg \<longrightarrow>
      part_writable p'"
proof -
  let ?ss = "p_segments p" and ?bases = "segment_base_offsets (hm_keys files)"
  have ch: "chain (seg_rep C) 0 ?ss rss" and ne: "?ss \<noteq> []" and bound: "length (concat rss) < 2 ^ 64"
    and other: "no_segment_files (p_other p)"
    using rep by (simp_all add: part_rep_def)
  have "mset (hm_keys files) = mset (hm_keys (partition_files p))"
    using dir by (simp add: hm_keys_def)
  then have "mset ?bases = mset (segment_base_offsets (hm_keys (partition_files p)))"
    by (rule mset_segment_base_offsets)
  also have "\<dots> = mset (map seg_base_offset ?ss)"
    using other by (simp add: hm_keys_def partition_files_def segment_base_offsets_files no_segment_files_def)
  finally have bases: "mset ?bases = mset (map seg_base_offset ?ss)" .
  have sorted: "sort ?bases = map seg_base_offset ?ss"
    using bases chain_sorted [OF ch] bound by (intro properties_for_sort) simp_all
  have set_bases: "set ?bases = seg_base_offset ` set ?ss"
    using mset_eq_setD [OF bases] by simp
  then have "?bases \<noteq> []" using ne by auto
  have set_files: "set files = set (partition_files p)" using dir by (rule mset_eq_setD)
  have "hm_get files (log_name (seg_base_offset s)) = Some (contents (seg_log_file s)) \<and>
      hm_get files (index_name (seg_base_offset s)) = Some (contents (idx_file (seg_index s)))"
    if "s \<in> set ?ss" for s
    using that set_files by (auto simp: hm_get_eq_Some [OF dist] partition_files_def segment_files_def)
  then obtain ss' where ss': "open_segments C files cfg (map seg_base_offset ?ss) = Ok ss'"
      "chain (seg_rep C) 0 ss' rss" "length ss' = length ?ss" "seg_config (last ss') = cfg"
      "contents (idx_file (seg_index (last ?ss))) = [] \<longrightarrow> seg_writable (last ss')"
    using open_segments_chain [OF C ch, of files cfg] ne by auto
  let ?p' = "\<lparr>p_partition_id = pid, p_topic_name = t, p_data_dir = partition_dir d t pid,
      p_segments = ss', p_config = cfg, p_other = fold without_segment ?bases files\<rparr>"
  have "set (fold without_segment ?bases files) \<subseteq> set (p_other p)"
    unfolding subset_iff set_fold_without_segment set_bases set_files
    by (auto simp: partition_files_def segment_files_def)
  then have "no_segment_files (fold without_segment ?bases files)"
    using other by (auto simp: no_segment_files_alt simp del: segment_base_offsets.simps)
  then have "part_rep C ?p' rss" using ss'(2,3) ne bound by (auto simp: part_rep_def)
  moreover have "open_with_config C t pid d cfg (Some files) = Ok ?p'"
    using sorted \<open>?bases \<noteq> []\<close> ss'(1) by (simp add: open_with_config_def Let_def)
  ultimately show thesis
    using ss'(4,5) by (intro that [of ?p']) (auto simp: part_writable_def)
qed

end
