(* ===== verification/Topic_Manager.thy ===== *)
theory Topic_Manager
  imports Partition_Log
begin

text \<open>
  \<open>storage/src/topic.rs\<close>: a topic is a row of partitions that is addressed by position, and the
  topic manager a map from names to topics. Requests for one partition do not touch another;
  reopening the data directory recovers a topic whose partition numbers are \<open>0, \<dots>, n - 1\<close>, and
  gives the wrong partition for a number when one is missing.
\<close>

type_synonym part_dirs = "(string, (string, bytes) hashmap) hashmap"

text \<open>
  \<open>t_other\<close> and \<open>tm_disk\<close> are not fields of the code: they hold the directories on disk that
  belong to none of the partitions and none of the topics in memory.
\<close>

record topic =
  t_name :: string
  t_partitions :: "partition list"
  t_other :: part_dirs

record topic_manager =
  tm_topics :: "(string, topic) hashmap"
  tm_data_dir :: string
  tm_disk :: "(string, part_dirs) hashmap"

section \<open>Topics\<close>

definition dir_of :: "part_dirs \<Rightarrow> u32 \<Rightarrow> (string, bytes) hashmap" where
  "dir_of dirs i = (case hm_get dirs (partition_dir_name i) of None \<Rightarrow> [] | Some files \<Rightarrow> files)"

definition topic_new :: "string \<Rightarrow> u32 \<Rightarrow> string \<Rightarrow> part_dirs \<Rightarrow> topic" where
  "topic_new name num_partitions data_dir dirs =
     \<lparr>t_name = name,
      t_partitions = map (\<lambda>i. partition_new name i data_dir (dir_of dirs i)) (u32_range num_partitions),
      t_other = filter (\<lambda>(d, _). d \<notin> partition_dir_name ` set (u32_range num_partitions)) dirs\<rparr>"

definition strip_prefix :: "string \<Rightarrow> string \<Rightarrow> string option" where
  "strip_prefix prefix s =
     (if take (length prefix) s = prefix then Some (drop (length prefix) s) else None)"

fun partition_ids :: "string list \<Rightarrow> u32 list" where
  "partition_ids [] = []"
| "partition_ids (dir_name # names) =
     (case strip_prefix ''partition-'' dir_name of
        Some id_str \<Rightarrow>
          (case parse_uint 32 id_str of
             Some pid \<Rightarrow> of_nat pid # partition_ids names
           | None \<Rightarrow> partition_ids names)
      | None \<Rightarrow> partition_ids names)"

fun open_partitions :: "codecs \<Rightarrow> string \<Rightarrow> string \<Rightarrow> part_dirs \<Rightarrow> u32 list \<Rightarrow> partition list outcome" where
  "open_partitions C name data_dir dirs [] = Ok []"
| "open_partitions C name data_dir dirs (i # ids) =
     and_then (partition_open C name i data_dir (hm_get dirs (partition_dir_name i))) (\<lambda>p.
     and_then (open_partitions C name data_dir dirs ids) (\<lambda>ps. Ok (p # ps)))"

text \<open>\<open>dirs\<close> lists the directories in the topic's directory, or is \<open>None\<close> when it does not exist.\<close>

definition topic_open :: "codecs \<Rightarrow> string \<Rightarrow> string \<Rightarrow> part_dirs option \<Rightarrow> topic outcome" where
  "topic_open C name data_dir listing =
     (case listing of
        None \<Rightarrow> Err (Io not_found_text)
      | Some dirs \<Rightarrow>
          let ids = partition_ids (hm_keys dirs) in
          if ids = [] then Err (Storage (''No partitions found for topic: '' @ name))
          else
            and_then (open_partitions C name data_dir dirs (sort ids)) (\<lambda>ps.
              Ok \<lparr>t_name = name, t_partitions = ps,
                  t_other = filter (\<lambda>(d, _). d \<notin> partition_dir_name ` set ids) dirs\<rparr>))"

definition num_partitions :: "topic \<Rightarrow> u32" where
  "num_partitions t = of_nat (length (t_partitions t))"

definition get_partition :: "topic \<Rightarrow> u32 \<Rightarrow> partition outcome" where
  "get_partition t partition_id =
     (if unat partition_id < length (t_partitions t) then Ok (t_partitions t ! unat partition_id)
      else Err (PartitionNotFound (t_name t) partition_id))"

definition topic_append :: "codecs \<Rightarrow> u32 \<Rightarrow> message list \<Rightarrow> topic \<Rightarrow> topic \<times> u64 outcome" where
  "topic_append C partition_id messages t =
     (case get_partition t partition_id of
        Ok p \<Rightarrow>
          let (p', r) = partition_append C messages p in
          (t\<lparr>t_partitions := (t_partitions t)[unat partition_id := p']\<rparr>, r)
      | Err e \<Rightarrow> (t, Err e)
      | Panic \<Rightarrow> (t, Panic))"

definition topic_fetch :: "codecs \<Rightarrow> topic \<Rightarrow> u32 \<Rightarrow> u64 \<Rightarrow> u32 \<Rightarrow> stored_record list outcome" where
  "topic_fetch C t partition_id off max_messages =
     and_then (get_partition t partition_id) (\<lambda>p. partition_fetch C p off max_messages)"

section \<open>The topic manager\<close>

definition tm_new :: "string \<Rightarrow> (string, part_dirs) hashmap \<Rightarrow> topic_manager" where
  "tm_new data_dir disk = \<lparr>tm_topics = [], tm_data_dir = data_dir, tm_disk = disk\<rparr>"

fun open_topics ::
    "codecs \<Rightarrow> string \<Rightarrow> (string \<times> part_dirs) list \<Rightarrow> topic_manager \<Rightarrow> topic_manager outcome" where
  "open_topics C data_dir [] tm = Ok tm"
| "open_topics C data_dir ((topic_name, dirs) # entries) tm =
     (case topic_open C topic_name data_dir (Some dirs) of
        Ok t \<Rightarrow>
          open_topics C data_dir entries (tm\<lparr>tm_topics := hm_insert topic_name t (tm_topics tm)\<rparr>)
      | Err e \<Rightarrow>
          open_topics C data_dir entries (tm\<lparr>tm_disk := tm_disk tm @ [(topic_name, dirs)]\<rparr>)
      | Panic \<Rightarrow> Panic)"

text \<open>\<open>listing\<close> is the data directory, or \<open>None\<close> when it does not exist.\<close>

definition tm_open ::
    "codecs \<Rightarrow> string \<Rightarrow> (string \<times> part_dirs) list option \<Rightarrow> topic_manager outcome" where
  "tm_open C data_dir listing =
     (case listing of
        None \<Rightarrow> Ok (tm_new data_dir [])
      | Some entries \<Rightarrow> open_topics C data_dir entries (tm_new data_dir []))"

definition create_topic :: "string \<Rightarrow> u32 \<Rightarrow> topic_manager \<Rightarrow> topic_manager \<times> topic outcome" where
  "create_topic name n tm =
     (if hm_get (tm_topics tm) name \<noteq> None then
        (tm, Err (InvalidMessage (''Topic '' @ [CHR 0x27] @ name @ [CHR 0x27] @ '' already exists'')))
      else
        let t = topic_new name n (tm_data_dir tm)
                  (case hm_get (tm_disk tm) name of None \<Rightarrow> [] | Some dirs \<Rightarrow> dirs) in
        (tm\<lparr>tm_topics := hm_insert name t (tm_topics tm), tm_disk := hm_remove name (tm_disk tm)\<rparr>, Ok t))"

definition get_topic :: "topic_manager \<Rightarrow> string \<Rightarrow> topic outcome" where
  "get_topic tm name = ok_or (hm_get (tm_topics tm) name) (TopicNotFound name)"

definition list_topics :: "(string list \<Rightarrow> string list) \<Rightarrow> topic_manager \<Rightarrow> string list" where
  "list_topics ord tm = ord (hm_keys (tm_topics tm))"

definition topic_count :: "topic_manager \<Rightarrow> nat" where
  "topic_count tm = length (tm_topics tm)"

text \<open>
  A caller holds a topic through an \<open>Arc\<close>: what it appends to the topic it got is seen by all
  later callers.
\<close>

definition put_topic :: "string \<Rightarrow> topic \<Rightarrow> topic_manager \<Rightarrow> topic_manager" where
  "put_topic name t tm = tm\<lparr>tm_topics := hm_insert name t (tm_topics tm)\<rparr>"

definition tm_append ::
    "codecs \<Rightarrow> string \<Rightarrow> u32 \<Rightarrow> message list \<Rightarrow> topic_manager \<Rightarrow> topic_manager \<times> u64 outcome" where
  "tm_append C name partition_id messages tm =
     (case get_topic tm name of
        Ok t \<Rightarrow> let (t', r) = topic_append C partition_id messages t in (put_topic name t' tm, r)
      | Err e \<Rightarrow> (tm, Err e)
      | Panic \<Rightarrow> (tm, Panic))"

definition tm_fetch ::
    "codecs \<Rightarrow> topic_manager \<Rightarrow> string \<Rightarrow> u32 \<Rightarrow> u64 \<Rightarrow> u32 \<Rightarrow> stored_record list outcome" where
  "tm_fetch C tm name partition_id off max_messages =
     and_then (get_topic tm name) (\<lambda>t. topic_fetch C t partition_id off max_messages)"

section \<open>Isolation\<close>

lemma topic_append_get:
  assumes "get_partition t pid = Ok p" and "partition_append C ms p = (p', r)"
  obtains t' where "topic_append C pid ms t = (t', r)"
    and "\<And>q. get_partition t' q = (if q = pid then Ok p' else get_partition t q)"
    and "t_name t' = t_name t" and "length (t_partitions t') = length (t_partitions t)"
proof -
  let ?t = "t\<lparr>t_partitions := (t_partitions t)[unat pid := p']\<rparr>"
  have "topic_append C pid ms t = (?t, r)" using assms by (simp add: topic_append_def)
  moreover have "get_partition ?t q = (if q = pid then Ok p' else get_partition t q)" for q
    using assms(1) by (auto simp: get_partition_def nth_list_update word_unat_eq_iff split: if_splits)
  ultimately show thesis using that [of ?t] by simp
qed

lemma topic_append_missing:
  assumes "length (t_partitions t) \<le> unat pid"
  shows "topic_append C pid ms t = (t, Err (PartitionNotFound (t_name t) pid))"
  using assms by (simp add: topic_append_def get_partition_def)

definition find_partition :: "topic_manager \<Rightarrow> string \<Rightarrow> u32 \<Rightarrow> partition outcome" where
  "find_partition tm name pid = and_then (get_topic tm name) (\<lambda>t. get_partition t pid)"

lemma tm_fetch_find: "tm_fetch C tm name pid off n = and_then (find_partition tm name pid) (\<lambda>p. partition_fetch C p off n)"
  by (simp add: tm_fetch_def topic_fetch_def find_partition_def and_then_assoc)

text \<open>An append changes the partition it names, by the partition's own append, and no other.\<close>

lemma tm_append_find:
  assumes "find_partition tm name pid = Ok p" and "partition_append C ms p = (p', r)"
  obtains tm' where "tm_append C name pid ms tm = (tm', r)"
    and "\<And>name' q. find_partition tm' name' q =
           (if name' = name \<and> q = pid then Ok p' else find_partition tm name' q)"
    and "\<And>name'. is_ok (get_topic tm' name') = is_ok (get_topic tm name')"
proof -
  obtain t where t: "hm_get (tm_topics tm) name = Some t" "get_partition t pid = Ok p"
    using assms(1) by (auto simp: find_partition_def get_topic_def outcome_simps)
  obtain t' where t': "topic_append C pid ms t = (t', r)"
      "\<And>q. get_partition t' q = (if q = pid then Ok p' else get_partition t q)"
    using topic_append_get [OF t(2) assms(2)] by metis
  have get: "get_topic (put_topic name t' tm) name' = (if name' = name then Ok t' else get_topic tm name')" for name'
    by (simp add: get_topic_def put_topic_def hashmap_simps)
  show thesis
  proof (rule that)
    show "tm_append C name pid ms tm = (put_topic name t' tm, r)"
      using t(1) t'(1) by (simp add: tm_append_def get_topic_def)
    show "find_partition (put_topic name t' tm) name' q =
        (if name' = name \<and> q = pid then Ok p' else find_partition tm name' q)" for name' q
      using t t'(2) by (simp add: find_partition_def get) (simp add: get_topic_def)
    show "is_ok (get_topic (put_topic name t' tm) name') = is_ok (get_topic tm name')" for name'
      using t(1) by (simp add: get) (simp add: get_topic_def)
  qed
qed

section \<open>Creation\<close>

lemma create_topic_find:
  assumes "hm_get (tm_topics tm) name = None"
  obtains tm' t where "create_topic name n tm = (tm', Ok t)" and "num_partitions t = n"
    and "get_topic tm' name = Ok t"
    and "\<And>name' q. name' \<noteq> name \<Longrightarrow> find_partition tm' name' q = find_partition tm name' q"
    and "\<And>q. q < n \<Longrightarrow> find_partition tm' name q =
           Ok (partition_new name q (tm_data_dir tm)
                (dir_of (case hm_get (tm_disk tm) name of None \<Rightarrow> [] | Some dirs \<Rightarrow> dirs) q))"
    and "\<And>q. \<not> q < n \<Longrightarrow> find_partition tm' name q = Err (PartitionNotFound name q)"
proof -
  let ?dirs = "case hm_get (tm_disk tm) name of None \<Rightarrow> [] | Some dirs \<Rightarrow> dirs"
  let ?t = "topic_new name n (tm_data_dir tm) ?dirs"
  let ?tm = "tm\<lparr>tm_topics := hm_insert name ?t (tm_topics tm), tm_disk := hm_remove name (tm_disk tm)\<rparr>"
  have get: "get_topic ?tm name' = (if name' = name then Ok ?t else get_topic tm name')" for name'
    by (simp add: get_topic_def hashmap_simps)
  have part: "get_partition ?t q = (if q < n then Ok (partition_new name q (tm_data_dir tm) (dir_of ?dirs q))
      else Err (PartitionNotFound name q))" for q
    by (simp add: get_partition_def topic_new_def word_less_nat_alt)
  show thesis
  proof (rule that)
    show "create_topic name n tm = (?tm, Ok ?t)" using assms by (simp add: create_topic_def Let_def)
    show "num_partitions ?t = n" by (simp add: num_partitions_def topic_new_def)
  qed (simp_all add: find_partition_def get part)
qed

lemma list_topics_create:
  assumes "create_topic name n tm = (tm', Ok t)" and "is_order ord"
  shows "set (list_topics ord tm') = insert name (set (list_topics ord tm))"
    and "topic_count tm' = Suc (topic_count tm)"
proof -
  have tm': "tm_topics tm' = hm_insert name t (tm_topics tm)" and new: "hm_get (tm_topics tm) name = None"
    using assms(1) by (auto simp: create_topic_def Let_def split: if_splits)
  show "set (list_topics ord tm') = insert name (set (list_topics ord tm))"
    using assms(2)
    by (auto simp: list_topics_def tm' in_hm_keys_iff hashmap_simps split: if_splits)
  have "hm_get m name = None \<Longrightarrow> length (hm_insert name t m) = Suc (length m)" for m
    by (induction m) (auto split: if_splits)
  then show "topic_count tm' = Suc (topic_count tm)" using new by (simp add: topic_count_def tm')
qed

section \<open>Opening\<close>

lemma strip_prefix_append [simp]: "strip_prefix p (p @ s) = Some s"
  by (simp add: strip_prefix_def)

lemma parse_uint_u32 [simp]: "parse_uint 32 (show_word (i :: u32)) = Some (unat i)"
  using unat_u32_less [of i] by (simp add: show_word_def)

lemma partition_ids_append [simp]: "partition_ids (xs @ ys) = partition_ids xs @ partition_ids ys"
  by (induction xs) (auto split: option.splits)

lemma partition_ids_dir [simp]: "partition_ids [partition_dir_name i] = [i]"
  using strip_prefix_append [of "''partition-''" "show_word i"] by (simp add: partition_dir_name_def)

lemma partition_dir_name_inject [simp]: "partition_dir_name i = partition_dir_name j \<longleftrightarrow> i = j"
  by (metis partition_ids_dir list.inject)

lemma partition_ids_msum: "mset (partition_ids xs) = (\<Sum>x \<in># mset xs. mset (partition_ids [x]))"
proof (induction xs)
  case (Cons x xs)
  have "partition_ids (x # xs) = partition_ids [x] @ partition_ids xs"
    by (metis append_Cons append_Nil partition_ids_append)
  then show ?case using Cons by (simp del: partition_ids.simps)
qed simp

lemma partition_ids_map_dir [simp]: "partition_ids (map (\<lambda>p. partition_dir_name (f p)) ps) = map f ps"
proof (induction ps)
  case (Cons p ps)
  have "partition_ids (map (\<lambda>p. partition_dir_name (f p)) (p # ps)) =
      partition_ids [partition_dir_name (f p)] @ partition_ids (map (\<lambda>p. partition_dir_name (f p)) ps)"
    by (metis append_Cons append_Nil list.map(2) partition_ids_append)
  then show ?case using Cons by (simp del: partition_ids.simps)
qed simp

text \<open>The directory of a topic.\<close>

definition topic_dirs :: "topic \<Rightarrow> part_dirs" where
  "topic_dirs t =
     map (\<lambda>p. (partition_dir_name (p_partition_id p), partition_files p)) (t_partitions t) @ t_other t"

lemma open_partitions_recovers:
  assumes "codecs_ok C"
    and "list_all2 (\<lambda>p rss. part_rep C p rss \<and> hm_ok (partition_files p) \<and>
           hm_get dirs (partition_dir_name (p_partition_id p)) = Some (partition_files p)) ps rsss"
  shows "\<exists>ps'. open_partitions C name data_dir dirs (map p_partition_id ps) = Ok ps' \<and>
           list_all2 (part_rep C) ps' rsss \<and> map p_partition_id ps' = map p_partition_id ps \<and>
           list_all (\<lambda>p. p_topic_name p = name) ps'"
  using assms(2)
proof (induction ps rsss rule: list_all2_induct)
  case (Cons p ps rss rsss)
  obtain p' where p': "partition_open C name (p_partition_id p) data_dir (Some (partition_files p)) = Ok p'"
    "part_rep C p' rss" "p_topic_name p' = name" "p_partition_id p' = p_partition_id p"
    using open_with_config_recovers [OF assms(1), of p rss "partition_files p" name "p_partition_id p" data_dir]
      Cons.hyps(1) unfolding partition_open_def by metis
  then show ?case using Cons by auto
qed simp

text \<open>
  Opening the directory of a topic with partitions \<open>0, \<dots>, n - 1\<close>, however it is listed,
  recovers every partition at its number.
\<close>

lemma topic_open_recovers:
  assumes C: "codecs_ok C" and reps: "list_all2 (part_rep C) (t_partitions t) rsss"
    and files: "list_all (\<lambda>p. hm_ok (partition_files p)) (t_partitions t)"
    and ids: "map p_partition_id (t_partitions t) = u32_range n" and pos: "0 < n"
    and other: "partition_ids (hm_keys (t_other t)) = []"
    and dir: "mset dirs = mset (topic_dirs t)" and dist: "hm_ok dirs"
  obtains t' where "topic_open C (t_name t) data_dir (Some dirs) = Ok t'"
    and "list_all2 (part_rep C) (t_partitions t') rsss"
    and "map p_partition_id (t_partitions t') = u32_range n"
    and "list_all (\<lambda>p. p_topic_name p = t_name t) (t_partitions t')"
proof -
  let ?ps = "t_partitions t" and ?ids = "partition_ids (hm_keys dirs)"
  have "mset (hm_keys dirs) = mset (hm_keys (topic_dirs t))" using dir by (simp add: hm_keys_def)
  then have "mset ?ids = mset (partition_ids (hm_keys (topic_dirs t)))"
    using partition_ids_msum [of "hm_keys dirs"] partition_ids_msum [of "hm_keys (topic_dirs t)"]
    by (simp del: partition_ids.simps)
  also have "\<dots> = mset (u32_range n)"
    using other ids by (simp add: hm_keys_def topic_dirs_def o_def del: mset_map)
  finally have "mset ?ids = mset (u32_range n)" .
  moreover have "sorted (u32_range n)"
    unfolding sorted_iff_nth_mono using unat_u32_less [of n]
    by (auto simp: word_le_nat_alt unat_of_nat_u32)
  ultimately have sorted: "sort ?ids = u32_range n" by (simp add: properties_for_sort)
  have "?ids \<noteq> []" using sorted pos by (metis length_0_conv length_u32_range sort_key_simps(1) unat_eq_0 word_neq_0_conv)
  have "set dirs = set (topic_dirs t)" using dir by (rule mset_eq_setD)
  then have "hm_get dirs (partition_dir_name (p_partition_id p)) = Some (partition_files p)"
    if "p \<in> set ?ps" for p
    using that by (auto simp: hm_get_eq_Some [OF dist] topic_dirs_def)
  then have "list_all2 (\<lambda>p rss. part_rep C p rss \<and> hm_ok (partition_files p) \<and>
      hm_get dirs (partition_dir_name (p_partition_id p)) = Some (partition_files p)) ?ps rsss"
    using reps files by (auto simp: list_all2_conv_all_nth list_all_length)
  from open_partitions_recovers [OF C this, of "t_name t" data_dir]
  obtain ps' where "open_partitions C (t_name t) data_dir dirs (map p_partition_id ?ps) = Ok ps'"
      "list_all2 (part_rep C) ps' rsss" "map p_partition_id ps' = map p_partition_id ?ps"
      "list_all (\<lambda>p. p_topic_name p = t_name t) ps'"
    by auto
  then show thesis
    using sorted \<open>?ids \<noteq> []\<close> ids
    by (intro that [of "\<lparr>t_name = t_name t, t_partitions = ps',
          t_other = filter (\<lambda>(d, _). d \<notin> partition_dir_name ` set ?ids) dirs\<rparr>"])
      (simp_all add: topic_open_def Let_def)
qed

text \<open>
  Partitions are found by position: when the directories have a gap in their numbers, the
  partition opened for a number is another one.
\<close>

lemma topic_open_ids:
  assumes "topic_open C name data_dir (Some dirs) = Ok t"
  shows "map p_partition_id (t_partitions t) = sort (partition_ids (hm_keys dirs))"
proof -
  have "open_partitions C name data_dir dirs is = Ok ps \<Longrightarrow> map p_partition_id ps = is" for "is" ps
  proof (induction "is" arbitrary: ps)
    case (Cons i "is")
    then show ?case
      by (auto simp: outcome_simps partition_open_def open_with_config_def Let_def
          split: option.splits if_splits)
  qed simp
  then show ?thesis
    using assms by (auto simp: topic_open_def Let_def outcome_simps split: if_splits)
qed

lemma topic_open_length:
  assumes "topic_open C name data_dir (Some dirs) = Ok t"
  shows "length (t_partitions t) = length (sort (partition_ids (hm_keys dirs)))"
  using arg_cong [OF topic_open_ids [OF assms], of length] by simp

lemma topic_open_position:
  assumes "topic_open C name data_dir (Some dirs) = Ok t" and "get_partition t i = Ok p"
  shows "p_partition_id p = sort (partition_ids (hm_keys dirs)) ! unat i"
  using assms(2) topic_open_ids [OF assms(1)]
  by (metis get_partition_def nth_map outcome.distinct(1) outcome.inject(1))

end
