(* ===== verification/Storage_Properties.thy ===== *)
theory Storage_Properties
  imports Topic_Manager
begin

text \<open>
  The properties of the storage crate, from records to topics. Each stands after a statement of
  what it says of the code, and is followed by an instance on concrete data where it has
  assumptions.
\<close>

section \<open>Concrete data\<close>

definition sample_message :: message where
  "sample_message = \<lparr>msg_key = Some [1, 2], msg_value = [3, 4, 5], msg_timestamp = 77\<rparr>"

definition sample_record :: disk_record where
  "sample_record = disk_record_new 5 sample_message"

text \<open>Segments of fifty bytes, an index entry every second record.\<close>

definition sample_config :: segment_config where
  "sample_config = segment_config_default\<lparr>sc_max_size := 50, sc_index_interval := 2\<rparr>"

definition sample_batches :: "message list list" where
  "sample_batches = [[sample_message], [sample_message, sample_message], [sample_message]]"

lemma sample_record_fits: "record_fits demo_codecs sample_record"
  by (simp add: record_fits_def sample_record_def disk_record_new_def sample_message_def body_size_def)

lemma sample_small: "small_message sample_message"
  by (simp add: small_message_def sample_message_def)

lemma no_files: "no_segment_files []"
  by (simp add: no_segment_files_def hm_keys_def)

lemma sample_accepted:
  "accepted (partition_append C) (part_accepts C) sample_batches (partition_with_config t p d sample_config [])"
  by (rule accepted_fresh)
    (simp_all add: no_files sample_config_def segment_config_default_def sample_batches_def sample_small
      batch_bytes_def, simp add: sample_message_def)

lemma sample_segment_accepted:
  "accepted (segment_append C) (seg_accepts C) [[sample_message, sample_message, sample_message]]
     (segment_create None None 7 sample_config)"
proof -
  have c: "sc_compression sample_config = CNone"
    by (simp add: sample_config_def segment_config_default_def)
  have "batch_fits C (segment_create None None 7 sample_config) [sample_message, sample_message, sample_message]"
    using plain_records [OF c, of "[sample_message, sample_message, sample_message]" C 7] sample_small
    by (simp add: batch_fits_def Let_def segment_create_def file_open_def batch_bytes_def del: records_for.simps)
      (simp add: sample_message_def)
  then show ?thesis by (simp add: seg_accepts_def)
qed

section \<open>Records\<close>

text \<open>
  C24. Decoding an encoded record gives the record back and leaves exactly the bytes after it,
  for every compression type, with or without a key, whatever follows.
\<close>

theorem record_roundtrip:
  assumes "codecs_ok C" and "record_fits C r"
  shows "\<exists>bs. encode C r = Ok bs \<and> (\<forall>rest. decode C (bs @ rest) = Ok (r, rest))"
  using encode_fits [OF assms(2)] decode_encode [OF assms] by blast

theorem record_roundtrip_witness:
  "\<exists>bs. encode demo_codecs sample_record = Ok bs \<and>
     (\<forall>rest. decode demo_codecs (bs @ rest) = Ok (sample_record, rest))"
  by (rule record_roundtrip [OF demo_codecs_ok sample_record_fits])

text \<open>
  A record of which the end is missing, at whatever byte it was cut, is reported as a storage error: it is
  neither taken for a record nor a panic.
\<close>

theorem record_cut_detected:
  assumes "record_fits C r" and "encode C r = Ok bs" and "n < length bs"
  shows "\<exists>e. decode C (take n bs) = Err (Storage e)"
  using decode_truncated [OF assms(1), of n] encode_fits [OF assms(1)] assms(2,3) by simp

theorem record_cut_detected_witness:
  "\<exists>e. decode demo_codecs (take 20 (enc_bytes demo_codecs sample_record)) = Err (Storage e)"
proof (rule record_cut_detected [OF sample_record_fits encode_fits [OF sample_record_fits]])
  have c: "sc_compression sample_config = CNone"
    by (simp add: sample_config_def segment_config_default_def)
  show "20 < length (enc_bytes demo_codecs sample_record)"
    using plain_record(2) [OF c sample_small, of demo_codecs 5] c
    by (simp add: sample_record_def record_for_def)
qed

text \<open>
  If the checksummed part of a stored record is replaced by other bytes of the same length
  whose checksum is different, reading the record reports corruption.
\<close>

theorem record_damage_detected:
  assumes "record_fits C r" and "encode C r = Ok bs" and "length bad = length bs - 16"
    and "crc32 C bad \<noteq> crc32 C (drop 16 bs)"
  shows "\<exists>e. decode C (take 16 bs @ bad @ rest) = Err (Corruption e)"
proof -
  obtain z where z: "compress C (dr_value r) (dr_compression r) = Ok z"
    and lay: "enc_bytes C r = u64_to_be_bytes (dr_offset r) @ u32_to_be_bytes (of_nat (body_size r z)) @
      u32_to_be_bytes (crc32 C (data_to_checksum r z)) @ data_to_checksum r z"
    using enc_bytes_layout [OF assms(1)] by blast
  have bs: "bs = enc_bytes C r" using encode_fits [OF assms(1)] assms(2) by simp
  have d: "drop 16 bs = data_to_checksum r z" using bs lay by simp
  then have "length bad = length (data_to_checksum r z)" using assms(3) by (metis length_drop)
  moreover have "crc32 C bad \<noteq> crc32 C (data_to_checksum r z)" using assms(4) unfolding d .
  ultimately show ?thesis unfolding bs by (rule decode_damaged [OF assms(1) z])
qed

theorem record_damage_detected_witness:
  "\<exists>e. decode demo_codecs (take 16 (enc_bytes demo_codecs sample_record) @
     map (\<lambda>b. if b = 5 then 6 else b) (drop 16 (enc_bytes demo_codecs sample_record)) @ []) = Err (Corruption e)"
proof (rule record_damage_detected [OF sample_record_fits encode_fits [OF sample_record_fits]])
  show "crc32 demo_codecs (map (\<lambda>b. if b = 5 then 6 else b) (drop 16 (enc_bytes demo_codecs sample_record))) \<noteq>
      crc32 demo_codecs (drop 16 (enc_bytes demo_codecs sample_record))"
    by code_simp
qed simp

section \<open>The index\<close>

text \<open>
  C25. In an index that was created and filled in the order of offsets, a lookup returns the
  position stored with the largest offset that is not above the target, and none when every offset
  is above it: the binary search never misses an entry and never reads out of bounds.
\<close>

theorem index_lookup_floor:
  assumes "sorted (map fst es)"
  shows "lookup (fold (\<lambda>(off, pos). index_append off pos) es (index_create None)) target =
           Ok (map_option snd (floor_entry es target))"
proof -
  have "index_view (fold (\<lambda>(off, pos). index_append off pos) es ix) (es0 @ es)"
    if "index_view ix es0" "index_writable ix" for ix es0
    using that
  proof (induction es arbitrary: ix es0)
    case (Cons e es)
    then show ?case
      using index_view_append [OF Cons.prems, of "fst e" "snd e"] Cons.IH [of _ "es0 @ [e]"]
      by (cases e) simp
  qed simp
  from this [of "index_create None" "[]"] show ?thesis
    using index_view_create assms by (intro lookup_floor) simp_all
qed

theorem index_lookup_floor_witness:
  "lookup (fold (\<lambda>(off, pos). index_append off pos) [(10, 0), (20, 300), (30, 700)] (index_create None)) 25 =
     Ok (map_option snd (floor_entry [(10, 0), (20, 300), (30, 700)] 25))"
  by (rule index_lookup_floor) simp



section \<open>Segments\<close>

lemma segment_filled:
  assumes "codecs_ok C" and "accepted (segment_append C) (seg_accepts C) bs (segment_create None None b cfg)"
    and "append_all (segment_append C) bs (segment_create None None b cfg) = (s, acks)"
  obtains rs where "seg_log C s rs" and "map to_message rs = concat bs" and "seg_base_offset s = b"
    and "acks = map (\<lambda>k. Ok (b + of_nat (length (concat (take k bs))))) [0..<length bs]"
proof -
  have "seg_log C (segment_create None None b cfg) []"
    using assms(1) segment_create_rep by (simp add: seg_log_def)
  from seglog.append_all_rep [OF this assms(2)] show thesis
    using assms(3) by (auto simp: segment_create_def intro!: that)
qed

lemma sample_segment_bytes:
  "length (contents (seg_log_file (fst (append_all (segment_append C)
     [[sample_message, sample_message, sample_message]] (segment_create None None 7 sample_config))))) = 114"
proof -
  let ?s = "segment_create None None 7 sample_config" and ?ms = "[sample_message, sample_message, sample_message]"
  have c: "sc_compression sample_config = CNone"
    by (simp add: sample_config_def segment_config_default_def)
  have s: "seg_config ?s = sample_config" "seg_next_offset ?s = 7" by (simp_all add: segment_create_def)
  have fits: "batch_fits C ?s ?ms" using sample_segment_accepted [of C] by (simp add: seg_accepts_def)
  obtain s' where "segment_append C ?ms ?s = (s', Ok 7)"
      "seg_rep C s' ([] @ records_for sample_config 7 ?ms)"
    by (rule segment_append_correct [OF segment_create_rep fits, unfolded s]) simp
  moreover have "batch_bytes ?ms = 114" by (simp add: batch_bytes_def) (simp add: sample_message_def)
  ultimately show ?thesis
    using plain_records(2) [OF c, of ?ms C 7] sample_small
    by (simp add: seg_rep_def seg_core_def del: records_for.simps)
qed

text \<open>
  A segment that was created and took a history of batches reads every message back at its
  offset, with that offset in the record, through the sparse index; offsets count up from the base
  offset, each batch is acknowledged with the offset of its first message, and an offset outside
  the segment is refused.
\<close>

theorem segment_history:
  assumes "codecs_ok C" and "accepted (segment_append C) (seg_accepts C) bs (segment_create None None b cfg)"
    and "append_all (segment_append C) bs (segment_create None None b cfg) = (s, acks)"
  shows "acks = map (\<lambda>k. Ok (b + of_nat (length (concat (take k bs))))) [0..<length bs] \<and>
         (\<forall>i<length (concat bs). \<exists>r. segment_read C s (b + of_nat i) = Ok r \<and>
            dr_offset r = b + of_nat i \<and> to_message r = concat bs ! i) \<and>
         (\<forall>off. off < b \<or> b + of_nat (length (concat bs)) \<le> off \<longrightarrow>
            segment_read C s off = Err (InvalidOffset off))"
proof -
  obtain rs where rs: "seg_log C s rs" "map to_message rs = concat bs" "seg_base_offset s = b"
    and acks: "acks = map (\<lambda>k. Ok (b + of_nat (length (concat (take k bs))))) [0..<length bs]"
    by (rule segment_filled [OF assms])
  have len: "length rs = length (concat bs)" using rs(2) by (metis length_map)
  have rd: "seg_readable C s rs" using rs(1) by (simp add: seg_log_def seg_rep_readable)
  then have c: "consecutive b rs" and nx: "seg_next_offset s = b + of_nat (length rs)"
    using rs(3) by (simp_all add: seg_readable_def)
  have "\<forall>i<length (concat bs). \<exists>r. segment_read C s (b + of_nat i) = Ok r \<and>
      dr_offset r = b + of_nat i \<and> to_message r = concat bs ! i"
    using segment_read_correct [OF assms(1) rd] rs(2,3) c len unfolding consecutive_def
    by (metis nth_map)
  moreover have "segment_read C s off = Err (InvalidOffset off)"
    if "off < b \<or> b + of_nat (length (concat bs)) \<le> off" for off
    using that nx rs(3) len by (auto simp: segment_read_def)
  ultimately show ?thesis using acks by blast
qed

theorem segment_history_witness:
  "\<exists>r. segment_read demo_codecs (fst (append_all (segment_append demo_codecs)
       [[sample_message, sample_message, sample_message]] (segment_create None None 7 sample_config))) 9 = Ok r \<and>
     dr_offset r = 9 \<and> to_message r = sample_message"
  using segment_history [OF demo_codecs_ok sample_segment_accepted surjective_pairing, THEN conjunct2, THEN conjunct1,
      rule_format, of 2]
  by simp

text \<open>
  C7. A crash that leaves any prefix of the log file: opening the segment succeeds, every record
  that is complete in the prefix is read back unchanged and the next offset continues after them.
  The one exception is a file that holds a part of its first record and nothing else: the next
  offset then skips the base offset.
\<close>

theorem segment_crash_recovery:
  assumes "codecs_ok C" and "accepted (segment_append C) (seg_accepts C) bs (segment_create None None b cfg)"
    and "append_all (segment_append C) bs (segment_create None None b cfg) = (s, acks)"
    and "n \<le> length (contents (seg_log_file s))"
  shows "\<exists>rs k s'. map to_message rs = concat bs \<and> k \<le> length rs \<and>
           rec_pos C rs k \<le> n \<and> (k < length rs \<longrightarrow> n < rec_pos C rs (Suc k)) \<and>
           segment_open C (Some (take n (contents (seg_log_file s))))
             (Some (contents (idx_file (seg_index s)))) b cfg' = Ok s' \<and>
           (\<forall>i<k. segment_read C s' (b + of_nat i) = Ok (rs ! i)) \<and>
           seg_next_offset s' = (if k = 0 \<and> 0 < n then b + 1 else b + of_nat k)"
proof -
  obtain rs where rs: "seg_log C s rs" "map to_message rs = concat bs" "seg_base_offset s = b"
    by (rule segment_filled [OF assms(1-3)])
  have core: "seg_core C s rs" using rs(1) by (simp add: seg_log_def seg_rep_def)
  then have "contents (seg_log_file s) = encode_all C rs" by (simp add: seg_core_def)
  then have "n \<le> length (encode_all C rs)" using assms(4) by simp
  from segment_open_truncated [OF assms(1) core this, of cfg'] obtain k s' where
    k: "k \<le> length rs" "rec_pos C rs k \<le> n" "k < length rs \<longrightarrow> n < rec_pos C rs (Suc k)"
      "segment_open C (Some (take n (contents (seg_log_file s))))
        (Some (contents (idx_file (seg_index s)))) b cfg' = Ok s'"
      "0 < k \<or> n = 0 \<longrightarrow> seg_readable C s' (take k rs)"
      "k = 0 \<longrightarrow> 0 < n \<longrightarrow> seg_next_offset s' = b + 1" "seg_base_offset s' = b"
    unfolding rs(3) by metis
  have "segment_read C s' (b + of_nat i) = Ok (rs ! i)" if "i < k" for i
    using segment_read_correct [OF assms(1), of s' "take k rs" i] k(1,5,7) that by simp
  moreover have "seg_next_offset s' = (if k = 0 \<and> 0 < n then b + 1 else b + of_nat k)"
    using k(1,5,6,7) by (auto simp: seg_readable_def)
  ultimately show ?thesis using rs(2) k(1-4) by blast
qed

theorem segment_crash_recovery_witness:
  "let s = fst (append_all (segment_append demo_codecs)
       [[sample_message, sample_message, sample_message]] (segment_create None None 7 sample_config)) in
   \<exists>rs k s'. map to_message rs = [sample_message, sample_message, sample_message] \<and> k \<le> length rs \<and>
     rec_pos demo_codecs rs k \<le> 50 \<and>
     segment_open demo_codecs (Some (take 50 (contents (seg_log_file s))))
       (Some (contents (idx_file (seg_index s)))) 7 sample_config = Ok s' \<and>
     seg_next_offset s' = (if k = 0 \<and> 0 < (50::nat) then 7 + 1 else 7 + of_nat k)"
proof -
  let ?s = "fst (append_all (segment_append demo_codecs)
      [[sample_message, sample_message, sample_message]] (segment_create None None 7 sample_config))"
  have "50 \<le> length (contents (seg_log_file ?s))"
    using sample_segment_bytes [of demo_codecs] by (simp del: append_all.simps)
  from segment_crash_recovery [OF demo_codecs_ok sample_segment_accepted surjective_pairing this, of sample_config]
  obtain rs k s' where "map to_message rs = concat [[sample_message, sample_message, sample_message]]"
      "k \<le> length rs" "rec_pos demo_codecs rs k \<le> 50"
      "segment_open demo_codecs (Some (take 50 (contents (seg_log_file ?s))))
         (Some (contents (idx_file (seg_index ?s)))) 7 sample_config = Ok s'"
      "seg_next_offset s' = (if k = 0 \<and> 0 < (50::nat) then 7 + 1 else 7 + of_nat k)"
    by (elim exE conjE)
  then show ?thesis
    unfolding Let_def by (intro exI [of _ rs] exI [of _ k] exI [of _ s'] conjI) simp_all
qed

end
