(* ===== verification/Log_Properties.thy ===== *)
theory Log_Properties
  imports Storage_Properties
begin

text \<open>
  The properties of partitions, topics and retention: the history of a partition, its recovery
  from disk, the isolation of partitions, and what retention deletes.
\<close>

section \<open>Lemmas on histories\<close>

lemma partition_append_names:
  assumes "partition_append C ms p = (p', r)"
  shows "p_topic_name p' = p_topic_name p \<and> p_partition_id p' = p_partition_id p"
  using assms by (auto simp: partition_append_def rotate_def Let_def split: if_splits prod.splits)

lemma append_all_names:
  assumes "append_all (partition_append C) bs p = (p', acks)"
  shows "p_topic_name p' = p_topic_name p \<and> p_partition_id p' = p_partition_id p"
  using assms
proof (induction bs arbitrary: p acks)
  case (Cons b bs)
  then show ?case by (auto split: prod.splits dest!: partition_append_names)
qed simp

text \<open>A partition created in a directory without segments, after a history of accepted batches.\<close>

lemma partition_filled:
  assumes "codecs_ok C" and "no_segment_files files" and "0 < sc_max_size cfg"
    and "accepted (partition_append C) (part_accepts C) bs (partition_with_config t pid d cfg files)"
    and "append_all (partition_append C) bs (partition_with_config t pid d cfg files) = (p, acks)"
  obtains rss where "part_log C p (history t pid (concat bs))" and "part_rep C p rss"
    and "map to_message (concat rss) = concat bs"
    and "p_topic_name p = t" and "p_partition_id p = pid"
    and "acks = map (\<lambda>k. Ok (of_nat (length (concat (take k bs))))) [0..<length bs]"
proof -
  have names: "p_topic_name p = t" "p_partition_id p = pid"
    using append_all_names [OF assms(5)] by (simp_all add: partition_with_config_def)
  from partlog.append_all_rep [OF partition_with_config_log [OF assms(1-3)] assms(4)]
  obtain recs where recs: "part_log C p recs" "map rec_message recs = concat bs"
    and acks: "acks = map (\<lambda>k. Ok (of_nat (length (concat (take k bs))))) [0..<length bs]"
    using assms(5) by auto
  obtain rss where rss: "part_rep C p rss" "recs = map (to_record t pid) (concat rss)"
    using recs(1) names by (auto simp: part_log_def)
  have "map to_message (concat rss) = map rec_message recs"
    by (simp add: rss(2) to_record_def o_def)
  then have msgs: "map to_message (concat rss) = concat bs" using recs(2) by (rule trans)
  have "recs = history t pid (concat bs)"
    using rss(2) to_record_history [OF rss(1)] msgs by simp
  with recs(1) have "part_log C p (history t pid (concat bs))" by simp
  from that [OF this rss(1) msgs names acks] show thesis .
qed

lemma sample_batches_length: "length (concat (butlast sample_batches)) = 3"
  by (simp add: sample_batches_def)

section \<open>Partitions\<close>

text \<open>
  C5. A partition created in a directory without segments and given any history of acceptable
  batches, over as many rotations as they cause: every batch is acknowledged with the number of
  messages before it, and a fetch from any offset, across segments, returns exactly the messages
  from there on up to the limit, in the order in which they were produced, each labelled with the
  topic, the partition and its position in the history.
\<close>

theorem partition_history:
  assumes "codecs_ok C" and "no_segment_files files" and "0 < sc_max_size cfg"
    and "accepted (partition_append C) (part_accepts C) bs (partition_with_config t pid d cfg files)"
    and "append_all (partition_append C) bs (partition_with_config t pid d cfg files) = (p, acks)"
  shows "acks = map (\<lambda>k. Ok (of_nat (length (concat (take k bs))))) [0..<length bs] \<and>
         (\<forall>off n. partition_fetch C p off n = Ok (take (unat n) (drop (unat off)
              (map (\<lambda>(j, m). \<lparr>rec_topic = t, rec_partition = pid, rec_offset = of_nat j, rec_message = m\<rparr>)
                (enumerate 0 (concat bs)))))) \<and>
         partition_next_offset p = of_nat (length (concat bs))"
proof -
  obtain rss where rss: "part_log C p (history t pid (concat bs))" "part_rep C p rss"
      "map to_message (concat rss) = concat bs"
      "acks = map (\<lambda>k. Ok (of_nat (length (concat (take k bs))))) [0..<length bs]"
    by (rule partition_filled [OF assms])
  have "length (concat rss) = length (concat bs)" using rss(3) by (metis length_map)
  then show ?thesis
    using part_log_fetch [OF rss(1)] part_rep_next_offset [OF rss(2)] rss(4) by simp
qed

theorem partition_history_witness:
  "partition_fetch demo_codecs (fst (append_all (partition_append demo_codecs) sample_batches
      (partition_with_config ''t'' 3 ''d'' sample_config []))) 2 1 =
     Ok [\<lparr>rec_topic = ''t'', rec_partition = 3, rec_offset = 2, rec_message = sample_message\<rparr>]"
proof -
  have pos: "0 < sc_max_size sample_config" by (simp add: sample_config_def)
  show ?thesis
    using partition_history [OF demo_codecs_ok no_files pos sample_accepted surjective_pairing,
        THEN conjunct2, THEN conjunct1, rule_format, of "''t''" 3 "''d''" 2 1]
    by (simp add: sample_batches_def del: append_all.simps)
qed

text \<open>
  The log is append-only: in a partition that holds some records, a further acceptable batch
  is acknowledged with the number of records before it, is fetched back at that offset, and leaves
  every fetch of older records as it was.
\<close>

theorem partition_append_only:
  assumes "part_log C p recs" and "part_accepts C p ms" and "partition_append C ms p = (p', r)"
  shows "r = Ok (of_nat (length recs)) \<and>
         (\<forall>i n. i + unat n \<le> length recs \<longrightarrow>
            partition_fetch C p' (of_nat i) n = partition_fetch C p (of_nat i) n) \<and>
         (\<exists>new. map rec_message new = ms \<and>
            (\<forall>n. length ms \<le> unat n \<longrightarrow> partition_fetch C p' (of_nat (length recs)) n = Ok new))"
proof -
  have "r = Ok (of_nat (length recs))"
    by (rule partlog.append_okE [OF assms(1,2)]) (use assms(3) in auto)
  then show ?thesis
    using partlog.history_stable [OF assms] partlog.read_your_writes [OF assms] by auto
qed

theorem partition_append_only_witness:
  "\<exists>p' new. partition_append demo_codecs [sample_message] (fst (append_all (partition_append demo_codecs)
       (butlast sample_batches) (partition_with_config ''t'' 3 ''d'' sample_config []))) = (p', Ok 3) \<and>
     map rec_message new = [sample_message] \<and> partition_fetch demo_codecs p' 3 9 = Ok new"
proof -
  let ?q = "partition_with_config ''t'' 3 ''d'' sample_config []"
  let ?p = "fst (append_all (partition_append demo_codecs) (butlast sample_batches) ?q)"
  have pos: "0 < sc_max_size sample_config" by (simp add: sample_config_def)
  have acc: "accepted (partition_append demo_codecs) (part_accepts demo_codecs) (butlast sample_batches) ?q"
    and last: "part_accepts demo_codecs ?p [sample_message]"
    using sample_accepted [of demo_codecs "''t''" 3 "''d''"]
    by (simp_all add: sample_batches_def split_beta)
  have log: "part_log demo_codecs ?p (history ''t'' 3 (concat (butlast sample_batches)))"
    by (rule partition_filled [OF demo_codecs_ok no_files pos acc surjective_pairing])
  have len: "length (history ''t'' 3 (concat (butlast sample_batches))) = 3"
    by (simp only: length_map length_enumerate sample_batches_length)
  obtain p' r where app: "partition_append demo_codecs [sample_message] ?p = (p', r)" by fastforce
  from partition_append_only [OF log last app, unfolded len] obtain new where
    "r = Ok (of_nat 3)" "map rec_message new = [sample_message]"
    "\<forall>n. length [sample_message] \<le> unat n \<longrightarrow> partition_fetch demo_codecs p' (of_nat 3) n = Ok new"
    by (elim conjE exE) metis
  then show ?thesis using app by (intro exI [of _ p'] exI [of _ new]) auto
qed

section \<open>Recovery\<close>

lemma append_all_other_ok:
  assumes "append_all (partition_append C) bs p = (p', acks)" and "hm_ok (p_other p)"
  shows "hm_ok (p_other p')"
  using assms
proof (induction bs arbitrary: p acks)
  case (Cons b bs)
  have "hm_ok (p_other (fst (partition_append C b p)))"
    using Cons.prems(2)
    by (simp add: partition_append_def rotate_def Let_def without_segment_def split: prod.split)
  then show ?case using Cons by (auto split: prod.splits)
qed simp

text \<open>
  C6. A restart: opening the directory that a history of batches left behind, however the
  operating system lists it and whatever configuration is used, succeeds, and the partition
  continues at the same offset and answers every fetch as before.
\<close>

theorem partition_restart:
  assumes "codecs_ok C" and "no_segment_files files" and "hm_ok files" and "0 < sc_max_size cfg"
    and "accepted (partition_append C) (part_accepts C) bs (partition_with_config t pid d cfg files)"
    and "append_all (partition_append C) bs (partition_with_config t pid d cfg files) = (p, acks)"
    and "mset listing = mset (partition_files p)"
  shows "\<exists>p'. open_with_config C t pid d cfg' (Some listing) = Ok p' \<and>
           partition_next_offset p' = partition_next_offset p \<and>
           (\<forall>off n. partition_fetch C p' off n = partition_fetch C p off n)"
proof -
  obtain rss where rss: "part_rep C p rss" "map to_message (concat rss) = concat bs"
      "p_topic_name p = t" "p_partition_id p = pid"
    by (rule partition_filled [OF assms(1,2,4-6)])
  have "hm_ok (p_other p)"
    using append_all_other_ok [OF assms(6)] assms(3)
    by (simp add: partition_with_config_def without_segment_def)
  then have "hm_ok listing"
    using hm_permuted(1) [OF assms(7)] partition_files_ok [OF rss(1)] by simp
  from open_with_config_recovers [OF assms(1) rss(1) assms(7) this, of t pid d cfg']
  obtain p' where p': "open_with_config C t pid d cfg' (Some listing) = Ok p'" "part_rep C p' rss"
      "p_topic_name p' = t" "p_partition_id p' = pid"
    by metis
  have "partition_fetch C p' off n = partition_fetch C p off n" for off n
    using partition_fetch_correct [OF assms(1) part_rep_view [OF p'(2)]]
      partition_fetch_correct [OF assms(1) part_rep_view [OF rss(1)]] p'(3,4) rss(3,4)
    by simp
  then show ?thesis
    using p'(1) part_rep_next_offset [OF p'(2)] part_rep_next_offset [OF rss(1)] by auto
qed

theorem partition_restart_witness:
  "let p = fst (append_all (partition_append demo_codecs) sample_batches
         (partition_with_config ''t'' 3 ''d'' sample_config [])) in
   \<exists>p'. open_with_config demo_codecs ''t'' 3 ''d'' segment_config_default (Some (rev (partition_files p))) = Ok p' \<and>
     partition_next_offset p' = partition_next_offset p"
proof -
  have pos: "0 < sc_max_size sample_config" by (simp add: sample_config_def)
  show ?thesis
    using partition_restart [OF demo_codecs_ok no_files hm_ok_Nil pos sample_accepted surjective_pairing mset_rev]
    unfolding Let_def by blast
qed

section \<open>Topics\<close>

text \<open>
  Partitions are isolated: an append through the topic manager changes what a fetch from the
  partition it names returns, by that partition's own append, and no fetch from another partition
  of any topic, whether the append succeeds or fails.
\<close>

theorem append_isolated:
  assumes "tm_append C name pid ms tm = (tm', r)" and "name' \<noteq> name \<or> pid' \<noteq> pid"
  shows "tm_fetch C tm' name' pid' off n = tm_fetch C tm name' pid' off n"
proof (cases "find_partition tm name pid")
  case (Ok p)
  obtain p' r' where "partition_append C ms p = (p', r')" by fastforce
  from tm_append_find [OF Ok this] show ?thesis
    using assms by (metis prod.inject tm_fetch_find)
next
  case (Err e)
  then have "tm_fetch C tm' name' q off n = tm_fetch C tm name' q off n" for name' q
    using assms(1)
    by (auto simp: tm_append_def find_partition_def get_topic_def topic_append_def put_topic_def tm_fetch_def
        outcome_simps hashmap_simps split: option.splits outcome.splits prod.splits)
  then show ?thesis by blast
next
  case Panic
  then show ?thesis
    by (cases "hm_get (tm_topics tm) name")
      (auto simp: find_partition_def get_topic_def get_partition_def outcome_simps split: if_splits)
qed

theorem append_isolated_witness:
  "let tm = fst (create_topic ''a'' 2 (tm_new ''d'' [])) in
   tm_fetch demo_codecs (fst (tm_append demo_codecs ''a'' 0 [sample_message] tm)) ''a'' 1 0 9 =
     tm_fetch demo_codecs tm ''a'' 1 0 9"
  unfolding Let_def by (rule append_isolated [OF surjective_pairing]) simp

text \<open>
  A topic reopened from its directory, however the directory is listed, when its partitions
  are numbered \<open>0, \<dots>, n - 1\<close>: every partition is there and answers every fetch as before.
\<close>

theorem topic_restart:
  assumes "codecs_ok C" and "list_all2 (part_rep C) (t_partitions t) rsss"
    and "list_all (\<lambda>p. p_topic_name p = t_name t \<and> hm_ok (p_other p)) (t_partitions t)"
    and "map p_partition_id (t_partitions t) = u32_range n" and "0 < n"
    and "partition_ids (hm_keys (t_other t)) = []"
    and "mset dirs = mset (topic_dirs t)" and "hm_ok dirs"
  shows "\<exists>t'. topic_open C (t_name t) data_dir (Some dirs) = Ok t' \<and> num_partitions t' = n \<and>
           (\<forall>q off m. topic_fetch C t' q off m = topic_fetch C t q off m)"
proof -
  have "list_all (\<lambda>p. hm_ok (partition_files p)) (t_partitions t)"
    using assms(2,3) partition_files_ok unfolding list_all2_conv_all_nth list_all_length by blast
  from topic_open_recovers [OF assms(1,2) this assms(4-8)] obtain t' where
    t': "topic_open C (t_name t) data_dir (Some dirs) = Ok t'"
      "list_all2 (part_rep C) (t_partitions t') rsss"
      "map p_partition_id (t_partitions t') = u32_range n"
      "list_all (\<lambda>p. p_topic_name p = t_name t) (t_partitions t')"
    by metis
  have len: "length (t_partitions t') = unat n" "length (t_partitions t) = unat n"
    using arg_cong [OF t'(3), of length] arg_cong [OF assms(4), of length] by simp_all
  have "topic_fetch C t' q off m = topic_fetch C t q off m" for q off m
  proof (cases "unat q < unat n")
    case True
    let ?p = "t_partitions t ! unat q" and ?p' = "t_partitions t' ! unat q"
    have "part_rep C ?p (rsss ! unat q)" "part_rep C ?p' (rsss ! unat q)"
      using True assms(2) t'(2) len by (simp_all add: list_all2_conv_all_nth)
    note fetches = this [THEN part_rep_view, THEN partition_fetch_correct [OF assms(1)]]
    have "p_partition_id ?p = p_partition_id ?p'" "p_topic_name ?p' = p_topic_name ?p"
      using True assms(3,4) t'(3,4) len by (simp_all add: list_all_length) (metis nth_map)
    then show ?thesis using True len fetches by (simp add: topic_fetch_def get_partition_def)
  next
    case False
    have "t_name t' = t_name t"
      using t'(1) by (auto simp: topic_open_def Let_def outcome_simps split: if_splits)
    then show ?thesis using False len by (simp add: topic_fetch_def get_partition_def)
  qed
  then show ?thesis using t'(1) len(1) by (auto simp: num_partitions_def)
qed

lemma sample_new_rep:
  shows "part_rep C (partition_new t i d []) [[]]" and "part_writable (partition_new t i d [])"
    and "hm_ok (p_other (partition_new t i d []))"
  using partition_with_config_rep [OF no_files, of segment_config_default]
  by (simp_all add: partition_new_def segment_config_default_def DEFAULT_MAX_SEGMENT_SIZE_def)
    (simp add: partition_with_config_def without_segment_def)

lemma sample_new_accepts: "part_accepts C (partition_new t i d []) [sample_message]"
proof (rule part_accepts_plain [OF sample_new_rep(1,2)])
  show "sc_compression (p_config (partition_new t i d [])) = CNone"
    by (simp add: partition_new_def partition_with_config_def segment_config_default_def)
  show "length (encode_all C (concat [[]])) + batch_bytes [sample_message] < 2 ^ 64"
    by (simp add: batch_bytes_def) (simp add: sample_message_def)
qed (simp_all add: sample_small)

lemma u32_range_2: "u32_range 2 = [0, 1]"
  by (simp add: u32_range_def upt_conv_Cons)

theorem topic_restart_witness:
  "let t = fst (topic_append demo_codecs 1 [sample_message] (topic_new ''t'' 2 ''d'' [])) in
   \<exists>t'. topic_open demo_codecs ''t'' ''d'' (Some (rev (topic_dirs t))) = Ok t' \<and> num_partitions t' = 2 \<and>
     (\<forall>q off m. topic_fetch demo_codecs t' q off m = topic_fetch demo_codecs t q off m)"
proof -
  let ?t0 = "topic_new ''t'' 2 ''d'' []" and ?p0 = "partition_new ''t'' 0 ''d'' []"
  let ?p1 = "partition_new ''t'' 1 ''d'' []"
  have parts: "t_partitions ?t0 = [?p0, ?p1]"
    by (simp add: topic_new_def u32_range_2 dir_of_def)
  obtain p' rss where p': "partition_append demo_codecs [sample_message] ?p1 = (p', Ok (of_nat (length (concat [[] :: disk_record list]))))"
      "part_rep demo_codecs p' rss" "p_topic_name p' = p_topic_name ?p1" "p_partition_id p' = p_partition_id ?p1"
    by (rule partition_append_correct [OF sample_new_rep(1,2) sample_new_accepts,
          of demo_codecs "''t''" 1 "''d''"])
  have names: "p_topic_name (partition_new ''t'' i ''d'' []) = ''t''"
      "p_partition_id (partition_new ''t'' i ''d'' []) = i" for i
    by (simp_all add: partition_new_def partition_with_config_def)
  have other: "hm_ok (p_other p')"
    using append_all_other_ok [of demo_codecs "[[sample_message]]" ?p1 p'] p'(1) sample_new_rep(3) by simp
  let ?t = "fst (topic_append demo_codecs 1 [sample_message] ?t0)"
  have t: "t_partitions ?t = [?p0, p']" "t_name ?t = ''t''" "t_other ?t = []"
    using p'(1) parts by (simp_all add: topic_append_def get_partition_def) (simp_all add: topic_new_def)
  have "\<exists>t'. topic_open demo_codecs (t_name ?t) ''d'' (Some (rev (topic_dirs ?t))) = Ok t' \<and>
      num_partitions t' = 2 \<and>
      (\<forall>q off m. topic_fetch demo_codecs t' q off m = topic_fetch demo_codecs ?t q off m)"
  proof (rule topic_restart [OF demo_codecs_ok])
    show "list_all2 (part_rep demo_codecs) (t_partitions ?t) [[[]], rss]"
      using t p'(2) sample_new_rep(1) by simp
    show "map p_partition_id (t_partitions ?t) = u32_range 2"
      using t(1) p'(4) names by (simp add: u32_range_2)
    show "hm_ok (rev (topic_dirs ?t))"
      using t(1,3) p'(4) names by (simp add: hm_ok_def topic_dirs_def)
    show "list_all (\<lambda>p. p_topic_name p = t_name ?t \<and> hm_ok (p_other p)) (t_partitions ?t)"
      using t(1,2) p'(3) names(1) other sample_new_rep(3) by simp
  qed (simp_all add: t(3) hm_keys_def)
  then show ?thesis unfolding Let_def t(2) .
qed

text \<open>
  Partitions are addressed by their position, not by their number: after a restart on a
  directory in which a number is missing, the partition that answers for the number of a request
  is the one whose number is at that position in the sorted directory, a different one.
\<close>

theorem topic_gap_misroutes:
  assumes "topic_open C name data_dir (Some dirs) = Ok t" and "get_partition t i = Ok p"
    and "i \<notin> set (partition_ids (hm_keys dirs))"
  shows "p_partition_id p = sort (partition_ids (hm_keys dirs)) ! unat i \<and> p_partition_id p \<noteq> i"
proof -
  let ?ids = "sort (partition_ids (hm_keys dirs))"
  have pos: "p_partition_id p = ?ids ! unat i" by (rule topic_open_position [OF assms(1,2)])
  have "length (t_partitions t) = length ?ids"
    by (rule topic_open_length [OF assms(1)])
  then have "?ids ! unat i \<in> set ?ids"
    using assms(2) by (intro nth_mem) (auto simp: get_partition_def split: if_splits)
  then show ?thesis using pos assms(3) by auto
qed

theorem topic_gap_misroutes_witness:
  "\<exists>t p. topic_open demo_codecs ''t'' ''d'' (Some (map (\<lambda>i. (partition_dir_name i,
       partition_files (partition_new ''t'' i ''d'' []))) [0, 2])) = Ok t \<and>
     get_partition t 1 = Ok p \<and> p_partition_id p = 2"
proof -
  let ?p = "\<lambda>i. partition_new ''t'' i ''d'' []"
  let ?dirs = "map (\<lambda>i. (partition_dir_name i, partition_files (?p i))) [0, 2]"
  have pid: "p_partition_id (?p i) = i" for i
    by (simp add: partition_new_def partition_with_config_def)
  have ids: "partition_ids (hm_keys ?dirs) = [0, 2]"
    using partition_ids_map_dir [of "\<lambda>i. i" "[0, 2]"] by (simp add: hm_keys_def del: partition_ids.simps)
  have "list_all2 (\<lambda>p rss. part_rep demo_codecs p rss \<and> hm_ok (partition_files p) \<and>
      hm_get ?dirs (partition_dir_name (p_partition_id p)) = Some (partition_files p)) [?p 0, ?p 2] [[[]], [[]]]"
    using sample_new_rep partition_files_ok [OF sample_new_rep(1,3)] by (simp add: pid)
  from open_partitions_recovers [OF demo_codecs_ok this, of "''t''" "''d''"]
  obtain ps where ps: "open_partitions demo_codecs ''t'' ''d'' ?dirs [0, 2] = Ok ps" "map p_partition_id ps = [0, 2]"
    by (auto simp: pid)
  define t where "t = \<lparr>t_name = ''t'', t_partitions = ps,
    t_other = filter (\<lambda>(d, _). d \<notin> partition_dir_name ` set [0, 2]) ?dirs\<rparr>"
  have op: "topic_open demo_codecs ''t'' ''d'' (Some ?dirs) = Ok t"
    using ps(1) ids by (simp add: topic_open_def Let_def t_def del: list.map)
  obtain p0 p2 where "ps = [p0, p2]" using ps(2) by auto
  then have "get_partition t 1 = Ok p2" by (simp add: get_partition_def t_def)
  then show ?thesis
    using op topic_gap_misroutes [OF op, of 1 p2] unfolding ids by auto
qed

section \<open>Retention\<close>

text \<open>
  C28. Retention deletes a run of the oldest segments: the base offsets it returns are those of
  the first \<open>k\<close> segments, at least the configured minimum is kept, and the policy asks for
  each deleted segment and for no further one, on the sizes that are left at that point. A log
  without a limit is never cut.
\<close>

theorem retention_deletes_prefix:
  assumes "sum_list (map (\<lambda>s. unat (sm_size s)) segs) < 2 ^ 64"
  shows "\<exists>k \<le> length segs. segments_to_delete cfg clock segs = map sm_base_offset (take k segs) \<and>
           (0 < k \<longrightarrow> rc_min_segments cfg \<le> length segs - k) \<and>
           (rc_policy cfg = Unlimited \<longrightarrow> k = 0) \<and>
           (\<forall>i<k. should_delete_segment cfg (age (clock i) (segs ! i))
              (of_nat (remaining_size segs i)) (length segs - i)) \<and>
           (k < length segs \<longrightarrow> \<not> should_delete_segment cfg (age (clock k) (segs ! k))
              (of_nat (remaining_size segs k)) (length segs - k))"
proof -
  let ?k = "deleted_count cfg clock segs"
  note spec = deleted_count_spec [OF assms, of cfg clock]
  have "?k - 1 < ?k \<longrightarrow> should_delete_segment cfg (age (clock (?k - 1)) (segs ! (?k - 1)))
      (of_nat (remaining_size segs (?k - 1))) (length segs - (?k - 1))"
    using spec by blast
  then have "0 < ?k \<longrightarrow> rc_min_segments cfg \<le> length segs - ?k \<and> rc_policy cfg \<noteq> Unlimited"
    by (auto simp: should_delete_segment_def split: if_splits)
  then show ?thesis
    using spec segments_to_delete_prefix [of cfg clock segs] deleted_count_le [of cfg clock segs]
    by (intro exI [of _ ?k]) auto
qed

definition sample_segments :: "segment_metadata list" where
  "sample_segments = [\<lparr>sm_base_offset = 0, sm_size = 100, sm_created_at = 0\<rparr>,
     \<lparr>sm_base_offset = 10, sm_size = 100, sm_created_at = 0\<rparr>,
     \<lparr>sm_base_offset = 20, sm_size = 100, sm_created_at = 0\<rparr>]"

theorem retention_deletes_prefix_witness:
  "\<exists>k \<le> length sample_segments. segments_to_delete (retention_size 250) (\<lambda>_. 0) sample_segments =
     map sm_base_offset (take k sample_segments)"
  using retention_deletes_prefix [of sample_segments "retention_size 250" "\<lambda>_. 0"]
  by (auto simp: sample_segments_def)

text \<open>
  Retention by size cuts exactly as much as is needed: what is left fits the limit, or the
  minimum number of segments is reached, and with one deletion less it would not fit.
\<close>

theorem retention_size_minimal:
  assumes "sum_list (map (\<lambda>s. unat (sm_size s)) segs) < 2 ^ 64"
    and "rc_policy cfg = Size max_size" and "segments_to_delete cfg clock segs = map sm_base_offset (take k segs)"
    and "k \<le> length segs"
  shows "(remaining_size segs k \<le> unat max_size \<or> length segs - k \<le> rc_min_segments cfg) \<and>
         (0 < k \<longrightarrow> unat max_size < remaining_size segs (k - 1))"
proof -
  have k: "deleted_count cfg clock segs = k" using assms(3,4) by (simp add: deleted_count_def)
  note spec = deleted_count_spec [OF assms(1), of cfg clock, unfolded k]
  have u: "unat (of_nat (remaining_size segs i) :: u64) = remaining_size segs i" for i
    unfolding cumulative_size [OF assms(1), of i, symmetric] by simp
  have test: "should_delete_segment cfg a (of_nat (remaining_size segs i)) n \<longleftrightarrow>
      rc_min_segments cfg < n \<and> unat max_size < remaining_size segs i" for a i n
    using assms(2) by (simp add: should_delete_segment_def word_less_nat_alt u)
  have "k = length segs \<Longrightarrow> remaining_size segs k = 0" by (simp add: remaining_size_def)
  then have "remaining_size segs k \<le> unat max_size \<or> length segs - k \<le> rc_min_segments cfg"
    using spec [THEN conjunct2] assms(4) unfolding test by linarith
  moreover have "unat max_size < remaining_size segs (k - 1)" if "0 < k"
    using spec [THEN conjunct1, rule_format, of "k - 1"] that unfolding test by simp
  ultimately show ?thesis by blast
qed

theorem retention_size_minimal_witness:
  "(remaining_size sample_segments 1 \<le> unat (250::u64) \<or>
      length sample_segments - 1 \<le> rc_min_segments (retention_size 250)) \<and>
   unat (250::u64) < remaining_size sample_segments 0"
  using retention_size_minimal [of sample_segments "retention_size 250" 250 "\<lambda>_. 0" 1]
  by
    (simp_all add: sample_segments_def retention_size_def segments_to_delete_def should_delete_segment_def Let_def)

end
