(* ===== verification/Coordinator.thy ===== *)
theory Coordinator
  imports Messages
begin

text \<open>
  \<open>broker/src/coordinator.rs\<close>: consumer groups. A rebalance gives every partition of the topics
  some member asks for to exactly one member, and the numbers of partitions of two members differ
  by at most one, whatever the iteration orders of the hash maps. The exclusive ownership is
  an invariant of every sequence of joins, leaves, heartbeats and timeouts. Instants and
  durations are numbers; the random part of a member id is a parameter.
\<close>

record group_member =
  gm_member_id :: string
  gm_topics :: "string list"
  gm_last_heartbeat :: nat
  gm_assignments :: "partition_assignment list"

record consumer_group =
  cg_group_id :: string
  cg_members :: "(string, group_member) hashmap"
  cg_generation :: u32

record group_coordinator =
  gc_groups :: "(string, consumer_group) hashmap"
  gc_heartbeat_timeout :: nat
  gc_topic_partitions :: "(string, u32) hashmap"

type_synonym order = "string list \<Rightarrow> string list"

section \<open>Operations on a group\<close>

definition consumer_group_new :: "string \<Rightarrow> consumer_group" where
  "consumer_group_new group_id = \<lparr>cg_group_id = group_id, cg_members = [], cg_generation = 0\<rparr>"

definition add_member :: "group_member \<Rightarrow> consumer_group \<Rightarrow> consumer_group" where
  "add_member m g = g\<lparr>cg_members := hm_insert (gm_member_id m) m (cg_members g)\<rparr>"

definition remove_member :: "string \<Rightarrow> consumer_group \<Rightarrow> consumer_group \<times> group_member option" where
  "remove_member member_id g =
     (g\<lparr>cg_members := hm_remove member_id (cg_members g)\<rparr>, hm_get (cg_members g) member_id)"

definition group_heartbeat :: "nat \<Rightarrow> string \<Rightarrow> consumer_group \<Rightarrow> consumer_group \<times> unit outcome" where
  "group_heartbeat now member_id g =
     (case hm_get (cg_members g) member_id of
        Some m \<Rightarrow> (g\<lparr>cg_members := hm_insert member_id (m\<lparr>gm_last_heartbeat := now\<rparr>) (cg_members g)\<rparr>, Ok ())
      | None \<Rightarrow> (g, Err (ConsumerNotFound member_id)))"

text \<open>\<open>Instant::duration_since\<close> saturates at zero, as subtraction of natural numbers does.\<close>

definition get_dead_members :: "nat \<Rightarrow> nat \<Rightarrow> consumer_group \<Rightarrow> string list" where
  "get_dead_members now timeout g =
     map fst (filter (\<lambda>(_, m). now - gm_last_heartbeat m > timeout) (cg_members g))"

definition all_topics :: "(string, group_member) hashmap \<Rightarrow> string list" where
  "all_topics ms = remdups (concat (map (\<lambda>(_, m). gm_topics m) ms))"

definition topic_assignments :: "(string, u32) hashmap \<Rightarrow> string \<Rightarrow> partition_assignment list" where
  "topic_assignments tps t =
     (case hm_get tps t of
        Some partition_count \<Rightarrow> map (partition_assignment_new t) (u32_range partition_count)
      | None \<Rightarrow> [])"

definition all_partitions ::
    "order \<Rightarrow> (string, u32) hashmap \<Rightarrow> (string, group_member) hashmap \<Rightarrow> partition_assignment list" where
  "all_partitions tord tps ms = concat (map (topic_assignments tps) (tord (all_topics ms)))"

fun assign_loop ::
    "string list \<Rightarrow> nat \<Rightarrow> partition_assignment list \<Rightarrow> (string, group_member) hashmap \<Rightarrow>
     (string, group_member) hashmap" where
  "assign_loop member_ids idx [] ms = ms"
| "assign_loop member_ids idx (p # ps) ms =
     (let member_id = member_ids ! (idx mod length member_ids) in
      assign_loop member_ids (idx + 1) ps
        (case hm_get ms member_id of
           Some m \<Rightarrow> hm_insert member_id (m\<lparr>gm_assignments := gm_assignments m @ [p]\<rparr>) ms
         | None \<Rightarrow> ms))"

definition clear_assignments :: "(string, group_member) hashmap \<Rightarrow> (string, group_member) hashmap" where
  "clear_assignments ms = map (\<lambda>(k, m). (k, m\<lparr>gm_assignments := []\<rparr>)) ms"

text \<open>\<open>tord\<close> and \<open>mord\<close> are the iteration orders of the set of topics and of the members.\<close>

definition rebalance :: "order \<Rightarrow> order \<Rightarrow> (string, u32) hashmap \<Rightarrow> consumer_group \<Rightarrow> consumer_group" where
  "rebalance tord mord tps g =
     (let g1 = g\<lparr>cg_generation := cg_generation g + 1\<rparr>;
          ps = all_partitions tord tps (cg_members g1);
          member_ids = mord (hm_keys (cg_members g1)) in
      if member_ids = [] then g1
      else g1\<lparr>cg_members := assign_loop member_ids 0 ps (clear_assignments (cg_members g1))\<rparr>)"

section \<open>Operations of the coordinator\<close>

definition group_coordinator_new :: "nat \<Rightarrow> group_coordinator" where
  "group_coordinator_new heartbeat_timeout =
     \<lparr>gc_groups = [], gc_heartbeat_timeout = heartbeat_timeout, gc_topic_partitions = []\<rparr>"

definition update_topic_partitions :: "string \<Rightarrow> u32 \<Rightarrow> group_coordinator \<Rightarrow> group_coordinator" where
  "update_topic_partitions t n gc = gc\<lparr>gc_topic_partitions := hm_insert t n (gc_topic_partitions gc)\<rparr>"

definition put_group :: "string \<Rightarrow> consumer_group \<Rightarrow> group_coordinator \<Rightarrow> group_coordinator" where
  "put_group group_id g gc = gc\<lparr>gc_groups := hm_insert group_id g (gc_groups gc)\<rparr>"

definition join_group ::
    "order \<Rightarrow> order \<Rightarrow> nat \<Rightarrow> string \<Rightarrow> string \<Rightarrow> string option \<Rightarrow> string list \<Rightarrow> group_coordinator \<Rightarrow>
     group_coordinator \<times> (string \<times> partition_assignment list) outcome" where
  "join_group tord mord now uuid group_id member_id topics gc =
     (let g = (case hm_get (gc_groups gc) group_id of Some g \<Rightarrow> g | None \<Rightarrow> consumer_group_new group_id);
          mid = (case member_id of Some m \<Rightarrow> m | None \<Rightarrow> group_id @ ''-'' @ take 8 uuid);
          m = \<lparr>gm_member_id = mid, gm_topics = topics, gm_last_heartbeat = now, gm_assignments = []\<rparr>;
          g' = rebalance tord mord (gc_topic_partitions gc) (add_member m g);
          asg = (case hm_get (cg_members g') mid of Some m \<Rightarrow> gm_assignments m | None \<Rightarrow> [])
      in (put_group group_id g' gc, Ok (mid, asg)))"

definition leave_group ::
    "order \<Rightarrow> order \<Rightarrow> string \<Rightarrow> string \<Rightarrow> group_coordinator \<Rightarrow> group_coordinator \<times> unit outcome" where
  "leave_group tord mord group_id member_id gc =
     (case hm_get (gc_groups gc) group_id of
        Some g \<Rightarrow>
          (case remove_member member_id g of
             (g', Some _) \<Rightarrow>
               (if cg_members g' \<noteq> [] then
                  (put_group group_id (rebalance tord mord (gc_topic_partitions gc) g') gc, Ok ())
                else (gc\<lparr>gc_groups := hm_remove group_id (gc_groups gc)\<rparr>, Ok ()))
           | (g', None) \<Rightarrow> (gc, Err (ConsumerNotFound member_id)))
      | None \<Rightarrow> (gc, Err (GroupNotFound group_id)))"

definition coordinator_heartbeat ::
    "nat \<Rightarrow> string \<Rightarrow> string \<Rightarrow> group_coordinator \<Rightarrow> group_coordinator \<times> bool outcome" where
  "coordinator_heartbeat now group_id member_id gc =
     (case hm_get (gc_groups gc) group_id of
        Some g \<Rightarrow>
          (case group_heartbeat now member_id g of
             (g', Ok _) \<Rightarrow> (put_group group_id g' gc, Ok False)
           | (g', Err e) \<Rightarrow> (gc, Err e)
           | (g', Panic) \<Rightarrow> (gc, Panic))
      | None \<Rightarrow> (gc, Err (GroupNotFound group_id)))"

text \<open>The first pass of \<open>check_heartbeats\<close> on a group; \<open>clock\<close> gives the instant it reads for it.\<close>

definition drop_dead :: "nat \<Rightarrow> nat \<Rightarrow> consumer_group \<Rightarrow> consumer_group" where
  "drop_dead now timeout g =
     fold (\<lambda>m g. fst (remove_member m g)) (get_dead_members now timeout g) g"

fun rebalance_groups ::
    "order \<Rightarrow> order \<Rightarrow> (string, u32) hashmap \<Rightarrow> string list \<Rightarrow> (string, consumer_group) hashmap \<Rightarrow>
     (string, consumer_group) hashmap" where
  "rebalance_groups tord mord tps [] groups = groups"
| "rebalance_groups tord mord tps (gid # gids) groups =
     rebalance_groups tord mord tps gids
       (case hm_get groups gid of
          Some g \<Rightarrow> if cg_members g \<noteq> [] then hm_insert gid (rebalance tord mord tps g) groups else groups
        | None \<Rightarrow> groups)"

definition check_heartbeats ::
    "order \<Rightarrow> order \<Rightarrow> order \<Rightarrow> (string \<Rightarrow> nat) \<Rightarrow> group_coordinator \<Rightarrow> group_coordinator" where
  "check_heartbeats gord tord mord clock gc =
     (let timeout = gc_heartbeat_timeout gc;
          affected = gord (map fst (filter (\<lambda>(gid, g). get_dead_members (clock gid) timeout g \<noteq> [])
                             (gc_groups gc)));
          groups1 = map (\<lambda>(gid, g). (gid, drop_dead (clock gid) timeout g)) (gc_groups gc);
          groups2 = rebalance_groups tord mord (gc_topic_partitions gc) affected groups1
      in gc\<lparr>gc_groups := filter (\<lambda>(gid, g). cg_members g \<noteq> []) groups2\<rparr>)"

definition get_groups :: "order \<Rightarrow> group_coordinator \<Rightarrow> string list" where
  "get_groups gord gc = gord (hm_keys (gc_groups gc))"

definition get_group_size :: "group_coordinator \<Rightarrow> string \<Rightarrow> nat option" where
  "get_group_size gc group_id = map_option (\<lambda>g. length (cg_members g)) (hm_get (gc_groups gc) group_id)"

section \<open>Round-robin shares\<close>

text \<open>What member number \<open>k\<close> of \<open>n\<close> gets when the next partition goes to number \<open>idx mod n\<close>.\<close>

fun share :: "nat \<Rightarrow> nat \<Rightarrow> nat \<Rightarrow> 'a list \<Rightarrow> 'a list" where
  "share n idx k [] = []"
| "share n idx k (p # ps) = (if idx mod n = k then [p] else []) @ share n (idx + 1) k ps"

lemma in_share_iff: "p \<in> set (share n idx k ps) \<longleftrightarrow> (\<exists>i<length ps. ps ! i = p \<and> (idx + i) mod n = k)"
proof (induction ps arbitrary: idx)
  case (Cons q ps)
  show ?case
  proof -
    have "p \<in> set (share n idx k (q # ps)) \<longleftrightarrow>
        (p = q \<and> idx mod n = k) \<or> (\<exists>i<length ps. ps ! i = p \<and> (Suc idx + i) mod n = k)"
      using Cons.IH [of "idx + 1"] by auto
    also have "\<dots> \<longleftrightarrow> (\<exists>i<length (q # ps). (q # ps) ! i = p \<and> (idx + i) mod n = k)"
      by (auto simp: Ex_less_Suc2)
    finally show ?thesis .
  qed
qed simp

lemma distinct_share: "distinct ps \<Longrightarrow> distinct (share n idx k ps)"
  by (induction ps arbitrary: idx) (auto simp: in_share_iff)

lemma share_snoc: "share n idx k (ps @ [p]) = share n idx k ps @ (if (idx + length ps) mod n = k then [p] else [])"
  by (induction ps arbitrary: idx) auto

lemma length_share:
  assumes "k < n"
  shows "length (share n 0 k ps) = length ps div n + (if k < length ps mod n then 1 else 0)"
proof (induction ps rule: rev_induct)
  case (snoc p ps)
  then show ?case using assms by (auto simp: share_snoc div_Suc mod_Suc split: if_splits)
qed simp

lemma share_balanced:
  assumes "j < n" and "k < n"
  shows "length (share n 0 j ps) \<le> length (share n 0 k ps) + 1"
  using assms by (simp add: length_share)

lemma share_exclusive:
  assumes "distinct ps" and "p \<in> set (share n 0 j ps)" and "p \<in> set (share n 0 k ps)"
  shows "j = k"
  using assms by (auto simp: in_share_iff nth_eq_iff_index_eq)

lemma share_covers: "0 < n \<Longrightarrow> p \<in> set ps \<Longrightarrow> \<exists>k<n. p \<in> set (share n 0 k ps)"
  unfolding in_share_iff by (metis add_0 in_set_conv_nth mod_less_divisor)

section \<open>Rebalancing\<close>

lemma assign_loop_keys [simp]: "hm_keys (assign_loop ids idx ps ms) = hm_keys ms"
proof (induction ids idx ps ms rule: assign_loop.induct)
  case (2 ids idx p ps ms)
  have "hm_get ms k = Some m \<Longrightarrow> hm_keys (hm_insert k m' ms) = hm_keys ms" for k m m'
    by (metis hm_get_in_keys hm_keys_def update_keys)
  then show ?case using 2 by (simp add: Let_def split: option.splits)
qed simp

lemma assign_loop_get:
  assumes "distinct ids" and "k < length ids"
  shows "hm_get (assign_loop ids idx ps ms) (ids ! k) =
           map_option (\<lambda>m. m\<lparr>gm_assignments := gm_assignments m @ share (length ids) idx k ps\<rparr>)
             (hm_get ms (ids ! k))"
  using assms
proof (induction ids idx ps ms rule: assign_loop.induct)
  case (1 ids idx ms)
  then show ?case by (cases "hm_get ms (ids ! k)") simp_all
next
  case (2 ids idx p ps ms)
  have "idx mod length ids < length ids" using "2.prems"(2) by (intro mod_less_divisor) linarith
  then have "ids ! k = ids ! (idx mod length ids) \<longleftrightarrow> idx mod length ids = k"
    using "2.prems" by (auto simp: nth_eq_iff_index_eq)
  then show ?case
    using 2 by (auto simp: Let_def hashmap_simps split: option.splits)
qed


text \<open>No partition belongs to two members, and none twice to one.\<close>

definition exclusive :: "consumer_group \<Rightarrow> bool" where
  "exclusive g \<longleftrightarrow>
     (\<forall>k m. hm_get (cg_members g) k = Some m \<longrightarrow> distinct (gm_assignments m)) \<and>
     (\<forall>k k' m m' p. hm_get (cg_members g) k = Some m \<longrightarrow> hm_get (cg_members g) k' = Some m' \<longrightarrow>
        p \<in> set (gm_assignments m) \<longrightarrow> p \<in> set (gm_assignments m') \<longrightarrow> k = k')"

lemma topic_assignments_topic: "p \<in> set (topic_assignments tps t) \<Longrightarrow> pa_topic p = t"
  by (auto simp: topic_assignments_def partition_assignment_new_def split: option.splits)

lemma distinct_topic_assignments: "distinct (topic_assignments tps t)"
  by (auto simp: topic_assignments_def distinct_map inj_on_def partition_assignment_new_def
      split: option.split)

lemma distinct_all_partitions:
  assumes "is_order tord"
  shows "distinct (all_partitions tord tps ms)"
proof -
  have "distinct ts \<Longrightarrow> distinct (concat (map (topic_assignments tps) ts))" for ts
    by (induction ts) (auto simp: distinct_topic_assignments dest: topic_assignments_topic)
  then show ?thesis using assms by (simp add: all_partitions_def all_topics_def)
qed

lemma in_all_partitions_iff:
  assumes "is_order tord"
  shows "p \<in> set (all_partitions tord tps ms) \<longleftrightarrow>
           (\<exists>(k, m) \<in> set ms. pa_topic p \<in> set (gm_topics m)) \<and>
           (\<exists>n. hm_get tps (pa_topic p) = Some n \<and> pa_partition p < n)"
proof -
  have "p \<in> set (topic_assignments tps t) \<longleftrightarrow>
      pa_topic p = t \<and> (\<exists>n. hm_get tps t = Some n \<and> pa_partition p < n)" for t
    by (cases p; cases "hm_get tps t")
      (auto simp: topic_assignments_def set_u32_range partition_assignment_new_def image_iff)
  then show ?thesis
    using assms by (auto simp: all_partitions_def all_topics_def)
qed

text \<open>A rebalance keeps the members and what they ask for.\<close>

lemma rebalance_members:
  assumes "hm_ok (cg_members g)" and "is_order mord"
  shows "hm_keys (cg_members (rebalance tord mord tps g)) = hm_keys (cg_members g)"
    and "hm_ok (cg_members (rebalance tord mord tps g))"
    and "cg_generation (rebalance tord mord tps g) = cg_generation g + 1"
    and "cg_group_id (rebalance tord mord tps g) = cg_group_id g"
proof -
  show keys: "hm_keys (cg_members (rebalance tord mord tps g)) = hm_keys (cg_members g)"
    by (simp add: rebalance_def Let_def) (simp add: clear_assignments_def hm_keys_def o_def split_beta)
  then show "hm_ok (cg_members (rebalance tord mord tps g))"
    using assms(1) by (simp add: hm_ok_def hm_keys_def)
qed (simp_all add: rebalance_def Let_def)

text \<open>The assignment of each member after a rebalance.\<close>

lemma rebalance_get:
  assumes "hm_ok (cg_members g)" and "is_order mord"
    and "k < length (cg_members g)"
  shows "hm_get (cg_members (rebalance tord mord tps g)) (mord (hm_keys (cg_members g)) ! k) =
           map_option (\<lambda>m. m\<lparr>gm_assignments :=
               share (length (cg_members g)) 0 k (all_partitions tord tps (cg_members g))\<rparr>)
             (hm_get (cg_members g) (mord (hm_keys (cg_members g)) ! k))"
proof -
  let ?ids = "mord (hm_keys (cg_members g))"
  have ids: "distinct ?ids" "length ?ids = length (cg_members g)"
    using assms(1,2) by (simp_all add: hm_ok_def hm_keys_def)
  have "?ids \<noteq> []" using ids(2) assms(3) by auto
  then have "cg_members (rebalance tord mord tps g) =
      assign_loop ?ids 0 (all_partitions tord tps (cg_members g)) (clear_assignments (cg_members g))"
    by (simp add: rebalance_def Let_def)
  then show ?thesis
    using assign_loop_get [OF ids(1), of k 0 "all_partitions tord tps (cg_members g)"
        "clear_assignments (cg_members g)"] ids(2) assms(3)
    by (simp add: clear_assignments_def hm_get_map option.map_comp o_def)
qed

lemma rebalance_getE:
  assumes "hm_ok (cg_members g)" and "is_order mord"
    and "hm_get (cg_members (rebalance tord mord tps g)) mid = Some m"
  obtains k m0 where "k < length (cg_members g)" and "mid = mord (hm_keys (cg_members g)) ! k"
    and "hm_get (cg_members g) mid = Some m0"
    and "m = m0\<lparr>gm_assignments :=
      share (length (cg_members g)) 0 k (all_partitions tord tps (cg_members g))\<rparr>"
proof -
  let ?ids = "mord (hm_keys (cg_members g))"
  have "mid \<in> set ?ids"
    using hm_get_in_keys [OF assms(3)] rebalance_members(1) [OF assms(1,2)] assms(2) by simp
  moreover have "length ?ids = length (cg_members g)" using assms(2) by (simp add: hm_keys_def)
  ultimately obtain k where k: "k < length (cg_members g)" "mid = ?ids ! k"
    by (metis in_set_conv_nth)
  then show thesis
    using that [OF k] rebalance_get [OF assms(1,2) k(1), of tord tps] assms(3) by auto
qed

lemma rebalance_share:
  assumes "hm_ok (cg_members g)" and "is_order mord"
    and "hm_get (cg_members (rebalance tord mord tps g)) mid = Some m"
  obtains k where "k < length (cg_members g)" and "mid = mord (hm_keys (cg_members g)) ! k"
    and "gm_assignments m = share (length (cg_members g)) 0 k (all_partitions tord tps (cg_members g))"
  by (rule rebalance_getE [OF assms]) (auto intro: that)

lemma rebalance_exclusive:
  assumes "hm_ok (cg_members g)" and "is_order tord" and "is_order mord"
  shows "exclusive (rebalance tord mord tps g)"
  unfolding exclusive_def
proof (intro conjI allI impI)
  let ?ps = "all_partitions tord tps (cg_members g)"
  have dist: "distinct ?ps" by (rule distinct_all_partitions [OF assms(2)])
  show "distinct (gm_assignments m)" if "hm_get (cg_members (rebalance tord mord tps g)) k = Some m" for k m
    by (rule rebalance_share [OF assms(1,3) that]) (simp add: distinct_share [OF dist])
  show "k = k'" if k: "hm_get (cg_members (rebalance tord mord tps g)) k = Some m"
    and k': "hm_get (cg_members (rebalance tord mord tps g)) k' = Some m'"
    and p: "p \<in> set (gm_assignments m)" "p \<in> set (gm_assignments m')" for k k' m m' p
  proof -
    obtain j where j: "k = mord (hm_keys (cg_members g)) ! j"
        "gm_assignments m = share (length (cg_members g)) 0 j ?ps"
      by (rule rebalance_share [OF assms(1,3) k])
    obtain j' where j': "k' = mord (hm_keys (cg_members g)) ! j'"
        "gm_assignments m' = share (length (cg_members g)) 0 j' ?ps"
      by (rule rebalance_share [OF assms(1,3) k'])
    show ?thesis using share_exclusive [OF dist, of p] p j j' by metis
  qed
qed

lemma rebalance_covers:
  assumes "hm_ok (cg_members g)" and "is_order tord" and "is_order mord" and "cg_members g \<noteq> []"
    and "p \<in> set (all_partitions tord tps (cg_members g))"
  shows "\<exists>k m. hm_get (cg_members (rebalance tord mord tps g)) k = Some m \<and> p \<in> set (gm_assignments m)"
proof -
  let ?ids = "mord (hm_keys (cg_members g))"
  obtain k where k: "k < length (cg_members g)"
      "p \<in> set (share (length (cg_members g)) 0 k (all_partitions tord tps (cg_members g)))"
    using share_covers [OF _ assms(5)] assms(4) by blast
  have "?ids ! k \<in> set (hm_keys (cg_members g))"
    using k(1) assms(3) by (metis hm_keys_def length_map nth_mem order_length order_set)
  then obtain m where "hm_get (cg_members g) (?ids ! k) = Some m"
    by (auto simp: in_hm_keys_iff)
  from rebalance_get [OF assms(1,3) k(1), of tord tps] this k(2) show ?thesis
    by (intro exI conjI) (assumption | simp)+
qed

lemma rebalance_balanced:
  assumes "hm_ok (cg_members g)" and "is_order mord"
    and "hm_get (cg_members (rebalance tord mord tps g)) k = Some m"
    and "hm_get (cg_members (rebalance tord mord tps g)) k' = Some m'"
  shows "length (gm_assignments m) \<le> length (gm_assignments m') + 1"
proof -
  obtain j where "j < length (cg_members g)" "gm_assignments m =
      share (length (cg_members g)) 0 j (all_partitions tord tps (cg_members g))"
    by (rule rebalance_share [OF assms(1,2,3)])
  moreover obtain j' where "j' < length (cg_members g)" "gm_assignments m' =
      share (length (cg_members g)) 0 j' (all_partitions tord tps (cg_members g))"
    by (rule rebalance_share [OF assms(1,2,4)])
  ultimately show ?thesis using share_balanced by metis
qed

section \<open>Heartbeats\<close>

lemma drop_dead_members:
  "cg_members (fold (\<lambda>m g. fst (remove_member m g)) ks g) =
     filter (\<lambda>(k, _). k \<notin> set ks) (cg_members g)"
proof (induction ks arbitrary: g)
  case (Cons k ks)
  have "filter (\<lambda>(k', _). k' \<notin> set ks) (filter (\<lambda>(k', _). k \<noteq> k') ms) =
      filter (\<lambda>(k', _). k' \<notin> set (k # ks)) ms" for ms :: "(string \<times> group_member) list"
    by (induction ms) auto
  then show ?case using Cons by (simp add: remove_member_def AList.delete_eq)
qed simp

lemma drop_dead_fields [frame_simps]:
  "cg_group_id (drop_dead now to g) = cg_group_id g"
  "cg_generation (drop_dead now to g) = cg_generation g"
proof -
  have "cg_group_id (fold (\<lambda>m g. fst (remove_member m g)) ks g) = cg_group_id g \<and>
      cg_generation (fold (\<lambda>m g. fst (remove_member m g)) ks g) = cg_generation g" for ks
    by (induction ks arbitrary: g) (simp_all add: remove_member_def)
  then show "cg_group_id (drop_dead now to g) = cg_group_id g"
    and "cg_generation (drop_dead now to g) = cg_generation g"
    by (simp_all add: drop_dead_def)
qed

lemma drop_dead_get:
  assumes "hm_ok (cg_members g)"
  shows "hm_get (cg_members (drop_dead now to g)) k =
           (case hm_get (cg_members g) k of
              None \<Rightarrow> None
            | Some m \<Rightarrow> if now - gm_last_heartbeat m > to then None else Some m)"
proof -
  have "k \<in> set (get_dead_members now to g) \<longleftrightarrow>
      (\<exists>m. hm_get (cg_members g) k = Some m \<and> now - gm_last_heartbeat m > to)" for k
    using assms by (force simp: get_dead_members_def hm_get_eq_Some)
  then show ?thesis
    using assms unfolding drop_dead_def drop_dead_members
    by (auto simp: hm_get_filter split: option.splits)
qed

lemma drop_dead_ok: "hm_ok (cg_members g) \<Longrightarrow> hm_ok (cg_members (drop_dead now to g))"
  by (simp add: drop_dead_def drop_dead_members)

lemma drop_dead_none: "get_dead_members now to g = [] \<Longrightarrow> drop_dead now to g = g"
  by (simp add: drop_dead_def)

lemma rebalance_groups_get:
  assumes "distinct gids"
  shows "hm_get (rebalance_groups tord mord tps gids groups) gid =
           map_option (\<lambda>g. if gid \<in> set gids \<and> cg_members g \<noteq> [] then rebalance tord mord tps g else g)
             (hm_get groups gid)"
  using assms
proof (induction gids arbitrary: groups)
  case (Cons a gids)
  then show ?case
    by (cases "hm_get groups gid") (auto simp: hashmap_simps split: option.splits)
qed (simp add: option.map_id0 [unfolded id_def])

lemma rebalance_groups_ok: "hm_ok groups \<Longrightarrow> hm_ok (rebalance_groups tord mord tps gids groups)"
  by (induction gids arbitrary: groups) (auto split: option.splits)

text \<open>What a heartbeat check makes of each group.\<close>

definition checked_group ::
    "order \<Rightarrow> order \<Rightarrow> (string, u32) hashmap \<Rightarrow> nat \<Rightarrow> nat \<Rightarrow> consumer_group \<Rightarrow> consumer_group option" where
  "checked_group tord mord tps now timeout g =
     (let g' = drop_dead now timeout g in
      if cg_members g' = [] then None
      else if get_dead_members now timeout g = [] then Some g
      else Some (rebalance tord mord tps g'))"

lemma rebalance_not_empty:
  "hm_ok (cg_members g) \<Longrightarrow> is_order mord \<Longrightarrow>
     cg_members (rebalance tord mord tps g) = [] \<longleftrightarrow> cg_members g = []"
  by (metis hm_keys_def map_is_Nil_conv rebalance_members(1))

lemma check_heartbeats_get:
  assumes "hm_ok (gc_groups gc)" and "\<And>gid g. hm_get (gc_groups gc) gid = Some g \<Longrightarrow> hm_ok (cg_members g)"
    and "is_order gord" and "is_order mord"
  shows "hm_get (gc_groups (check_heartbeats gord tord mord clock gc)) gid =
           (case hm_get (gc_groups gc) gid of
              None \<Rightarrow> None
            | Some g \<Rightarrow> checked_group tord mord (gc_topic_partitions gc) (clock gid) (gc_heartbeat_timeout gc) g)"
proof -
  let ?to = "gc_heartbeat_timeout gc" and ?gs = "gc_groups gc"
  let ?dead = "filter (\<lambda>(gid, g). get_dead_members (clock gid) ?to g \<noteq> []) ?gs"
  let ?aff = "gord (map fst ?dead)"
  let ?g1 = "map (\<lambda>(gid, g). (gid, drop_dead (clock gid) ?to g)) ?gs"
  let ?g2 = "rebalance_groups tord mord (gc_topic_partitions gc) ?aff ?g1"
  have "hm_ok ?dead" by (simp add: assms(1))
  then have dist: "distinct ?aff" using assms(3) by (simp add: hm_ok_def)
  have aff: "gid \<in> set ?aff \<longleftrightarrow> (\<exists>g. hm_get ?gs gid = Some g \<and> get_dead_members (clock gid) ?to g \<noteq> [])" for gid
    using assms(1,3) by (force simp: hm_get_eq_Some)
  have ok2: "hm_ok ?g2" by (rule rebalance_groups_ok) (simp add: assms(1))
  have "hm_get (gc_groups (check_heartbeats gord tord mord clock gc)) gid =
      (case hm_get ?g2 gid of None \<Rightarrow> None | Some g \<Rightarrow> if cg_members g \<noteq> [] then Some g else None)"
    using ok2 by (simp add: check_heartbeats_def Let_def hm_get_filter)
  moreover have "hm_get ?g2 gid = map_option (\<lambda>g. if gid \<in> set ?aff \<and> cg_members g \<noteq> []
      then rebalance tord mord (gc_topic_partitions gc) g else g)
      (map_option (drop_dead (clock gid) ?to) (hm_get ?gs gid))"
    by (simp add: rebalance_groups_get [OF dist] hm_get_map)
  ultimately show ?thesis
    using assms(2) [of gid] aff [of gid] assms(4)
    by (auto simp: checked_group_def Let_def drop_dead_none rebalance_not_empty drop_dead_ok split: option.splits)
qed

section \<open>The coordinator as a state machine\<close>

definition coord_ok :: "group_coordinator \<Rightarrow> bool" where
  "coord_ok gc \<longleftrightarrow>
     hm_ok (gc_groups gc) \<and>
     (\<forall>gid g. hm_get (gc_groups gc) gid = Some g \<longrightarrow>
        hm_ok (cg_members g) \<and> cg_members g \<noteq> [] \<and> cg_group_id g = gid \<and> exclusive g)"

inductive coord_step :: "group_coordinator \<Rightarrow> group_coordinator \<Rightarrow> bool" where
  Update: "coord_step gc (update_topic_partitions t n gc)"
| Join: "is_order tord \<Longrightarrow> is_order mord \<Longrightarrow>
    coord_step gc (fst (join_group tord mord now uuid gid mid topics gc))"
| Leave: "is_order tord \<Longrightarrow> is_order mord \<Longrightarrow> coord_step gc (fst (leave_group tord mord gid mid gc))"
| Heartbeat: "coord_step gc (fst (coordinator_heartbeat now gid mid gc))"
| Check: "is_order gord \<Longrightarrow> is_order tord \<Longrightarrow> is_order mord \<Longrightarrow>
    coord_step gc (check_heartbeats gord tord mord clock gc)"

inductive_cases coord_stepE: "coord_step gc gc'"

lemma coord_okD:
  assumes "coord_ok gc" and "hm_get (gc_groups gc) gid = Some g"
  shows "hm_ok (cg_members g)" and "cg_members g \<noteq> []" and "cg_group_id g = gid" and "exclusive g"
  using assms by (auto simp: coord_ok_def)

lemma coord_ok_put:
  assumes "coord_ok gc" and "hm_ok (cg_members g)" and "cg_members g \<noteq> []" and "cg_group_id g = gid"
    and "exclusive g"
  shows "coord_ok (put_group gid g gc)"
  using assms by (auto simp: coord_ok_def put_group_def hashmap_simps split: if_splits)

lemma coord_ok_put_rebalance:
  assumes "coord_ok gc" and "hm_ok (cg_members g)" and "cg_members g \<noteq> []" and "cg_group_id g = gid"
    and "is_order tord" and "is_order mord"
  shows "coord_ok (put_group gid (rebalance tord mord tps g) gc)"
  using assms rebalance_members [OF assms(2,6)] rebalance_exclusive [OF assms(2,5,6)]
  by (intro coord_ok_put) (simp_all add: rebalance_not_empty)

lemma exclusive_mono:
  assumes "exclusive g"
    and "\<And>k m. hm_get (cg_members g') k = Some m \<Longrightarrow>
      \<exists>m0. hm_get (cg_members g) k = Some m0 \<and> gm_assignments m0 = gm_assignments m"
  shows "exclusive g'"
  unfolding exclusive_def
proof (intro conjI allI impI)
  show "distinct (gm_assignments m)" if "hm_get (cg_members g') k = Some m" for k m
    using assms(1) assms(2) [OF that] unfolding exclusive_def by metis
  show "k = k'" if k: "hm_get (cg_members g') k = Some m" and k': "hm_get (cg_members g') k' = Some m'"
    and p: "p \<in> set (gm_assignments m)" "p \<in> set (gm_assignments m')" for k k' m m' p
  proof -
    obtain m0 m0' where "hm_get (cg_members g) k = Some m0" "gm_assignments m0 = gm_assignments m"
      "hm_get (cg_members g) k' = Some m0'" "gm_assignments m0' = gm_assignments m'"
      using assms(2) [OF k] assms(2) [OF k'] by blast
    then show ?thesis using assms(1) p unfolding exclusive_def by metis
  qed
qed

lemma join_groupE:
  assumes "coord_ok gc" and "join_group tord mord now uuid gid mid topics gc = (gc', r)"
  obtains g m where "hm_ok (cg_members g)" and "cg_members g \<noteq> []"
    and "hm_get (gc_groups gc') gid = Some (rebalance tord mord (gc_topic_partitions gc) g)"
    and "r = Ok (m, case hm_get (cg_members (rebalance tord mord (gc_topic_partitions gc) g)) m of
                      Some x \<Rightarrow> gm_assignments x | None \<Rightarrow> [])"
    and "gc_topic_partitions gc' = gc_topic_partitions gc"
    and "hm_get (cg_members g) m \<noteq> None" and "mid \<noteq> None \<longrightarrow> mid = Some m"
proof -
  let ?old = "case hm_get (gc_groups gc) gid of Some g \<Rightarrow> g | None \<Rightarrow> consumer_group_new gid"
  let ?m = "case mid of Some m \<Rightarrow> m | None \<Rightarrow> gid @ ''-'' @ take 8 uuid"
  let ?g = "add_member \<lparr>gm_member_id = ?m, gm_topics = topics, gm_last_heartbeat = now, gm_assignments = []\<rparr> ?old"
  have "hm_ok (cg_members ?old)"
    by (cases "hm_get (gc_groups gc) gid") (simp_all add: consumer_group_new_def coord_okD [OF assms(1)])
  then have g: "hm_ok (cg_members ?g)" "cg_members ?g \<noteq> []" "hm_get (cg_members ?g) ?m \<noteq> None"
    by (simp_all add: add_member_def hashmap_simps)
  let ?g' = "rebalance tord mord (gc_topic_partitions gc) ?g"
  have gc': "gc' = put_group gid ?g' gc"
    and r: "r = Ok (?m, case hm_get (cg_members ?g') ?m of Some x \<Rightarrow> gm_assignments x | None \<Rightarrow> [])"
    using assms(2) unfolding join_group_def Let_def by (metis prod.inject)+
  have "hm_get (gc_groups gc') gid = Some ?g'" "gc_topic_partitions gc' = gc_topic_partitions gc"
    by (simp_all add: gc' put_group_def hashmap_simps)
  moreover have "mid \<noteq> None \<longrightarrow> mid = Some ?m" by (cases mid) simp_all
  ultimately show thesis using g r by (intro that [of ?g ?m])
qed

lemma join_group_ok:
  assumes "coord_ok gc" and "is_order tord" and "is_order mord"
  shows "coord_ok (fst (join_group tord mord now uuid gid mid topics gc))"
proof -
  let ?g = "case hm_get (gc_groups gc) gid of Some g \<Rightarrow> g | None \<Rightarrow> consumer_group_new gid"
  have "hm_ok (cg_members ?g)" "cg_group_id ?g = gid"
    using assms(1) by (auto simp: consumer_group_new_def dest: coord_okD split: option.splits)
  then show ?thesis
    using assms by (simp add: join_group_def Let_def) (intro coord_ok_put_rebalance, simp_all add: add_member_def)
qed

lemma leave_group_ok:
  assumes "coord_ok gc" and "is_order tord" and "is_order mord"
  shows "coord_ok (fst (leave_group tord mord gid mid gc))"
proof (cases "hm_get (gc_groups gc) gid")
  case (Some g)
  have "coord_ok (gc\<lparr>gc_groups := hm_remove gid (gc_groups gc)\<rparr>)"
    using assms(1) by (auto simp: coord_ok_def hashmap_simps split: if_splits)
  then show ?thesis
    using assms Some coord_okD [OF assms(1) Some]
    by (auto simp: leave_group_def remove_member_def split: option.splits
        intro!: coord_ok_put_rebalance)
qed (simp add: leave_group_def assms)

lemma heartbeat_ok:
  assumes "coord_ok gc"
  shows "coord_ok (fst (coordinator_heartbeat now gid mid gc))"
proof (cases "hm_get (gc_groups gc) gid")
  case (Some g)
  show ?thesis
  proof (cases "hm_get (cg_members g) mid")
    case m: (Some m)
    let ?g = "g\<lparr>cg_members := hm_insert mid (m\<lparr>gm_last_heartbeat := now\<rparr>) (cg_members g)\<rparr>"
    have "exclusive ?g"
      by (rule exclusive_mono [OF coord_okD(4) [OF assms Some]])
        (auto simp: hashmap_simps m split: if_splits)
    then have "coord_ok (put_group gid ?g gc)"
      using coord_okD [OF assms Some] by (intro coord_ok_put [OF assms]) simp_all
    then show ?thesis using Some m by (simp add: coordinator_heartbeat_def group_heartbeat_def)
  qed (simp add: coordinator_heartbeat_def group_heartbeat_def Some assms)
qed (simp add: coordinator_heartbeat_def assms)

lemma check_heartbeats_ok:
  assumes "coord_ok gc" and "is_order gord" and "is_order tord" and "is_order mord"
  shows "coord_ok (check_heartbeats gord tord mord clock gc)"
  unfolding coord_ok_def
proof (intro conjI allI impI)
  have "hm_ok (gc_groups gc)" using assms(1) by (simp add: coord_ok_def)
  then show "hm_ok (gc_groups (check_heartbeats gord tord mord clock gc))"
    by (simp add: check_heartbeats_def Let_def rebalance_groups_ok)
  fix gid g'
  assume "hm_get (gc_groups (check_heartbeats gord tord mord clock gc)) gid = Some g'"
  then obtain g where g: "hm_get (gc_groups gc) gid = Some g"
      "checked_group tord mord (gc_topic_partitions gc) (clock gid) (gc_heartbeat_timeout gc) g = Some g'"
    using check_heartbeats_get [OF \<open>hm_ok (gc_groups gc)\<close> coord_okD(1) [OF assms(1)] assms(2,4)]
    by (auto split: option.splits)
  note ok = coord_okD [OF assms(1) g(1)]
  let ?d = "drop_dead (clock gid) (gc_heartbeat_timeout gc) g"
  consider "g' = g" | "g' = rebalance tord mord (gc_topic_partitions gc) ?d" "cg_members ?d \<noteq> []"
    using g(2) by (auto simp: checked_group_def Let_def split: if_splits)
  then have "hm_ok (cg_members g') \<and> cg_members g' \<noteq> [] \<and> cg_group_id g' = gid \<and> exclusive g'"
  proof cases
    case 2
    have d: "hm_ok (cg_members ?d)" by (rule drop_dead_ok [OF ok(1)])
    then show ?thesis
      using 2 ok(3) rebalance_members [OF d assms(4)] rebalance_exclusive [OF d assms(3,4)]
      by (simp add: rebalance_not_empty assms(4) frame_simps)
  qed (use ok in simp)
  then show "hm_ok (cg_members g')" "cg_members g' \<noteq> []" "cg_group_id g' = gid" "exclusive g'"
    by blast+
qed

lemma update_topic_partitions_ok: "coord_ok gc \<Longrightarrow> coord_ok (update_topic_partitions t n gc)"
  by (simp add: update_topic_partitions_def coord_ok_def)

lemma coord_step_ok: "coord_step gc gc' \<Longrightarrow> coord_ok gc \<Longrightarrow> coord_ok gc'"
  by (elim coord_stepE)
    (auto intro: update_topic_partitions_ok join_group_ok leave_group_ok heartbeat_ok check_heartbeats_ok)

lemma coord_reach_ok: "coord_step\<^sup>*\<^sup>* (group_coordinator_new timeout) gc \<Longrightarrow> coord_ok gc"
proof (induction rule: rtranclp_induct)
  case base
  then show ?case by (simp add: coord_ok_def group_coordinator_new_def)
qed (rule coord_step_ok)

end
