(* ===== verification/Offset_Manager.thy ===== *)
theory Offset_Manager
  imports Partition_Log
begin

text \<open>
  \<open>broker/src/offset_manager.rs\<close>: the offsets consumer groups have committed, in memory and in one
  text file per group. A broker that starts on the directory of another one finds every offset
  that was committed for groups with a name and topics without separators; a topic with a separator is read
  back as another key or not at all.
\<close>

type_synonym offset_key = "string \<times> string \<times> u32"

text \<open>\<open>om_files\<close> is the directory of offset files, with the text of each.\<close>

record offset_manager =
  om_offsets :: "(offset_key, u64) hashmap"
  om_data_dir :: string
  om_files :: "(string, string) hashmap"

definition offset_manager_new :: "string \<Rightarrow> (string, string) hashmap \<Rightarrow> offset_manager" where
  "offset_manager_new data_dir files =
     \<lparr>om_offsets = [], om_data_dir = path_join data_dir ''offsets'', om_files = files\<rparr>"

section \<open>Text\<close>

definition newline :: char where "newline = CHR 0x0A"

definition strip_cr :: "string \<Rightarrow> string" where
  "strip_cr l = (if l \<noteq> [] \<and> last l = CHR 0x0D then butlast l else l)"

text \<open>\<open>str::lines\<close>: \<open>acc\<close> is the line being read, reversed.\<close>

fun split_lines :: "string \<Rightarrow> string \<Rightarrow> string list" where
  "split_lines acc [] = (if acc = [] then [] else [rev acc])"
| "split_lines acc (c # cs) =
     (if c = newline then strip_cr (rev acc) # split_lines [] cs else split_lines (c # acc) cs)"

definition lines :: "string \<Rightarrow> string list" where
  "lines s = split_lines [] s"

definition split_once :: "char \<Rightarrow> string \<Rightarrow> (string \<times> string) option" where
  "split_once c s =
     (case dropWhile (\<lambda>x. x \<noteq> c) s of
        [] \<Rightarrow> None
      | _ # rest \<Rightarrow> Some (takeWhile (\<lambda>x. x \<noteq> c) s, rest))"

section \<open>Operations\<close>

definition parse_line :: "string \<Rightarrow> ((string \<times> u32) \<times> u64) option" where
  "parse_line line =
     (case split_once (CHR ''='') line of
        None \<Rightarrow> None
      | Some (key, val) \<Rightarrow>
          (case split_once (CHR '':'') key of
             None \<Rightarrow> None
           | Some (topic, partition_str) \<Rightarrow>
               (case (parse_uint 32 partition_str, parse_uint 64 val) of
                  (Some p, Some off) \<Rightarrow> Some ((topic, of_nat p), of_nat off)
                | _ \<Rightarrow> None)))"

fun load_lines ::
    "string \<Rightarrow> string list \<Rightarrow> (offset_key, u64) hashmap \<Rightarrow> (offset_key, u64) hashmap" where
  "load_lines group_id [] offsets = offsets"
| "load_lines group_id (l # ls) offsets =
     load_lines group_id ls
       (case parse_line l of
          Some ((topic, p), off) \<Rightarrow> hm_insert (group_id, topic, p) off offsets
        | None \<Rightarrow> offsets)"

fun load_files ::
    "(string \<times> string) list \<Rightarrow> (offset_key, u64) hashmap \<Rightarrow> (offset_key, u64) hashmap" where
  "load_files [] offsets = offsets"
| "load_files ((name, text) # entries) offsets =
     load_files entries
       (case split_extension name of
          (group_id, Some ext) \<Rightarrow>
            (if ext = ''offsets'' then load_lines group_id (lines text) offsets else offsets)
        | (_, None) \<Rightarrow> offsets)"

text \<open>\<open>ford\<close> is the order in which the directory is listed.\<close>

definition om_load ::
    "((string \<times> string) list \<Rightarrow> (string \<times> string) list) \<Rightarrow> offset_manager \<Rightarrow> offset_manager" where
  "om_load ford om = om\<lparr>om_offsets := load_files (ford (om_files om)) (om_offsets om)\<rparr>"

definition offset_line :: "(string \<times> u32) \<times> u64 \<Rightarrow> string" where
  "offset_line e =
     (case e of ((topic, p), off) \<Rightarrow> topic @ '':'' @ show_word p @ ''='' @ show_word off @ [newline])"

definition group_entries ::
    "string \<Rightarrow> (offset_key, u64) hashmap \<Rightarrow> ((string \<times> u32) \<times> u64) list" where
  "group_entries group_id offsets =
     map (\<lambda>((_, topic, p), off). ((topic, p), off)) (filter (\<lambda>((gid, _, _), _). gid = group_id) offsets)"

definition offsets_file :: "string \<Rightarrow> string" where
  "offsets_file group_id = group_id @ ''.offsets''"

text \<open>\<open>eord\<close> is the order in which the map is iterated.\<close>

type_synonym entry_order = "((string \<times> u32) \<times> u64) list \<Rightarrow> ((string \<times> u32) \<times> u64) list"

definition persist_group :: "entry_order \<Rightarrow> string \<Rightarrow> offset_manager \<Rightarrow> offset_manager" where
  "persist_group eord group_id om =
     om\<lparr>om_files := hm_insert (offsets_file group_id)
           (concat (map offset_line (eord (group_entries group_id (om_offsets om))))) (om_files om)\<rparr>"

definition om_commit_offset ::
    "entry_order \<Rightarrow> string \<Rightarrow> string \<Rightarrow> u32 \<Rightarrow> u64 \<Rightarrow> offset_manager \<Rightarrow> offset_manager \<times> unit outcome" where
  "om_commit_offset eord group_id topic p off om =
     (persist_group eord group_id
        (om\<lparr>om_offsets := hm_insert (group_id, topic, p) off (om_offsets om)\<rparr>), Ok ())"

definition om_fetch_offset :: "offset_manager \<Rightarrow> string \<Rightarrow> string \<Rightarrow> u32 \<Rightarrow> u64 option outcome" where
  "om_fetch_offset om group_id topic p = Ok (hm_get (om_offsets om) (group_id, topic, p))"

definition get_group_offsets :: "offset_manager \<Rightarrow> string \<Rightarrow> (string \<times> u32, u64) hashmap" where
  "get_group_offsets om group_id = group_entries group_id (om_offsets om)"

definition om_delete_group :: "string \<Rightarrow> offset_manager \<Rightarrow> offset_manager \<times> unit outcome" where
  "om_delete_group group_id om =
     (om\<lparr>om_offsets := filter (\<lambda>((gid, _, _), _). gid \<noteq> group_id) (om_offsets om),
         om_files := hm_remove (offsets_file group_id) (om_files om)\<rparr>, Ok ())"

section \<open>Lines of offsets\<close>

text \<open>A topic name that the line format can carry.\<close>

definition plain_topic :: "string \<Rightarrow> bool" where
  "plain_topic t \<longleftrightarrow> CHR ''='' \<notin> set t \<and> CHR '':'' \<notin> set t \<and> newline \<notin> set t"

lemma split_once_append: "c \<notin> set xs \<Longrightarrow> split_once c (xs @ c # ys) = Some (xs, ys)"
proof -
  assume c: "c \<notin> set xs"
  have "dropWhile (\<lambda>x. x \<noteq> c) (xs @ c # ys) = c # ys" "takeWhile (\<lambda>x. x \<noteq> c) (xs @ c # ys) = xs"
    using c by (subst dropWhile_append2 takeWhile_append2, auto)+
  then show ?thesis by (simp add: split_once_def)
qed

lemma show_word_chars:
  "CHR ''='' \<notin> set (show_word w)" "CHR '':'' \<notin> set (show_word w)" "newline \<notin> set (show_word w)"
  "CHR 0x0D \<notin> set (show_word w)"
  unfolding show_word_def newline_def by (intro show_nat_no_sep; simp)+

definition line_text :: "(string \<times> u32) \<times> u64 \<Rightarrow> string" where
  "line_text e = (case e of ((topic, p), off) \<Rightarrow> topic @ '':'' @ show_word p @ ''='' @ show_word off)"

lemma parse_line_text:
  assumes "plain_topic (fst (fst e))"
  shows "parse_line (line_text e) = Some e"
proof -
  obtain t p off where e: "e = ((t, p), off)" by (metis surj_pair)
  have "split_once (CHR ''='') (line_text e) = Some (t @ '':'' @ show_word p, show_word off)"
    using split_once_append [of "CHR ''=''" "t @ '':'' @ show_word p" "show_word off"] assms e
    by (simp add: line_text_def plain_topic_def show_word_chars)
  moreover have "split_once (CHR '':'') (t @ '':'' @ show_word p) = Some (t, show_word p)"
    using split_once_append [of "CHR '':''" t "show_word p"] assms e by (simp add: plain_topic_def)
  ultimately show ?thesis
    using unat_u32_less [of p] unat_u64_less [of off] e by (simp add: parse_line_def show_word_def)
qed

lemma split_lines_append:
  "newline \<notin> set xs \<Longrightarrow>
     split_lines acc (xs @ newline # ys) = strip_cr (rev acc @ xs) # split_lines [] ys"
  by (induction xs arbitrary: acc) auto

lemma strip_cr_line: "strip_cr (line_text e) = line_text e"
proof -
  obtain t p off where e: "e = ((t, p), off)" by (metis surj_pair)
  have "last (line_text e) = last (show_word off)"
    using e by (simp add: line_text_def show_word_def)
  moreover have "last (show_word off) \<in> set (show_word off)" by (simp add: show_word_def)
  ultimately show ?thesis using show_word_chars(4) [of off] by (metis strip_cr_def)
qed

lemma newline_line_text: "plain_topic (fst (fst e)) \<Longrightarrow> newline \<notin> set (line_text e)"
  by (cases e rule: prod.exhaust [case_product prod.exhaust])
    (auto simp: line_text_def plain_topic_def show_word_chars; simp add: newline_def)

lemma offset_line_text: "offset_line e = line_text e @ [newline]"
  by (cases e) (auto simp: offset_line_def line_text_def)

lemma lines_offset_append:
  assumes "\<forall>e \<in> set es. plain_topic (fst (fst e))"
  shows "lines (concat (map offset_line es) @ rest) = map line_text es @ lines rest"
  using assms
proof (induction es)
  case (Cons e es)
  then show ?case
    using newline_line_text [of e] split_lines_append [of "line_text e" "[]"]
    by (simp add: lines_def strip_cr_line offset_line_text)
qed simp

lemma lines_offset_lines:
  "\<forall>e \<in> set es. plain_topic (fst (fst e)) \<Longrightarrow> lines (concat (map offset_line es)) = map line_text es"
  using lines_offset_append [of es "[]"] by (simp add: lines_def)

lemma split_lines_last: "newline \<notin> set xs \<Longrightarrow> acc @ xs \<noteq> [] \<Longrightarrow> split_lines acc xs = [rev acc @ xs]"
  by (induction xs arbitrary: acc) auto

text \<open>A line that lost its end is read like any other.\<close>

lemma lines_torn:
  assumes "\<forall>e \<in> set (es @ [e]). plain_topic (fst (fst e))"
  shows "lines (concat (map offset_line es) @ line_text e) = map line_text (es @ [e])"
proof -
  have "line_text e \<noteq> []" by (cases e) (auto simp: line_text_def)
  then have "lines (line_text e) = [line_text e]"
    using assms newline_line_text [of e] split_lines_last [of "line_text e" "[]"] by (simp add: lines_def)
  then show ?thesis using assms lines_offset_append [of es "line_text e"] by simp
qed

lemma load_lines_get:
  assumes "\<forall>e \<in> set es. plain_topic (fst (fst e))" and "distinct (map fst es)"
  shows "hm_get (load_lines g (map line_text es) offsets) (g', t, p) =
           (if g' = g then (case map_of es (t, p) of Some off \<Rightarrow> Some off | None \<Rightarrow> hm_get offsets (g', t, p))
            else hm_get offsets (g', t, p))"
  using assms
proof (induction es arbitrary: offsets)
  case (Cons e es)
  obtain t0 p0 off where e: "e = ((t0, p0), off)" by (metis surj_pair)
  have "parse_line (line_text e) = Some ((t0, p0), off)"
    using parse_line_text [of e] Cons.prems(1) e by simp
  moreover have "map_of es (t0, p0) = None"
    using Cons.prems(2) e by (auto simp: map_of_eq_None_iff)
  ultimately show ?case
    using Cons e by (auto simp: hashmap_simps split: option.splits)
qed simp

lemma load_lines_other: "g' \<noteq> g \<Longrightarrow> hm_get (load_lines g ls offsets) (g', t, p) = hm_get offsets (g', t, p)"
  by (induction ls arbitrary: offsets) (auto simp: hashmap_simps split: option.splits)

section \<open>Files of offsets\<close>

lemma split_extension_SomeD:
  assumes "split_extension name = (stem, Some ext)"
  shows "name = stem @ CHR ''.'' # ext"
proof -
  let ?d = "dropWhile (\<lambda>c. c \<noteq> CHR ''.'') (rev name)" and ?w = "takeWhile (\<lambda>c. c \<noteq> CHR ''.'') (rev name)"
  have s: "stem = butlast (rev ?d)" "ext = rev ?w" "1 < length ?d"
    using assms by (auto simp: split_extension_def Let_def split: if_splits)
  have d: "?d \<noteq> []" using s(3) by (cases ?d) simp_all
  then have "last (rev ?d) = CHR ''.''" using hd_dropWhile [OF d] by (simp add: last_rev)
  then have "rev ?d = stem @ [CHR ''.'']"
    using s(1) d append_butlast_last_id [of "rev ?d"] by simp
  moreover have "name = rev ?d @ rev ?w" by (metis rev_append rev_rev_ident takeWhile_dropWhile_id)
  ultimately show ?thesis using s(2) by simp
qed

lemma split_offsets_file: "g \<noteq> [] \<Longrightarrow> split_extension (offsets_file g) = (g, Some ''offsets'')"
  by (simp add: offsets_file_def split_extension_append)

lemma offsets_file_inject [simp]: "offsets_file g = offsets_file g' \<longleftrightarrow> g = g'"
  by (simp add: offsets_file_def)

lemma load_files_skip:
  assumes "name \<noteq> offsets_file g"
  obtains offs' where "load_files ((name, body) # fs) offs = load_files fs offs'"
    and "hm_get offs' (g, t, p) = hm_get offs (g, t, p)"
proof (cases "snd (split_extension name) = Some ''offsets''")
  case True
  then obtain g' where g': "split_extension name = (g', Some ''offsets'')" by (metis prod.collapse)
  have "g' \<noteq> g" using split_extension_SomeD [OF g'] assms by (auto simp: offsets_file_def)
  then show thesis using that g' load_lines_other [of g g'] by simp
next
  case False
  moreover obtain st ex where "split_extension name = (st, ex)" by (cases "split_extension name")
  ultimately show thesis using that [of offs] by (cases ex) auto
qed

lemma load_files_absent:
  assumes "hm_get files (offsets_file g) = None"
  shows "hm_get (load_files files offsets) (g, t, p) = hm_get offsets (g, t, p)"
  using assms
proof (induction files arbitrary: offsets)
  case (Cons f fs)
  obtain name body where f: "f = (name, body)" by (cases f)
  then have "name \<noteq> offsets_file g" using Cons.prems by (auto split: if_splits)
  then obtain offs' where "load_files ((name, body) # fs) offsets = load_files fs offs'"
      "hm_get offs' (g, t, p) = hm_get offsets (g, t, p)"
    by (rule load_files_skip)
  then show ?case using Cons f by (simp split: if_splits)
qed simp

lemma load_files_present:
  assumes "g \<noteq> []" and "hm_ok files" and "hm_get files (offsets_file g) = Some body" and "lines body = map line_text es"
    and "\<forall>e \<in> set es. plain_topic (fst (fst e))" and "distinct (map fst es)"
  shows "hm_get (load_files files offsets) (g, t, p) =
           (case map_of es (t, p) of Some off \<Rightarrow> Some off | None \<Rightarrow> hm_get offsets (g, t, p))"
  using assms(2,3)
proof (induction files arbitrary: offsets)
  case (Cons f fs)
  obtain name body' where f: "f = (name, body')" by (cases f)
  show ?case
  proof (cases "name = offsets_file g")
    case True
    then have "hm_get fs (offsets_file g) = None" "body' = body"
      using Cons.prems f by (auto simp: hm_ok_def map_of_eq_None_iff)
    then show ?thesis
      using f True load_files_absent [of fs g] load_lines_get [OF assms(5,6), of g]
      by (simp add: split_offsets_file [OF assms(1)] assms(4))
  next
    case False
    then obtain offs' where "load_files ((name, body') # fs) offsets = load_files fs offs'"
        "hm_get offs' (g, t, p) = hm_get offsets (g, t, p)"
      by (rule load_files_skip)
    then show ?thesis using Cons f False by (auto simp: hm_ok_def split: option.split)
  qed
qed simp

lemma load_files_ok: "hm_ok offsets \<Longrightarrow> hm_ok (load_files files offsets)"
proof (induction files arbitrary: offsets)
  case (Cons f fs)
  have "hm_ok offs \<Longrightarrow> hm_ok (load_lines g ls offs)" for g ls offs
    by (induction ls arbitrary: offs) (auto split: option.splits)
  then show ?case using Cons by (cases f) (auto split: prod.split option.split)
qed simp

section \<open>Memory and disk agree\<close>

lemma set_hm_insert: "set (hm_insert k v m) \<subseteq> insert (k, v) (set m)"
  by (induction m) auto

lemma group_entries_in:
  "((t, p), off) \<in> set (group_entries g m) \<longleftrightarrow> ((g, t, p), off) \<in> set m"
  by (force simp: group_entries_def)

lemma group_entries_distinct:
  assumes "hm_ok m"
  shows "distinct (map fst (group_entries g m))"
  using assms
proof (induction m)
  case (Cons e m)
  obtain g1 t1 p1 off where e: "e = ((g1, t1, p1), off)" by (metis surj_pair)
  have "(t1, p1) \<notin> fst ` set (group_entries g1 m)"
    using Cons.prems e group_entries_in [of t1 p1 _ g1 m] by (force simp: hm_ok_def)
  moreover have "group_entries g (e # m) = (if g1 = g then [((t1, p1), off)] else []) @ group_entries g m"
    by (simp add: group_entries_def e)
  ultimately show ?case using Cons by (auto simp: hm_ok_def)
qed (simp add: group_entries_def)

lemma group_entries_get:
  assumes "hm_ok m"
  shows "map_of (group_entries g m) (t, p) = hm_get m (g, t, p)"
proof -
  have "map_of (group_entries g m) (t, p) = Some off \<longleftrightarrow> hm_get m (g, t, p) = Some off" for off
    using group_entries_distinct [OF assms, of g] assms
    by (simp add: group_entries_in hm_ok_def)
  then show ?thesis by (metis not_None_eq)
qed

lemma group_entries_mset:
  assumes "hm_ok m" and "hm_ok m'" and "\<And>t p. hm_get m (g, t, p) = hm_get m' (g, t, p)"
  shows "mset (group_entries g m) = mset (group_entries g m')"
proof -
  have "e \<in> set (group_entries g m) \<longleftrightarrow> e \<in> set (group_entries g m')" for e
  proof -
    obtain t p off where "e = ((t, p), off)" by (metis surj_pair)
    then show ?thesis
      using assms by (simp add: group_entries_in flip: hm_get_eq_Some)
  qed
  then show ?thesis
    using group_entries_distinct [OF assms(1), of g] group_entries_distinct [OF assms(2), of g]
    by (intro iffD1 [OF set_eq_iff_mset_eq_distinct]) (auto simp: distinct_map)
qed

definition file_synced :: "(string, string) hashmap \<Rightarrow> (offset_key, u64) hashmap \<Rightarrow> string \<Rightarrow> bool" where
  "file_synced files m g \<longleftrightarrow>
     (case hm_get files (offsets_file g) of
        None \<Rightarrow> group_entries g m = []
      | Some body \<Rightarrow> \<exists>es. mset es = mset (group_entries g m) \<and> body = concat (map offset_line es))"

definition plain_keys :: "(offset_key, u64) hashmap \<Rightarrow> bool" where
  "plain_keys m \<longleftrightarrow> (\<forall>g t p off. hm_get m (g, t, p) = Some off \<longrightarrow> g \<noteq> [] \<and> plain_topic t)"

lemma plain_keys_mono:
  assumes "plain_keys m"
    and "\<And>g t p off. hm_get m' (g, t, p) = Some off \<Longrightarrow> (g \<noteq> [] \<and> plain_topic t) \<or> hm_get m (g, t, p) = Some off"
  shows "plain_keys m'"
  using assms unfolding plain_keys_def by blast

definition om_synced :: "offset_manager \<Rightarrow> bool" where
  "om_synced om \<longleftrightarrow>
     hm_ok (om_offsets om) \<and> hm_ok (om_files om) \<and>
     plain_keys (om_offsets om) \<and>
     (\<forall>g. g \<noteq> [] \<longrightarrow> file_synced (om_files om) (om_offsets om) g)"

lemma file_synced_cong:
  assumes "mset (group_entries g m) = mset (group_entries g m')"
    and "hm_get files (offsets_file g) = hm_get files' (offsets_file g)"
  shows "file_synced files m g \<longleftrightarrow> file_synced files' m' g"
proof -
  have "group_entries g m = [] \<longleftrightarrow> group_entries g m' = []" using assms(1) by (metis mset_zero_iff)
  then show ?thesis using assms by (simp add: file_synced_def split: option.split)
qed

text \<open>An abstract store of offsets: a map, on which a restart does nothing.\<close>

datatype om_op =
    OmCommit entry_order string string u32 u64
  | OmDelete string
  | OmRestart "(string \<times> string) list \<Rightarrow> (string \<times> string) list"

fun om_exec :: "string \<Rightarrow> om_op \<Rightarrow> offset_manager \<Rightarrow> offset_manager" where
  "om_exec d (OmCommit eord g t p off) om = fst (om_commit_offset eord g t p off om)"
| "om_exec d (OmDelete g) om = fst (om_delete_group g om)"
| "om_exec d (OmRestart ford) om = om_load ford (offset_manager_new d (om_files om))"

fun om_spec :: "om_op \<Rightarrow> (offset_key \<rightharpoonup> u64) \<Rightarrow> (offset_key \<rightharpoonup> u64)" where
  "om_spec (OmCommit eord g t p off) \<sigma> = \<sigma>((g, t, p) \<mapsto> off)"
| "om_spec (OmDelete g) \<sigma> = (\<lambda>(g', t, p). if g' = g then None else \<sigma> (g', t, p))"
| "om_spec (OmRestart ford) \<sigma> = \<sigma>"

fun om_op_ok :: "om_op \<Rightarrow> bool" where
  "om_op_ok (OmCommit eord g t p off) \<longleftrightarrow> is_order eord \<and> g \<noteq> [] \<and> plain_topic t"
| "om_op_ok (OmDelete g) \<longleftrightarrow> True"
| "om_op_ok (OmRestart ford) \<longleftrightarrow> is_order ford"

lemma om_commit_synced:
  assumes "om_synced om" and "is_order eord" and "g \<noteq> []" and "plain_topic t"
  shows "om_synced (fst (om_commit_offset eord g t p off om))"
    and "hm_get (om_offsets (fst (om_commit_offset eord g t p off om))) =
           (hm_get (om_offsets om))((g, t, p) \<mapsto> off)"
proof -
  let ?m = "hm_insert (g, t, p) off (om_offsets om)"
  let ?files = "hm_insert (offsets_file g) (concat (map offset_line (eord (group_entries g ?m)))) (om_files om)"
  have ok: "hm_ok (om_offsets om)" "hm_ok (om_files om)" "hm_ok ?m"
    using assms(1) by (simp_all add: om_synced_def)
  have om: "fst (om_commit_offset eord g t p off om) = om\<lparr>om_offsets := ?m, om_files := ?files\<rparr>"
    by (simp add: om_commit_offset_def persist_group_def)
  have "file_synced ?files ?m g'" if "g' \<noteq> []" for g'
  proof (cases "g' = g")
    case True
    then show ?thesis
      using order_mset [OF assms(2)] by (auto simp: file_synced_def hashmap_simps)
  next
    case False
    have "file_synced (om_files om) (om_offsets om) g'" using assms(1) that by (simp add: om_synced_def)
    moreover have "mset (group_entries g' ?m) = mset (group_entries g' (om_offsets om))"
      using False ok by (intro group_entries_mset) (simp_all add: hashmap_simps)
    ultimately show ?thesis
      using False file_synced_cong [of g' ?m "om_offsets om" ?files "om_files om"]
      by (simp add: hashmap_simps)
  qed
  then show "om_synced (fst (om_commit_offset eord g t p off om))"
    using ok assms plain_keys_mono [of "om_offsets om" ?m] unfolding om om_synced_def
    by (simp add: hashmap_simps split: if_splits)
  show "hm_get (om_offsets (fst (om_commit_offset eord g t p off om))) =
      (hm_get (om_offsets om))((g, t, p) \<mapsto> off)"
    by (simp add: om update_conv')
qed

lemma hm_get_delete_group:
  assumes "hm_ok m"
  shows "hm_get (filter (\<lambda>((gid, _, _), _). gid \<noteq> g) m) (g', t, p) =
           (if g' = g then None else hm_get m (g', t, p))"
proof -
  have "filter (\<lambda>((gid, _, _), _). gid \<noteq> g) m = filter (\<lambda>(k, v). fst k \<noteq> g) m"
    by (rule filter_cong) auto
  then show ?thesis using hm_get_filter [OF assms, of "\<lambda>k v. fst k \<noteq> g"] by (auto split: option.splits)
qed

lemma om_delete_synced:
  assumes "om_synced om"
  shows "om_synced (fst (om_delete_group g om))"
    and "hm_get (om_offsets (fst (om_delete_group g om))) (g', t, p) =
           (if g' = g then None else hm_get (om_offsets om) (g', t, p))"
proof -
  let ?m = "filter (\<lambda>((gid, _, _), _). gid \<noteq> g) (om_offsets om)"
  let ?files = "hm_remove (offsets_file g) (om_files om)"
  have ok: "hm_ok (om_offsets om)" "hm_ok (om_files om)" "hm_ok ?m" "hm_ok ?files"
    using assms by (simp_all add: om_synced_def)
  have plain: "plain_keys ?m"
    by (rule plain_keys_mono [of "om_offsets om"])
      (use assms ok(1) in \<open>auto simp: om_synced_def hm_get_delete_group split: if_splits\<close>)
  have om: "fst (om_delete_group g om) = om\<lparr>om_offsets := ?m, om_files := ?files\<rparr>"
    by (simp add: om_delete_group_def)
  have "file_synced ?files ?m g'" if "g' \<noteq> []" for g'
  proof (cases "g' = g")
    case True
    have "group_entries g ?m = []" by (auto simp: group_entries_def filter_empty_conv)
    then show ?thesis using True by (simp add: file_synced_def hashmap_simps)
  next
    case False
    have "file_synced (om_files om) (om_offsets om) g'" using assms that by (simp add: om_synced_def)
    moreover have "mset (group_entries g' ?m) = mset (group_entries g' (om_offsets om))"
      using False ok by (intro group_entries_mset) (simp_all add: hm_get_delete_group)
    ultimately show ?thesis
      using False file_synced_cong [of g' ?m "om_offsets om" ?files "om_files om"]
      by (simp add: hashmap_simps)
  qed
  then show "om_synced (fst (om_delete_group g om))"
    using ok plain unfolding om om_synced_def by simp
  show "hm_get (om_offsets (fst (om_delete_group g om))) (g', t, p) =
      (if g' = g then None else hm_get (om_offsets om) (g', t, p))"
    using ok(1) by (simp add: om hm_get_delete_group)
qed

text \<open>A new broker on the same directory finds the same offsets.\<close>

lemma load_files_no_group: "hm_get (load_files files offsets) ([], t, p) = hm_get offsets ([], t, p)"
proof (induction files arbitrary: offsets)
  case (Cons f fs)
  obtain name body where f: "f = (name, body)" by (cases f)
  obtain st ex where ex: "split_extension name = (st, ex)" by (cases "split_extension name")
  have "st \<noteq> []" if "ex \<noteq> None"
  proof -
    let ?before = "rev (dropWhile (\<lambda>c. c \<noteq> CHR ''.'') (rev name))"
    have "1 < length ?before" and st: "st = butlast ?before"
      using that ex by (auto simp: split_extension_def Let_def split: if_splits)
    then have "0 < length st" unfolding st length_butlast by linarith
    then show ?thesis by simp
  qed
  then show ?case
    using Cons f ex load_lines_other [of "[]" st] by (cases ex) auto
qed simp

lemma entries_plain:
  assumes "plain_keys m" and "hm_ok m" and "mset es = mset (group_entries g m)" and "e \<in> set es"
  shows "plain_topic (fst (fst e))"
proof -
  obtain t p off where e: "e = ((t, p), off)" by (metis surj_pair)
  then have "((g, t, p), off) \<in> set m"
    using assms(4) mset_eq_setD [OF assms(3)] group_entries_in by metis
  then show ?thesis using assms(1,2) e by (auto simp: plain_keys_def hm_get_eq_Some)
qed

text \<open>A group whose file agrees with the memory is read back from it, whatever the other files hold.\<close>

lemma load_synced_get:
  assumes ok: "hm_ok offsets" "hm_ok files" and plain: "plain_keys offsets" and "g \<noteq> []"
    and sync: "file_synced files offsets g" and "is_order ford"
  shows "hm_get (load_files (ford files) []) (g, t, p) = hm_get offsets (g, t, p)"
proof (cases "hm_get files (offsets_file g)")
  note fs = hm_permuted [OF order_mset [OF assms(6)] ok(2)]
  case None
  then have "group_entries g offsets = []" using sync by (simp add: file_synced_def)
  then have "hm_get offsets (g, t, p) = None" using group_entries_get [OF ok(1), of g t p] by simp
  then show ?thesis using None fs(2) load_files_absent [of "ford files" g "[]"] by simp
next
  note fs = hm_permuted [OF order_mset [OF assms(6)] ok(2)]
  case (Some body)
  then obtain es where es: "mset es = mset (group_entries g offsets)" "body = concat (map offset_line es)"
    using sync by (auto simp: file_synced_def)
  have ent: "hm_ok (group_entries g offsets)" using group_entries_distinct [OF ok(1)] by (simp add: hm_ok_def)
  note es' = hm_permuted [OF es(1) ent]
  have "\<forall>e \<in> set es. plain_topic (fst (fst e))" using entries_plain [OF plain ok(1) es(1)] by blast
  then have "hm_get (load_files (ford files) []) (g, t, p) = map_of es (t, p)"
    using load_files_present [OF assms(4) fs(1), of body es "[]" t p] lines_offset_lines [of es] Some fs(2) es(2) es'(1)
    by (auto simp: hm_ok_def split: option.split)
  then show ?thesis using es'(2) group_entries_get [OF ok(1)] by simp
qed

lemma om_restart_get:
  assumes "om_synced om" and "is_order ford"
  shows "hm_get (om_offsets (om_load ford (offset_manager_new d (om_files om)))) (g, t, p) =
           hm_get (om_offsets om) (g, t, p)"
proof -
  have load: "om_offsets (om_load ford (offset_manager_new d (om_files om))) = load_files (ford (om_files om)) []"
    by (simp add: om_load_def offset_manager_new_def)
  show ?thesis
  proof (cases "g = []")
    case True
    have "hm_get (om_offsets om) ([], t, p) \<noteq> Some off" for off
      using assms(1) unfolding om_synced_def plain_keys_def by blast
    then have "hm_get (om_offsets om) ([], t, p) = None" by (simp add: not_Some_eq [symmetric] del: not_Some_eq)
    then show ?thesis using True load load_files_no_group [of "ford (om_files om)" "[]"] by simp
  next
    case False
    then show ?thesis
      unfolding load using assms(1) by (intro load_synced_get [OF _ _ _ False _ assms(2)]) (simp_all add: om_synced_def)
  qed
qed

lemma om_restart_synced:
  assumes "om_synced om" and "is_order ford"
  shows "om_synced (om_load ford (offset_manager_new d (om_files om)))"
proof -
  let ?om = "om_load ford (offset_manager_new d (om_files om))"
  have ok: "hm_ok (om_offsets om)" "hm_ok (om_files om)" "plain_keys (om_offsets om)"
    using assms(1) by (simp_all add: om_synced_def)
  have om: "om_files ?om = om_files om" "hm_ok (om_offsets ?om)"
    by (simp_all add: om_load_def offset_manager_new_def load_files_ok)
  have "mset (group_entries g (om_offsets ?om)) = mset (group_entries g (om_offsets om))" for g
    using om(2) ok(1) om_restart_get [OF assms] by (intro group_entries_mset) simp_all
  then have "file_synced (om_files ?om) (om_offsets ?om) g" if "g \<noteq> []" for g
    using assms(1) that om(1) file_synced_cong [of g "om_offsets ?om" "om_offsets om"]
    by (simp add: om_synced_def)
  moreover have "plain_keys (om_offsets ?om)"
    using ok(3) om_restart_get [OF assms] by (simp add: plain_keys_def)
  ultimately show ?thesis using om ok by (simp add: om_synced_def)
qed

text \<open>The offset manager implements the map, across restarts.\<close>

lemma om_exec_refines:
  assumes "om_synced om" and "om_op_ok op"
  shows "om_synced (om_exec d op om)"
    and "hm_get (om_offsets (om_exec d op om)) = om_spec op (hm_get (om_offsets om))"
proof -
  show "om_synced (om_exec d op om)"
    using assms by (cases op) (auto simp: om_commit_synced om_delete_synced om_restart_synced)
  show "hm_get (om_offsets (om_exec d op om)) = om_spec op (hm_get (om_offsets om))"
    using assms by (cases op)
      (auto simp: om_commit_synced om_delete_synced om_restart_get fun_eq_iff)
qed

lemma om_run_refines:
  assumes "om_synced om" and "list_all om_op_ok ops"
  shows "om_synced (fold (om_exec d) ops om) \<and>
         hm_get (om_offsets (fold (om_exec d) ops om)) = fold om_spec ops (hm_get (om_offsets om))"
  using assms by (induction ops arbitrary: om) (auto simp: om_exec_refines)

lemma om_synced_new: "om_synced (offset_manager_new d [])"
  by (simp add: om_synced_def offset_manager_new_def file_synced_def plain_keys_def group_entries_def)

end
