(* ===== verification/Group_Properties.thy ===== *)
theory Group_Properties
  imports Coordinator Offset_Manager
begin

text \<open>
  The properties of consumer groups: who reads which partition, who is expelled, and what becomes
  of committed offsets.
\<close>

section \<open>Assignments\<close>

text \<open>A partition that some member of the group subscribes to and whose topic is known.\<close>

definition wanted :: "(string, u32) hashmap \<Rightarrow> consumer_group \<Rightarrow> partition_assignment \<Rightarrow> bool" where
  "wanted tps g p \<longleftrightarrow>
     (\<exists>(k, m) \<in> set (cg_members g). pa_topic p \<in> set (gm_topics m)) \<and>
     (case hm_get tps (pa_topic p) of None \<Rightarrow> False | Some n \<Rightarrow> pa_partition p < n)"

definition owner :: "consumer_group \<Rightarrow> partition_assignment \<Rightarrow> string \<Rightarrow> bool" where
  "owner g p k \<longleftrightarrow>
     (case hm_get (cg_members g) k of None \<Rightarrow> False | Some m \<Rightarrow> p \<in> set (gm_assignments m))"

lemma ownerI: "hm_get (cg_members g) k = Some m \<Longrightarrow> p \<in> set (gm_assignments m) \<Longrightarrow> owner g p k"
  by (simp add: owner_def)

lemma ownerE:
  assumes "owner g p k"
  obtains m where "hm_get (cg_members g) k = Some m" and "p \<in> set (gm_assignments m)"
  using assms by (auto simp: owner_def split: option.splits)

lemma rebalance_topics:
  assumes "hm_ok (cg_members g)" and "is_order mord"
  shows "(\<exists>(k, m) \<in> set (cg_members (rebalance tord mord tps g)). t \<in> set (gm_topics m)) \<longleftrightarrow>
         (\<exists>(k, m) \<in> set (cg_members g). t \<in> set (gm_topics m))"
proof -
  let ?g = "rebalance tord mord tps g"
  have ok: "hm_ok (cg_members ?g)" by (rule rebalance_members(2) [OF assms])
  have "(\<exists>m. hm_get (cg_members ?g) k = Some m \<and> t \<in> set (gm_topics m)) \<longleftrightarrow>
      (\<exists>m. hm_get (cg_members g) k = Some m \<and> t \<in> set (gm_topics m))" for k
  proof (cases "hm_get (cg_members ?g) k")
    case None
    then have "k \<notin> set (hm_keys (cg_members g))"
      using rebalance_members(1) [OF assms, of tord tps] by (metis hm_keys_def map_of_eq_None_iff set_map)
    then have "hm_get (cg_members g) k = None" by (auto simp: hm_keys_def map_of_eq_None_iff)
    then show ?thesis using None by simp
  next
    case (Some m)
    obtain m0 where "hm_get (cg_members g) k = Some m0" "gm_topics m = gm_topics m0"
      by (rule rebalance_getE [OF assms Some]) simp
    then show ?thesis using Some by simp
  qed
  then show ?thesis using ok assms(1) by (force simp: hm_get_eq_Some)
qed

lemma rebalance_owner:
  assumes "hm_ok (cg_members g)" and "is_order tord" and "is_order mord" and "cg_members g \<noteq> []"
  shows "if wanted tps (rebalance tord mord tps g) p then \<exists>!k. owner (rebalance tord mord tps g) p k
         else \<forall>k. \<not> owner (rebalance tord mord tps g) p k"
proof -
  let ?g = "rebalance tord mord tps g" and ?ps = "all_partitions tord tps (cg_members g)"
  have w: "wanted tps ?g p \<longleftrightarrow> p \<in> set ?ps"
    unfolding wanted_def rebalance_topics [OF assms(1,3)] in_all_partitions_iff [OF assms(2)]
    by (auto split: option.split)
  have sub: "p \<in> set ?ps" if "owner ?g p k" for k
  proof (rule ownerE [OF that])
    fix m
    assume m: "hm_get (cg_members ?g) k = Some m" "p \<in> set (gm_assignments m)"
    show ?thesis by (rule rebalance_share [OF assms(1,3) m(1)]) (use m(2) in \<open>auto simp: in_share_iff\<close>)
  qed
  have uniq: "k = k'" if "owner ?g p k" "owner ?g p k'" for k k'
    using that rebalance_exclusive [OF assms(1-3), of tps] unfolding exclusive_def by (auto elim!: ownerE)
  show ?thesis
  proof (cases "wanted tps ?g p")
    case True
    then obtain k m where "hm_get (cg_members ?g) k = Some m" "p \<in> set (gm_assignments m)"
      using rebalance_covers [OF assms] w by blast
    then have "owner ?g p k" by (rule ownerI)
    then have "\<exists>!k. owner ?g p k" using uniq by blast
    then show ?thesis using True by simp
  next
    case False
    then show ?thesis using sub w by auto
  qed
qed


text \<open>A coordinator that knows a topic of three partitions, and two members of a group.\<close>

definition sample_coordinator :: group_coordinator where
  "sample_coordinator = update_topic_partitions ''t'' 3 (group_coordinator_new 30000)"

definition sample_join :: "string \<Rightarrow> group_coordinator \<Rightarrow> group_coordinator" where
  "sample_join m gc = fst (join_group (\<lambda>xs. xs) (\<lambda>xs. xs) 5 [] ''g'' (Some m) [''t''] gc)"

lemma sample_reach:
  shows "coord_step\<^sup>*\<^sup>* (group_coordinator_new 30000) sample_coordinator"
    and "coord_step\<^sup>*\<^sup>* (group_coordinator_new 30000) (sample_join ''a'' sample_coordinator)"
proof -
  show start: "coord_step\<^sup>*\<^sup>* (group_coordinator_new 30000) sample_coordinator"
    unfolding sample_coordinator_def by (rule r_into_rtranclp) (rule coord_step.Update)
  have "coord_step sample_coordinator (sample_join ''a'' sample_coordinator)"
    unfolding sample_join_def by (intro coord_step.Join is_order_id)
  with start show "coord_step\<^sup>*\<^sup>* (group_coordinator_new 30000) (sample_join ''a'' sample_coordinator)"
    by (rule rtranclp.rtrancl_into_rtrancl)
qed


text \<open>
  C29. The partitions are spread evenly: after a join, the numbers of partitions that two members
  of the group own differ by at most one.
\<close>

theorem join_balances:
  assumes "coord_step\<^sup>*\<^sup>* (group_coordinator_new timeout) gc" and "is_order mord"
    and "join_group tord mord now uuid gid mid topics gc = (gc', r)"
    and "hm_get (gc_groups gc') gid = Some g"
    and "hm_get (cg_members g) k = Some m" and "hm_get (cg_members g) k' = Some m'"
  shows "length (gm_assignments m) \<le> length (gm_assignments m') + 1"
proof -
  have ok: "coord_ok gc" by (rule coord_reach_ok [OF assms(1)])
  show ?thesis
  proof (rule join_groupE [OF ok assms(3)])
    fix g0 m0
    assume "hm_ok (cg_members g0)"
      and "hm_get (gc_groups gc') gid = Some (rebalance tord mord (gc_topic_partitions gc) g0)"
    then show ?thesis using rebalance_balanced [of g0 mord] assms(2,4-6) by simp
  qed
qed

lemma u32_range_3: "u32_range 3 = [0, 1, 2]"
  by (simp add: u32_range_def upt_conv_Cons)

lemmas sample_group_simps =
  sample_join_def sample_coordinator_def join_group_def Let_def put_group_def update_topic_partitions_def
  group_coordinator_new_def add_member_def consumer_group_new_def rebalance_def all_partitions_def
  all_topics_def topic_assignments_def hm_keys_def clear_assignments_def partition_assignment_new_def u32_range_3

theorem join_balances_witness:
  "\<exists>g m m'. hm_get (gc_groups (sample_join ''b'' (sample_join ''a'' sample_coordinator))) ''g'' = Some g \<and>
     hm_get (cg_members g) ''a'' = Some m \<and> hm_get (cg_members g) ''b'' = Some m' \<and>
     length (gm_assignments m) = 2 \<and> length (gm_assignments m) \<le> length (gm_assignments m') + 1"
proof -
  obtain g where g: "hm_get (gc_groups (sample_join ''b'' (sample_join ''a'' sample_coordinator))) ''g'' = Some g"
    and len: "map_option (\<lambda>m. length (gm_assignments m)) (hm_get (cg_members g) ''a'') = Some 2"
    and b: "hm_get (cg_members g) ''b'' \<noteq> None"
    by (simp add: sample_group_simps)
  obtain m m' where m: "hm_get (cg_members g) ''a'' = Some m" "hm_get (cg_members g) ''b'' = Some m'"
    using len b by auto
  from join_balances [OF sample_reach(2) is_order_id surjective_pairing g [unfolded sample_join_def [of "''b''"]] m]
  show ?thesis using g m len by auto
qed

text \<open>
  In every state the coordinator reaches, by any sequence of joins, leaves, heartbeats,
  heartbeat checks and topic updates, and for every order in which hash maps are iterated: no
  group is empty, and no partition is assigned to two members of a group or twice to one.
\<close>

theorem coordinator_invariant:
  assumes "coord_step\<^sup>*\<^sup>* (group_coordinator_new timeout) gc" and "hm_get (gc_groups gc) gid = Some g"
  shows "cg_members g \<noteq> [] \<and> cg_group_id g = gid \<and>
         (\<forall>k m. hm_get (cg_members g) k = Some m \<longrightarrow> distinct (gm_assignments m)) \<and>
         (\<forall>p k k'. owner g p k \<longrightarrow> owner g p k' \<longrightarrow> k = k')"
proof -
  note ok = coord_okD [OF coord_reach_ok [OF assms(1)] assms(2)]
  show ?thesis
  proof (intro conjI allI impI)
    show "cg_members g \<noteq> []" by (rule ok(2))
    show "cg_group_id g = gid" by (rule ok(3))
    show "distinct (gm_assignments m)" if "hm_get (cg_members g) k = Some m" for k m
      using ok(4) that unfolding exclusive_def by blast
    show "k = k'" if "owner g p k" "owner g p k'" for p k k'
      using that ok(4) unfolding exclusive_def by (auto elim!: ownerE)
  qed
qed

theorem coordinator_invariant_witness:
  "\<exists>g. hm_get (gc_groups (sample_join ''a'' sample_coordinator)) ''g'' = Some g \<and> cg_members g \<noteq> [] \<and>
     cg_group_id g = ''g''"
proof -
  obtain g where g: "hm_get (gc_groups (sample_join ''a'' sample_coordinator)) ''g'' = Some g"
    by (simp add: sample_join_def join_group_def Let_def put_group_def hashmap_simps)
  from coordinator_invariant [OF sample_reach(2) g] g show ?thesis by blast
qed

text \<open>
  C30. A heartbeat check removes exactly the members whose last heartbeat is older than the
  timeout, and with them the groups that have no other member; the members that are left still
  own every wanted partition exactly once if anyone was removed.
\<close>

theorem heartbeat_check_expels:
  assumes "coord_step\<^sup>*\<^sup>* (group_coordinator_new timeout) gc"
    and "is_order gord" and "is_order tord" and "is_order mord"
    and "hm_get (gc_groups gc) gid = Some g"
  shows "let g' = hm_get (gc_groups (check_heartbeats gord tord mord clock gc)) gid;
             expired = (\<lambda>m. clock gid - gm_last_heartbeat m > gc_heartbeat_timeout gc) in
         (\<forall>k. (\<exists>x m. g' = Some x \<and> hm_get (cg_members x) k = Some m) \<longleftrightarrow>
              (\<exists>m. hm_get (cg_members g) k = Some m \<and> \<not> expired m)) \<and>
         (g' = None \<longleftrightarrow> (\<forall>k m. hm_get (cg_members g) k = Some m \<longrightarrow> expired m)) \<and>
         (\<forall>x p. g' = Some x \<longrightarrow> (\<exists>k m. hm_get (cg_members g) k = Some m \<and> expired m) \<longrightarrow>
            (if wanted (gc_topic_partitions gc) x p then \<exists>!k. owner x p k else \<forall>k. \<not> owner x p k))"
proof -
  let ?to = "gc_heartbeat_timeout gc" and ?tps = "gc_topic_partitions gc"
  let ?g' = "hm_get (gc_groups (check_heartbeats gord tord mord clock gc)) gid"
  let ?d = "drop_dead (clock gid) ?to g"
  let ?ex = "\<lambda>m. clock gid - gm_last_heartbeat m > ?to"
  have ok: "coord_ok gc" by (rule coord_reach_ok [OF assms(1)])
  have hm: "hm_ok (cg_members g)" by (rule coord_okD(1) [OF ok assms(5)])
  have d: "hm_ok (cg_members ?d)" by (rule drop_dead_ok [OF hm])
  note dget = drop_dead_get [OF hm, of "clock gid" ?to]
  have g': "?g' = checked_group tord mord ?tps (clock gid) ?to g"
    using check_heartbeats_get [OF _ _ assms(2,4), of gc tord clock gid] ok assms(5)
    by (simp add: coord_ok_def)
  have keys: "hm_get (cg_members (rebalance tord mord ?tps ?d)) k = None \<longleftrightarrow> hm_get (cg_members ?d) k = None" for k
    using rebalance_members(1) [OF d assms(4), of tord ?tps]
    by (metis hm_keys_def map_of_eq_None_iff set_map)
  have dead: "get_dead_members (clock gid) ?to g = [] \<longleftrightarrow> (\<forall>k m. hm_get (cg_members g) k = Some m \<longrightarrow> \<not> ?ex m)"
    using hm by (force simp: get_dead_members_def hm_get_eq_Some filter_empty_conv)
  have none: "cg_members ?d = [] \<longleftrightarrow> (\<forall>k m. hm_get (cg_members g) k = Some m \<longrightarrow> ?ex m)"
  proof -
    have "cg_members ?d = [] \<longleftrightarrow> (\<forall>k. hm_get (cg_members ?d) k = None)"
      by (cases "cg_members ?d") (auto split: if_splits)
    also have "\<dots> \<longleftrightarrow> (\<forall>k m. hm_get (cg_members g) k = Some m \<longrightarrow> ?ex m)"
      by (auto simp: dget split: option.splits if_splits)
    finally show ?thesis .
  qed
  have members: "(\<exists>x m. ?g' = Some x \<and> hm_get (cg_members x) k = Some m) \<longleftrightarrow>
      (\<exists>m. hm_get (cg_members ?d) k = Some m)" for k
    using keys [of k] drop_dead_none [of "clock gid" ?to g] unfolding g' checked_group_def Let_def
    by (cases "cg_members ?d = []") auto
  have owners: "if wanted ?tps x p then \<exists>!k. owner x p k else \<forall>k. \<not> owner x p k"
    if x: "?g' = Some x" and ex: "\<exists>k m. hm_get (cg_members g) k = Some m \<and> ?ex m" for x p
  proof -
    have "x = rebalance tord mord ?tps ?d" "cg_members ?d \<noteq> []"
      using x ex dead unfolding g' checked_group_def Let_def by (auto split: if_splits)
    then show ?thesis using rebalance_owner [OF d assms(3,4), of ?tps p] by simp
  qed
  have "?g' = None \<longleftrightarrow> cg_members ?d = []"
    unfolding g' checked_group_def Let_def by simp
  then show ?thesis
    unfolding Let_def none members using owners by (auto simp: dget split: option.splits if_splits)
qed

theorem heartbeat_check_expels_witness:
  "\<exists>g. hm_get (gc_groups (sample_join ''a'' sample_coordinator)) ''g'' = Some g \<and>
     hm_get (gc_groups (check_heartbeats (\<lambda>xs. xs) (\<lambda>xs. xs) (\<lambda>xs. xs) (\<lambda>_. 40000)
       (sample_join ''a'' sample_coordinator))) ''g'' = None"
proof -
  obtain g where g: "hm_get (gc_groups (sample_join ''a'' sample_coordinator)) ''g'' = Some g"
    and old: "list_all (\<lambda>(k, m). gm_last_heartbeat m = 5) (cg_members g)"
    and to: "gc_heartbeat_timeout (sample_join ''a'' sample_coordinator) = 30000"
    by (simp add: sample_group_simps)
  from old have "hm_get (cg_members g) k = Some m \<Longrightarrow> gm_last_heartbeat m = 5" for k m
    by (auto simp: list_all_iff dest: map_of_SomeD)
  then show ?thesis
    using heartbeat_check_expels [OF sample_reach(2) is_order_id is_order_id is_order_id g, of "\<lambda>_. 40000"] g to
    by (auto simp: Let_def)
qed


section \<open>Committed offsets\<close>



lemma parse_digits_bad: "digit_val c = None \<Longrightarrow> c \<in> set s \<Longrightarrow> parse_digits acc s = None"
  by (induction acc s rule: parse_digits.induct) (auto split: option.split)

lemma parse_uint_bad:
  assumes "digit_val c = None" and "c \<in> set s" and "c \<noteq> CHR ''+''"
  shows "parse_uint w s = None"
  using assms by (auto simp: parse_uint_def parse_digits_bad Let_def split: list.splits option.split)

text \<open>
  A colon in the name of a topic loses its committed offsets at the next restart: the offset is
  acknowledged and served until then, and not found afterwards.
\<close>

theorem offsets_with_colon_lost:
  assumes "g \<noteq> []" and "CHR '':'' \<in> set t" and "CHR ''='' \<notin> set t" and "newline \<notin> set t"
  shows "let om = fst (om_commit_offset (\<lambda>xs. xs) g t p off (offset_manager_new d [])) in
         om_fetch_offset om g t p = Ok (Some off) \<and>
         om_fetch_offset (om_load (\<lambda>xs. xs) (offset_manager_new d (om_files om))) g t p = Ok None"
proof -
  let ?om = "fst (om_commit_offset (\<lambda>xs. xs) g t p off (offset_manager_new d []))"
  have om: "om_offsets ?om = [((g, t, p), off)]" "om_files ?om = [(offsets_file g, offset_line ((t, p), off))]"
    by (simp_all add: om_commit_offset_def persist_group_def offset_manager_new_def group_entries_def)
  obtain a b where t: "t = a @ CHR '':'' # b" "CHR '':'' \<notin> set a"
    using split_list_first [OF assms(2)] by blast
  let ?key = "t @ '':'' @ show_word p" and ?line = "t @ '':'' @ show_word p @ ''='' @ show_word off"
  have "CHR ''='' \<notin> set ?key" using assms(3) show_word_chars(1) [of p] by simp
  then have "split_once (CHR ''='') ?line = Some (?key, show_word off)"
    using split_once_append [of "CHR ''=''" ?key "show_word off"] by simp
  moreover have "split_once (CHR '':'') ?key = Some (a, b @ '':'' @ show_word p)"
    using split_once_append [OF t(2), of "b @ '':'' @ show_word p"] t(1) by simp
  moreover have "parse_uint 32 (b @ '':'' @ show_word p) = None"
    by (rule parse_uint_bad [of "CHR '':''"]) (simp_all add: digit_val_def)
  ultimately have "parse_line ?line = None" by (simp add: parse_line_def)
  moreover have "newline \<notin> set ?line"
    using assms(4) show_word_chars(3) [of p] show_word_chars(3) [of off] by (auto simp: newline_def)
  then have "lines (offset_line ((t, p), off)) = [strip_cr ?line]"
    using split_lines_append [of ?line "[]" "[]"] by (simp add: lines_def offset_line_def)
  moreover have "strip_cr ?line = ?line"
    using strip_cr_line [of "((t, p), off)"] by (simp add: line_text_def)
  ultimately have "load_files (om_files ?om) [] = []"
    using om(2) split_offsets_file [OF assms(1)] by simp
  then show ?thesis
    using om by (simp add: om_fetch_offset_def om_load_def Let_def) (simp add: offset_manager_new_def)
qed

theorem offsets_with_colon_lost_witness:
  "let om = fst (om_commit_offset (\<lambda>xs. xs) ''g'' ''a:b'' 0 42 (offset_manager_new ''d'' [])) in
   om_fetch_offset om ''g'' ''a:b'' 0 = Ok (Some 42) \<and>
   om_fetch_offset (om_load (\<lambda>xs. xs) (offset_manager_new ''d'' (om_files om))) ''g'' ''a:b'' 0 = Ok None"
  by (rule offsets_with_colon_lost) (simp_all add: newline_def)



end
