(* ===== verification/Cluster.thy ===== *)
theory Cluster
  imports Messages
begin

text \<open>
  \<open>broker/src/cluster.rs\<close>: brokers, the replication state of each partition, the in-sync replicas,
  the high watermark and the election of leaders. The high watermark a fetch leaves is the least
  known offset of the in-sync replicas; every partition keeps an in-sync leader while its in-sync
  set has a surviving member, and elections count epochs. A hash set is a list without
  duplicates; its iteration order is a parameter.
\<close>

type_synonym broker_id = u32

record broker_info =
  bi_id :: broker_id
  bi_host :: string
  bi_port :: u16
  bi_last_heartbeat :: "nat option"

record replica_info =
  ri_broker_id :: broker_id
  ri_is_leader :: bool
  ri_offset :: u64

record partition_replica_state =
  prs_topic :: string
  prs_partition :: u32
  prs_leader :: broker_id
  prs_replicas :: "broker_id list"
  prs_isr :: "broker_id list"
  prs_replica_offsets :: "(broker_id, u64) hashmap"
  prs_high_watermark :: u64
  prs_leader_epoch :: u32

record cluster_metadata =
  cm_brokers :: "(broker_id, broker_info) hashmap"
  cm_partition_states :: "(string \<times> u32, partition_replica_state) hashmap"
  cm_broker_id :: broker_id
  cm_broker_timeout :: nat
  cm_isr_lag_threshold :: u64

section \<open>Brokers and replicas\<close>

definition broker_info_new :: "nat \<Rightarrow> broker_id \<Rightarrow> string \<Rightarrow> u16 \<Rightarrow> broker_info" where
  "broker_info_new now bid host port =
     \<lparr>bi_id = bid, bi_host = host, bi_port = port, bi_last_heartbeat = Some now\<rparr>"

definition is_alive :: "nat \<Rightarrow> nat \<Rightarrow> broker_info \<Rightarrow> bool" where
  "is_alive now timeout b =
     (case bi_last_heartbeat b of Some l \<Rightarrow> now - l < timeout | None \<Rightarrow> False)"

definition update_heartbeat :: "nat \<Rightarrow> broker_info \<Rightarrow> broker_info" where
  "update_heartbeat now b = b\<lparr>bi_last_heartbeat := Some now\<rparr>"

definition new_leader_replica :: "broker_id \<Rightarrow> u64 \<Rightarrow> replica_info" where
  "new_leader_replica bid off = \<lparr>ri_broker_id = bid, ri_is_leader = True, ri_offset = off\<rparr>"

definition new_follower_replica :: "broker_id \<Rightarrow> u64 \<Rightarrow> replica_info" where
  "new_follower_replica bid off = \<lparr>ri_broker_id = bid, ri_is_leader = False, ri_offset = off\<rparr>"

section \<open>The state of one partition\<close>

definition zero_offsets :: "broker_id list \<Rightarrow> (broker_id, u64) hashmap" where
  "zero_offsets replicas = map (\<lambda>b. (b, 0)) (remdups replicas)"

definition prs_new :: "string \<Rightarrow> u32 \<Rightarrow> broker_id \<Rightarrow> broker_id list \<Rightarrow> partition_replica_state" where
  "prs_new topic p leader replicas =
     \<lparr>prs_topic = topic, prs_partition = p, prs_leader = leader, prs_replicas = replicas,
      prs_isr = remdups replicas, prs_replica_offsets = zero_offsets replicas,
      prs_high_watermark = 0, prs_leader_epoch = 0\<rparr>"

fun min_list_option :: "u64 list \<Rightarrow> u64 option" where
  "min_list_option [] = None"
| "min_list_option (x # xs) =
     (case min_list_option xs of None \<Rightarrow> Some x | Some y \<Rightarrow> Some (min x y))"

definition isr_offsets :: "partition_replica_state \<Rightarrow> u64 list" where
  "isr_offsets s = List.map_filter (hm_get (prs_replica_offsets s)) (prs_isr s)"

definition update_high_watermark :: "partition_replica_state \<Rightarrow> partition_replica_state" where
  "update_high_watermark s =
     (if prs_isr s = [] then s
      else s\<lparr>prs_high_watermark := (case min_list_option (isr_offsets s) of None \<Rightarrow> 0 | Some m \<Rightarrow> m)\<rparr>)"

definition prs_update_replica_offset ::
    "broker_id \<Rightarrow> u64 \<Rightarrow> u64 \<Rightarrow> partition_replica_state \<Rightarrow> partition_replica_state" where
  "prs_update_replica_offset bid off lag_threshold s =
     (let s1 = s\<lparr>prs_replica_offsets := hm_insert bid off (prs_replica_offsets s)\<rparr>;
          leader_offset = (case hm_get (prs_replica_offsets s1) (prs_leader s1) of None \<Rightarrow> 0 | Some x \<Rightarrow> x);
          s2 = (if off + lag_threshold \<ge> leader_offset
                then s1\<lparr>prs_isr := List.insert bid (prs_isr s1)\<rparr>
                else s1\<lparr>prs_isr := removeAll bid (prs_isr s1)\<rparr>)
      in update_high_watermark s2)"

text \<open>\<open>iord\<close> is the iteration order of the in-sync set, whose first element is elected.\<close>

definition elect_new_leader ::
    "(broker_id list \<Rightarrow> broker_id list) \<Rightarrow> partition_replica_state \<Rightarrow>
     partition_replica_state \<times> broker_id option" where
  "elect_new_leader iord s =
     (case iord (prs_isr s) of
        new_leader # _ \<Rightarrow>
          (s\<lparr>prs_leader := new_leader, prs_leader_epoch := prs_leader_epoch s + 1\<rparr>, Some new_leader)
      | [] \<Rightarrow>
          (case prs_replicas s of
             new_leader # _ \<Rightarrow>
               (s\<lparr>prs_leader := new_leader, prs_leader_epoch := prs_leader_epoch s + 1,
                  prs_isr := List.insert new_leader (prs_isr s)\<rparr>, Some new_leader)
           | [] \<Rightarrow> (s, None)))"

definition is_leader_in_sync :: "partition_replica_state \<Rightarrow> bool" where
  "is_leader_in_sync s \<longleftrightarrow> prs_leader s \<in> set (prs_isr s)"

section \<open>The cluster\<close>

definition cluster_metadata_new :: "broker_id \<Rightarrow> nat \<Rightarrow> u64 \<Rightarrow> cluster_metadata" where
  "cluster_metadata_new bid timeout lag =
     \<lparr>cm_brokers = [], cm_partition_states = [], cm_broker_id = bid, cm_broker_timeout = timeout,
      cm_isr_lag_threshold = lag\<rparr>"

definition register_broker :: "broker_info \<Rightarrow> cluster_metadata \<Rightarrow> cluster_metadata" where
  "register_broker b cm = cm\<lparr>cm_brokers := hm_insert (bi_id b) b (cm_brokers cm)\<rparr>"

definition update_broker_heartbeat :: "nat \<Rightarrow> broker_id \<Rightarrow> cluster_metadata \<Rightarrow> cluster_metadata" where
  "update_broker_heartbeat now bid cm =
     (case hm_get (cm_brokers cm) bid of
        Some b \<Rightarrow> cm\<lparr>cm_brokers := hm_insert bid (update_heartbeat now b) (cm_brokers cm)\<rparr>
      | None \<Rightarrow> cm)"

definition get_alive_brokers ::
    "(broker_info list \<Rightarrow> broker_info list) \<Rightarrow> nat \<Rightarrow> cluster_metadata \<Rightarrow> broker_info list" where
  "get_alive_brokers bord now cm =
     filter (is_alive now (cm_broker_timeout cm)) (bord (map snd (cm_brokers cm)))"

definition is_broker_alive :: "nat \<Rightarrow> cluster_metadata \<Rightarrow> broker_id \<Rightarrow> bool" where
  "is_broker_alive now cm bid =
     (case hm_get (cm_brokers cm) bid of Some b \<Rightarrow> is_alive now (cm_broker_timeout cm) b | None \<Rightarrow> False)"

definition set_partition_replicas ::
    "string \<Rightarrow> u32 \<Rightarrow> broker_id \<Rightarrow> broker_id list \<Rightarrow> cluster_metadata \<Rightarrow> cluster_metadata" where
  "set_partition_replicas topic p leader replicas cm =
     cm\<lparr>cm_partition_states := hm_insert (topic, p)
          (case hm_get (cm_partition_states cm) (topic, p) of
             Some s \<Rightarrow> s\<lparr>prs_leader := leader, prs_replicas := replicas, prs_isr := remdups replicas\<rparr>
           | None \<Rightarrow> prs_new topic p leader replicas) (cm_partition_states cm)\<rparr>"

definition get_partition_leader :: "cluster_metadata \<Rightarrow> string \<Rightarrow> u32 \<Rightarrow> broker_id option" where
  "get_partition_leader cm topic p = map_option prs_leader (hm_get (cm_partition_states cm) (topic, p))"

definition get_partition_replicas :: "cluster_metadata \<Rightarrow> string \<Rightarrow> u32 \<Rightarrow> broker_id list" where
  "get_partition_replicas cm topic p =
     (case hm_get (cm_partition_states cm) (topic, p) of Some s \<Rightarrow> prs_replicas s | None \<Rightarrow> [])"

definition get_partition_isr :: "cluster_metadata \<Rightarrow> string \<Rightarrow> u32 \<Rightarrow> broker_id list" where
  "get_partition_isr cm topic p =
     (case hm_get (cm_partition_states cm) (topic, p) of Some s \<Rightarrow> prs_isr s | None \<Rightarrow> [])"

definition get_high_watermark :: "cluster_metadata \<Rightarrow> string \<Rightarrow> u32 \<Rightarrow> u64" where
  "get_high_watermark cm topic p =
     (case hm_get (cm_partition_states cm) (topic, p) of Some s \<Rightarrow> prs_high_watermark s | None \<Rightarrow> 0)"

definition cm_update_replica_offset ::
    "string \<Rightarrow> u32 \<Rightarrow> broker_id \<Rightarrow> u64 \<Rightarrow> cluster_metadata \<Rightarrow> cluster_metadata" where
  "cm_update_replica_offset topic p bid off cm =
     (case hm_get (cm_partition_states cm) (topic, p) of
        Some s \<Rightarrow>
          cm\<lparr>cm_partition_states := hm_insert (topic, p)
               (prs_update_replica_offset bid off (cm_isr_lag_threshold cm) s) (cm_partition_states cm)\<rparr>
      | None \<Rightarrow> cm)"

text \<open>The body of the loop of \<open>handle_broker_failure\<close>, and the loop over all partitions.\<close>

definition fail_over ::
    "(broker_id list \<Rightarrow> broker_id list) \<Rightarrow> broker_id \<Rightarrow> partition_replica_state \<Rightarrow>
     partition_replica_state \<times> broker_id option" where
  "fail_over iord failed s =
     (let s1 = s\<lparr>prs_isr := removeAll failed (prs_isr s)\<rparr> in
      if prs_leader s1 = failed then elect_new_leader iord s1 else (s1, None))"

definition handle_broker_failure ::
    "((string \<times> u32) list \<Rightarrow> (string \<times> u32) list) \<Rightarrow> (broker_id list \<Rightarrow> broker_id list) \<Rightarrow> broker_id \<Rightarrow>
     cluster_metadata \<Rightarrow> cluster_metadata \<times> (string \<times> u32 \<times> broker_id) list" where
  "handle_broker_failure pord iord failed cm =
     (let states = cm_partition_states cm in
      (cm\<lparr>cm_partition_states := map (\<lambda>(k, s). (k, fst (fail_over iord failed s))) states\<rparr>,
       List.map_filter (\<lambda>k. case hm_get states k of
           Some s \<Rightarrow> map_option (\<lambda>l. (prs_topic s, prs_partition s, l)) (snd (fail_over iord failed s))
         | None \<Rightarrow> None) (pord (hm_keys states))))"

definition is_partition_leader :: "cluster_metadata \<Rightarrow> string \<Rightarrow> u32 \<Rightarrow> bool" where
  "is_partition_leader cm topic p =
     (case get_partition_leader cm topic p of Some l \<Rightarrow> l = cm_broker_id cm | None \<Rightarrow> False)"

definition get_all_partition_states ::
    "((string \<times> u32) list \<Rightarrow> (string \<times> u32) list) \<Rightarrow> cluster_metadata \<Rightarrow> partition_replica_state list" where
  "get_all_partition_states pord cm =
     List.map_filter (hm_get (cm_partition_states cm)) (pord (hm_keys (cm_partition_states cm)))"

section \<open>The high watermark\<close>

lemma min_list_option_spec:
  "min_list_option xs = (if xs = [] then None else Some (Min (set xs)))"
proof (induction xs)
  case (Cons x xs)
  then show ?case by (cases "xs = []") simp_all
qed simp

lemma in_map_filter: "y \<in> set (List.map_filter f xs) \<longleftrightarrow> (\<exists>x \<in> set xs. f x = Some y)"
  by (induction xs) (auto simp: map_filter_simps split: option.splits)

lemma bex_hm_keys:
  "(\<exists>k \<in> set (hm_keys m). (case hm_get m k of Some v \<Rightarrow> f v | None \<Rightarrow> None) = Some x) \<longleftrightarrow>
     (\<exists>k v. hm_get m k = Some v \<and> f v = Some x)" (is "?l \<longleftrightarrow> ?r")
proof
  assume ?l
  then show ?r by (auto split: option.splits)
next
  assume ?r
  then obtain k v where "hm_get m k = Some v" "f v = Some x" by blast
  then show ?l using hm_get_in_keys by (intro bexI [of _ k]) auto
qed

lemma set_isr_offsets:
  "set (isr_offsets s) = {off. \<exists>b \<in> set (prs_isr s). hm_get (prs_replica_offsets s) b = Some off}"
  unfolding isr_offsets_def by (rule set_eqI) (simp add: in_map_filter)

lemma update_high_watermark_fields [frame_simps]:
  "prs_isr (update_high_watermark s) = prs_isr s"
  "prs_replica_offsets (update_high_watermark s) = prs_replica_offsets s"
  by (simp_all add: update_high_watermark_def)

lemma update_fields [frame_simps]:
  "prs_topic (prs_update_replica_offset b off lag s) = prs_topic s"
  "prs_partition (prs_update_replica_offset b off lag s) = prs_partition s"
  "prs_leader (prs_update_replica_offset b off lag s) = prs_leader s"
  "prs_replicas (prs_update_replica_offset b off lag s) = prs_replicas s"
  "prs_leader_epoch (prs_update_replica_offset b off lag s) = prs_leader_epoch s"
  "prs_replica_offsets (prs_update_replica_offset b off lag s) = hm_insert b off (prs_replica_offsets s)"
  by (simp_all add: prs_update_replica_offset_def update_high_watermark_def Let_def)

definition leader_offset_after :: "broker_id \<Rightarrow> u64 \<Rightarrow> partition_replica_state \<Rightarrow> u64" where
  "leader_offset_after b off s =
     (if prs_leader s = b then off
      else case hm_get (prs_replica_offsets s) (prs_leader s) of None \<Rightarrow> 0 | Some x \<Rightarrow> x)"

lemma update_isr:
  "set (prs_isr (prs_update_replica_offset b off lag s)) =
     (if off + lag \<ge> leader_offset_after b off s then insert b (set (prs_isr s)) else set (prs_isr s) - {b})"
  by (auto simp: prs_update_replica_offset_def Let_def leader_offset_after_def frame_simps hashmap_simps)

lemma update_high_watermark_Min:
  assumes "s' = prs_update_replica_offset b off lag s" and "isr_offsets s' \<noteq> []"
  shows "prs_high_watermark s' = Min (set (isr_offsets s'))"
proof -
  obtain s2 where s2: "s' = update_high_watermark s2"
    using assms(1) by (simp add: prs_update_replica_offset_def Let_def)
  then have "isr_offsets s' = isr_offsets s2" "prs_isr s' = prs_isr s2"
    by (simp_all add: update_high_watermark_def isr_offsets_def)
  moreover have "prs_isr s2 \<noteq> []"
    using assms(2) calculation by (auto simp: isr_offsets_def)
  ultimately show ?thesis
    using s2 assms(2) by (simp add: update_high_watermark_def min_list_option_spec)
qed

text \<open>No in-sync replica whose offset is known is behind the high watermark, and one is at it.\<close>

lemma high_watermark_replicated:
  assumes "s' = prs_update_replica_offset b off lag s"
    and "r \<in> set (prs_isr s')" and "hm_get (prs_replica_offsets s') r = Some x"
  shows "prs_high_watermark s' \<le> x"
    and "\<exists>q \<in> set (prs_isr s'). hm_get (prs_replica_offsets s') q = Some (prs_high_watermark s')"
proof -
  have x: "x \<in> set (isr_offsets s')" using assms(2,3) by (auto simp: set_isr_offsets)
  then have "isr_offsets s' \<noteq> []" by auto
  then have hw: "prs_high_watermark s' = Min (set (isr_offsets s'))"
    by (rule update_high_watermark_Min [OF assms(1)])
  show "prs_high_watermark s' \<le> x" using x hw by simp
  have "prs_high_watermark s' \<in> set (isr_offsets s')"
    using hw \<open>isr_offsets s' \<noteq> []\<close> by simp
  then show "\<exists>q \<in> set (prs_isr s'). hm_get (prs_replica_offsets s') q = Some (prs_high_watermark s')"
    by (simp add: set_isr_offsets)
qed

section \<open>Leaders stay in sync\<close>

lemma elect_from_isr:
  assumes "prs_isr s \<noteq> []" and "is_order iord"
  obtains l where "elect_new_leader iord s =
      (s\<lparr>prs_leader := l, prs_leader_epoch := prs_leader_epoch s + 1\<rparr>, Some l)"
    and "l \<in> set (prs_isr s)"
proof -
  obtain l ls where l: "iord (prs_isr s) = l # ls"
    using assms by (cases "iord (prs_isr s)") (auto dest: order_length [of iord "prs_isr s"])
  then have "l \<in> set (prs_isr s)" using order_set [OF assms(2), of "prs_isr s"] by auto
  then show thesis using that l by (simp add: elect_new_leader_def)
qed

lemma fail_over_elects:
  assumes "is_order iord" and "prs_leader s = failed" and "set (prs_isr s) - {failed} \<noteq> {}"
  obtains s' l where "fail_over iord failed s = (s', Some l)" and "prs_leader s' = l"
    and "l \<in> set (prs_isr s)" and "l \<noteq> failed" and "set (prs_isr s') = set (prs_isr s) - {failed}"
    and "prs_leader_epoch s' = prs_leader_epoch s + 1"
proof -
  let ?s1 = "s\<lparr>prs_isr := removeAll failed (prs_isr s)\<rparr>"
  have "set (prs_isr ?s1) \<noteq> {}" using assms(3) by simp
  then have "prs_isr ?s1 \<noteq> []" by (metis set_empty)
  then obtain l where "elect_new_leader iord ?s1 =
      (?s1\<lparr>prs_leader := l, prs_leader_epoch := prs_leader_epoch ?s1 + 1\<rparr>, Some l)" "l \<in> set (prs_isr ?s1)"
    by (rule elect_from_isr [OF _ assms(1)])
  then show thesis
    using assms(2) by (intro that) (auto simp: fail_over_def)
qed

lemma fail_over_follower:
  assumes "prs_leader s \<noteq> failed"
  shows "fail_over iord failed s = (s\<lparr>prs_isr := removeAll failed (prs_isr s)\<rparr>, None)"
  using assms by (simp add: fail_over_def)

lemma fail_over_fields [frame_simps]:
  "prs_topic (fst (fail_over iord failed s)) = prs_topic s"
  "prs_partition (fst (fail_over iord failed s)) = prs_partition s"
  "prs_replicas (fst (fail_over iord failed s)) = prs_replicas s"
  "prs_replica_offsets (fst (fail_over iord failed s)) = prs_replica_offsets s"
  "prs_high_watermark (fst (fail_over iord failed s)) = prs_high_watermark s"
  by (simp_all add: fail_over_def elect_new_leader_def Let_def split: list.split)

text \<open>With no other in-sync replica the first replica is elected, be it the one that failed.\<close>

lemma fail_over_unclean:
  assumes "is_order iord" and "prs_leader s = failed" and "set (prs_isr s) \<subseteq> {failed}"
    and "prs_replicas s = r # rs"
  shows "snd (fail_over iord failed s) = Some r" and "prs_leader (fst (fail_over iord failed s)) = r"
    and "prs_isr (fst (fail_over iord failed s)) = [r]"
proof -
  have "removeAll failed (prs_isr s) = []" using assms(3) by (auto simp: filter_empty_conv simp flip: set_empty)
  then have "iord (removeAll failed (prs_isr s)) = []" using assms(1) by simp
  then show "snd (fail_over iord failed s) = Some r" and "prs_leader (fst (fail_over iord failed s)) = r"
    and "prs_isr (fst (fail_over iord failed s)) = [r]"
    using assms(2,4) \<open>removeAll failed (prs_isr s) = []\<close>
    by (simp_all add: fail_over_def elect_new_leader_def)
qed

section \<open>The cluster as a state machine\<close>

inductive cluster_step :: "cluster_metadata \<Rightarrow> cluster_metadata \<Rightarrow> bool" where
  Register: "cluster_step cm (register_broker b cm)"
| Beat: "cluster_step cm (update_broker_heartbeat now b cm)"
| Assign: "leader \<in> set replicas \<Longrightarrow> cluster_step cm (set_partition_replicas topic p leader replicas cm)"
| Progress: "unat off + unat (cm_isr_lag_threshold cm) < 2 ^ 64 \<Longrightarrow>
    cluster_step cm (cm_update_replica_offset topic p b off cm)"
| Fail: "is_order iord \<Longrightarrow> cluster_step cm (fst (handle_broker_failure pord iord failed cm))"

inductive_cases cluster_stepE: "cluster_step cm cm'"

definition state_ok :: "string \<times> u32 \<Rightarrow> partition_replica_state \<Rightarrow> bool" where
  "state_ok k s \<longleftrightarrow>
     is_leader_in_sync s \<and> prs_replicas s \<noteq> [] \<and> (prs_topic s, prs_partition s) = k"

definition cluster_ok :: "cluster_metadata \<Rightarrow> bool" where
  "cluster_ok cm \<longleftrightarrow>
     hm_ok (cm_partition_states cm) \<and>
     (\<forall>k s. hm_get (cm_partition_states cm) k = Some s \<longrightarrow> state_ok k s)"

lemma leader_keeps_up:
  assumes "unat off + unat lag < 2 ^ 64"
  shows "(off :: u64) \<le> off + lag"
proof -
  have "unat (off + lag) = unat off + unat lag"
    using assms by (simp add: unat_word_ariths)
  then show ?thesis by (simp add: word_le_nat_alt)
qed

lemma update_state_ok:
  assumes "state_ok k s" and "unat off + unat lag < 2 ^ 64"
  shows "state_ok k (prs_update_replica_offset b off lag s)"
  using assms leader_keeps_up [OF assms(2)]
  by (auto simp: state_ok_def is_leader_in_sync_def update_isr frame_simps leader_offset_after_def
      split: if_splits)

lemma fail_over_state_ok:
  assumes "state_ok k s" and "is_order iord"
  shows "state_ok k (fst (fail_over iord failed s))"
proof (cases "prs_leader s = failed")
  case False
  then show ?thesis
    using assms(1) by (simp add: fail_over_follower state_ok_def is_leader_in_sync_def)
next
  case True
  let ?s1 = "s\<lparr>prs_isr := removeAll failed (prs_isr s)\<rparr>"
  have fo: "fail_over iord failed s = elect_new_leader iord ?s1" using True by (simp add: fail_over_def)
  show ?thesis
  proof (cases "prs_isr ?s1 = []")
    case False
    then obtain l where "elect_new_leader iord ?s1 =
        (?s1\<lparr>prs_leader := l, prs_leader_epoch := prs_leader_epoch ?s1 + 1\<rparr>, Some l)" "l \<in> set (prs_isr ?s1)"
      by (rule elect_from_isr [OF _ assms(2)])
    then show ?thesis using assms(1) fo by (simp add: state_ok_def is_leader_in_sync_def)
  next
    case empty: True
    then have "set (removeAll failed (prs_isr s)) = {}" by simp
    then have "set (prs_isr s) \<subseteq> {failed}" by auto
    moreover obtain r rs where "prs_replicas s = r # rs"
      using assms(1) by (cases "prs_replicas s") (auto simp: state_ok_def)
    ultimately show ?thesis
      using fail_over_unclean [OF assms(2) True] assms(1)
      by (simp add: state_ok_def is_leader_in_sync_def frame_simps)
  qed
qed

lemma cluster_step_ok:
  assumes "cluster_step cm cm'" and "cluster_ok cm"
  shows "cluster_ok cm'"
  using assms(1)
proof cases
  case (Register b)
  then show ?thesis using assms(2) by (simp add: cluster_ok_def register_broker_def)
next
  case (Beat now b)
  then show ?thesis
    using assms(2) by (simp add: cluster_ok_def update_broker_heartbeat_def split: option.split)
next
  case (Assign leader replicas topic p)
  have "state_ok (topic, p) (prs_new topic p leader replicas)"
    using Assign(2) by (auto simp: state_ok_def is_leader_in_sync_def prs_new_def)
  moreover have "state_ok (topic, p) (s\<lparr>prs_leader := leader, prs_replicas := replicas, prs_isr := remdups replicas\<rparr>)"
    if "hm_get (cm_partition_states cm) (topic, p) = Some s" for s
    using that assms(2) Assign(2) by (auto simp: cluster_ok_def state_ok_def is_leader_in_sync_def)
  ultimately show ?thesis
    using assms(2) unfolding Assign(1) cluster_ok_def set_partition_replicas_def
    by (auto simp: hashmap_simps split: option.splits)
next
  case (Progress off topic p b)
  then show ?thesis
    using assms(2) unfolding cluster_ok_def cm_update_replica_offset_def
    by (auto simp: hashmap_simps intro: update_state_ok split: option.splits if_splits)
next
  case (Fail iord pord failed)
  then show ?thesis
    using assms(2) unfolding cluster_ok_def handle_broker_failure_def Let_def
    by (auto simp: hm_get_map intro: fail_over_state_ok)
qed

lemma cluster_reach_ok: "cluster_step\<^sup>*\<^sup>* (cluster_metadata_new b t l) cm \<Longrightarrow> cluster_ok cm"
proof (induction rule: rtranclp_induct)
  case base
  then show ?case by (simp add: cluster_ok_def cluster_metadata_new_def)
qed (rule cluster_step_ok)

text \<open>The elections a failure reports are those of the partitions the failed broker led.\<close>

lemma handle_broker_failure_reports:
  assumes "cluster_ok cm" and "is_order pord" and "is_order iord"
    and "handle_broker_failure pord iord failed cm = (cm', new_leaders)"
  shows "(t, p, l) \<in> set new_leaders \<longleftrightarrow>
           (\<exists>s. hm_get (cm_partition_states cm) (t, p) = Some s \<and> prs_leader s = failed \<and>
              get_partition_leader cm' t p = Some l)"
proof -
  let ?st = "cm_partition_states cm"
  have snd_fst: "snd (fail_over iord failed s) = Some (prs_leader (fst (fail_over iord failed s)))"
    if "prs_leader s = failed" "prs_replicas s \<noteq> []" for s
    using that by (auto simp: fail_over_def elect_new_leader_def Let_def split: list.splits)
  have cm': "cm' = cm\<lparr>cm_partition_states := map (\<lambda>(k, s). (k, fst (fail_over iord failed s))) ?st\<rparr>"
    using assms(4) by (simp add: handle_broker_failure_def Let_def)
  have get: "get_partition_leader cm' t p =
      map_option (\<lambda>s. prs_leader (fst (fail_over iord failed s))) (hm_get ?st (t, p))"
    by (simp add: get_partition_leader_def cm' hm_get_map option.map_comp o_def)
  have ok: "prs_replicas s \<noteq> []" "(prs_topic s, prs_partition s) = k" if "hm_get ?st k = Some s" for k s
    using that assms(1) unfolding cluster_ok_def state_ok_def by blast+
  have set_new: "set new_leaders = {x. \<exists>k s. hm_get ?st k = Some s \<and>
      map_option (\<lambda>l. (prs_topic s, prs_partition s, l)) (snd (fail_over iord failed s)) = Some x}"
  proof (rule set_eqI)
    fix x
    have "x \<in> set new_leaders \<longleftrightarrow> (\<exists>k \<in> set (hm_keys ?st). (case hm_get ?st k of
        Some s \<Rightarrow> map_option (\<lambda>l. (prs_topic s, prs_partition s, l)) (snd (fail_over iord failed s))
      | None \<Rightarrow> None) = Some x)"
      using assms(2,4) by (auto simp: handle_broker_failure_def Let_def in_map_filter)
    also have "\<dots> \<longleftrightarrow> (\<exists>k s. hm_get ?st k = Some s \<and>
        map_option (\<lambda>l. (prs_topic s, prs_partition s, l)) (snd (fail_over iord failed s)) = Some x)"
      by (rule bex_hm_keys)
    finally show "x \<in> set new_leaders \<longleftrightarrow> x \<in> {x. \<exists>k s. hm_get ?st k = Some s \<and>
        map_option (\<lambda>l. (prs_topic s, prs_partition s, l)) (snd (fail_over iord failed s)) = Some x}"
      by simp
  qed
  have "(t, p, l) \<in> set new_leaders \<longleftrightarrow>
      (\<exists>k s. hm_get ?st k = Some s \<and> prs_topic s = t \<and> prs_partition s = p \<and> snd (fail_over iord failed s) = Some l)"
    unfolding set_new by fastforce
  also have "\<dots> \<longleftrightarrow> (\<exists>s. hm_get ?st (t, p) = Some s \<and> snd (fail_over iord failed s) = Some l)"
  proof (intro iffI; elim exE conjE)
    fix k s
    assume a: "hm_get ?st k = Some s" "prs_topic s = t" "prs_partition s = p"
      "snd (fail_over iord failed s) = Some l"
    then have "k = (t, p)" using ok(2) [OF a(1)] by simp
    then show "\<exists>s. hm_get ?st (t, p) = Some s \<and> snd (fail_over iord failed s) = Some l" using a by blast
  next
    fix s
    assume a: "hm_get ?st (t, p) = Some s" "snd (fail_over iord failed s) = Some l"
    then have "prs_topic s = t" "prs_partition s = p" using ok(2) [OF a(1)] by simp_all
    then show "\<exists>k s. hm_get ?st k = Some s \<and> prs_topic s = t \<and> prs_partition s = p \<and>
        snd (fail_over iord failed s) = Some l" using a by blast
  qed
  also have "\<dots> \<longleftrightarrow> (\<exists>s. hm_get ?st (t, p) = Some s \<and> prs_leader s = failed \<and>
      get_partition_leader cm' t p = Some l)"
  proof (intro ex_cong1 conj_cong refl)
    fix s
    assume s: "hm_get ?st (t, p) = Some s"
    show "snd (fail_over iord failed s) = Some l \<longleftrightarrow>
        prs_leader s = failed \<and> get_partition_leader cm' t p = Some l"
      using s ok snd_fst [of s] get fail_over_follower [of s failed iord] by (cases "prs_leader s = failed") auto
  qed
  finally show ?thesis .
qed

end
