(* ===== verification/Replication.thy ===== *)
theory Replication
  imports Cluster Topic_Manager
begin

text \<open>
  \<open>broker/src/replication.rs\<close>: placement of replicas on the alive brokers, the leader's side of
  replication, the health check. The cluster metadata and the topics are shared with the server,
  so the operations take and return them. Placement gives every partition distinct alive brokers,
  as many as the replication factor asks for and the cluster has, and spreads leaders evenly.
\<close>

record replication_fetch_request =
  rfr_topic :: string
  rfr_partition :: u32
  rfr_offset :: u64
  rfr_max_records :: u32

record replication_fetch_response =
  rfs_records :: "stored_record list"
  rfs_high_watermark :: u64
  rfs_leader_epoch :: u32

record replication_manager =
  rm_follower_state :: "(string \<times> u32, u64) hashmap"
  rm_replication_factor :: u32
  rm_max_isr_lag :: u64

record replication_stats =
  st_total_partitions :: nat
  st_leader_partitions :: nat
  st_follower_partitions :: nat
  st_under_replicated_partitions :: nat

type_synonym broker_order = "broker_info list \<Rightarrow> broker_info list"
type_synonym part_order = "(string \<times> u32) list \<Rightarrow> (string \<times> u32) list"
type_synonym isr_order = "broker_id list \<Rightarrow> broker_id list"

definition replication_manager_new :: "u32 \<Rightarrow> u64 \<Rightarrow> replication_manager" where
  "replication_manager_new factor lag =
     \<lparr>rm_follower_state = [], rm_replication_factor = factor, rm_max_isr_lag = lag\<rparr>"

section \<open>Operations\<close>

text \<open>\<open>replicas[0]\<close> panics when the replication factor is zero.\<close>

definition assign_partition_replicas ::
    "broker_order \<Rightarrow> nat \<Rightarrow> replication_manager \<Rightarrow> cluster_metadata \<Rightarrow> u32 \<Rightarrow> (broker_id \<times> broker_id list) outcome" where
  "assign_partition_replicas bord now rm cm p =
     (let alive = get_alive_brokers bord now cm;
          n = length alive in
      if n = 0 then Ok (cm_broker_id cm, [cm_broker_id cm])
      else
        let repl_factor = min (unat (rm_replication_factor rm)) n;
            start_idx = unat p mod n;
            replicas = map (\<lambda>i. bi_id (alive ! ((start_idx + i) mod n))) [0..<repl_factor] in
        case replicas of [] \<Rightarrow> Panic | leader # _ \<Rightarrow> Ok (leader, replicas))"

text \<open>One turn of the follower's loop; \<open>None\<close> when the loop ends.\<close>

definition follower_tick ::
    "topic_manager \<Rightarrow> string \<Rightarrow> u32 \<Rightarrow> replication_manager \<times> cluster_metadata \<Rightarrow>
     (replication_manager \<times> cluster_metadata) option" where
  "follower_tick tm topic p st =
     (case st of (rm, cm) \<Rightarrow>
        if is_partition_leader cm topic p then None
        else
          let current_offset =
                (case hm_get (rm_follower_state rm) (topic, p) of None \<Rightarrow> 0 | Some x \<Rightarrow> x) in
          case get_topic tm topic of
            Ok t \<Rightarrow>
              (case get_partition t p of
                 Ok part \<Rightarrow>
                   let next_offset = partition_next_offset part in
                   if next_offset > current_offset then
                     Some (rm\<lparr>rm_follower_state := hm_insert (topic, p) next_offset (rm_follower_state rm)\<rparr>,
                           cm_update_replica_offset topic p (cm_broker_id cm) next_offset cm)
                   else Some st
               | _ \<Rightarrow> Some st)
          | _ \<Rightarrow> Some st)"

definition find_state ::
    "part_order \<Rightarrow> cluster_metadata \<Rightarrow> string \<Rightarrow> u32 \<Rightarrow> partition_replica_state option" where
  "find_state pord cm topic p =
     find (\<lambda>s. prs_topic s = topic \<and> prs_partition s = p) (get_all_partition_states pord cm)"

text \<open>\<open>unwrap_or_default\<close> turns an error of the fetch into no records; a panic stays one.\<close>

definition handle_replication_fetch ::
    "codecs \<Rightarrow> part_order \<Rightarrow> topic_manager \<Rightarrow> cluster_metadata \<Rightarrow> replication_fetch_request \<Rightarrow>
     replication_fetch_response option outcome" where
  "handle_replication_fetch C pord tm cm req =
     (if \<not> is_partition_leader cm (rfr_topic req) (rfr_partition req) then Ok None
      else
        case tm_fetch C tm (rfr_topic req) (rfr_partition req) (rfr_offset req) (rfr_max_records req) of
          Panic \<Rightarrow> Panic
        | r \<Rightarrow>
            Ok (Some \<lparr>rfs_records = (case r of Ok records \<Rightarrow> records | _ \<Rightarrow> []),
                     rfs_high_watermark = get_high_watermark cm (rfr_topic req) (rfr_partition req),
                     rfs_leader_epoch =
                       (case find_state pord cm (rfr_topic req) (rfr_partition req) of
                          Some s \<Rightarrow> prs_leader_epoch s | None \<Rightarrow> 0)\<rparr>))"

definition update_leader_offset :: "string \<Rightarrow> u32 \<Rightarrow> u64 \<Rightarrow> cluster_metadata \<Rightarrow> cluster_metadata" where
  "update_leader_offset topic p off cm = cm_update_replica_offset topic p (cm_broker_id cm) off cm"

text \<open>The loop of the health check runs over a snapshot of the partition states.\<close>

fun health_loop ::
    "part_order \<Rightarrow> isr_order \<Rightarrow> broker_id list \<Rightarrow> partition_replica_state list \<Rightarrow> cluster_metadata \<Rightarrow> cluster_metadata" where
  "health_loop pord iord alive_ids [] cm = cm"
| "health_loop pord iord alive_ids (s # ss) cm =
     health_loop pord iord alive_ids ss
       (if prs_leader s \<notin> set alive_ids then fst (handle_broker_failure pord iord (prs_leader s) cm) else cm)"

definition check_broker_health ::
    "broker_order \<Rightarrow> part_order \<Rightarrow> isr_order \<Rightarrow> nat \<Rightarrow> cluster_metadata \<Rightarrow> cluster_metadata" where
  "check_broker_health bord pord iord now cm =
     health_loop pord iord (map bi_id (get_alive_brokers bord now cm)) (get_all_partition_states pord cm) cm"

definition saturating_sub :: "u64 \<Rightarrow> u64 \<Rightarrow> u64" where
  "saturating_sub a b = (if b \<le> a then a - b else 0)"

definition get_replication_lag ::
    "part_order \<Rightarrow> cluster_metadata \<Rightarrow> string \<Rightarrow> u32 \<Rightarrow> broker_id \<Rightarrow> u64 option" where
  "get_replication_lag pord cm topic p follower =
     (case find_state pord cm topic p of
        None \<Rightarrow> None
      | Some s \<Rightarrow>
          (case (hm_get (prs_replica_offsets s) (prs_leader s), hm_get (prs_replica_offsets s) follower) of
             (Some l, Some f) \<Rightarrow> Some (saturating_sub l f)
           | _ \<Rightarrow> None))"

definition can_acknowledge_write :: "cluster_metadata \<Rightarrow> string \<Rightarrow> u32 \<Rightarrow> u64 \<Rightarrow> bool" where
  "can_acknowledge_write cm topic p off \<longleftrightarrow> off \<le> get_high_watermark cm topic p"

definition get_replication_stats :: "part_order \<Rightarrow> cluster_metadata \<Rightarrow> replication_stats" where
  "get_replication_stats pord cm =
     (let states = get_all_partition_states pord cm; me = cm_broker_id cm in
      \<lparr>st_total_partitions = length states,
       st_leader_partitions = length (filter (\<lambda>s. prs_leader s = me) states),
       st_follower_partitions =
         length (filter (\<lambda>s. prs_leader s \<noteq> me \<and> me \<in> set (prs_replicas s)) states),
       st_under_replicated_partitions =
         length (filter (\<lambda>s. length (prs_isr s) < length (prs_replicas s)) states)\<rparr>)"

section \<open>Placement\<close>

definition brokers_ok :: "cluster_metadata \<Rightarrow> bool" where
  "brokers_ok cm \<longleftrightarrow>
     hm_ok (cm_brokers cm) \<and> (\<forall>b i. hm_get (cm_brokers cm) b = Some i \<longrightarrow> bi_id i = b)"

lemma brokers_ok_register: "brokers_ok cm \<Longrightarrow> brokers_ok (register_broker b cm)"
  by (auto simp: brokers_ok_def register_broker_def hashmap_simps split: if_splits)

lemma alive_broker_ids:
  assumes "brokers_ok cm" and "is_order bord"
  shows "distinct (map bi_id (get_alive_brokers bord now cm))"
    and "set (map bi_id (get_alive_brokers bord now cm)) = {b. is_broker_alive now cm b}"
proof -
  let ?m = "cm_brokers cm" and ?alive = "is_alive now (cm_broker_timeout cm)"
  have "bi_id (snd x) = fst x" if "x \<in> set ?m" for x
    using assms(1) that by (cases x) (auto simp: brokers_ok_def hm_get_eq_Some)
  then have "map bi_id (map snd ?m) = map fst ?m" by simp
  then have "distinct (map bi_id (map snd ?m))"
    using assms(1) by (metis brokers_ok_def hm_ok_def)
  moreover have "mset (map bi_id (bord (map snd ?m))) = mset (map bi_id (map snd ?m))"
    by (simp only: mset_map order_mset [OF assms(2)])
  ultimately have "distinct (map bi_id (bord (map snd ?m)))"
    by (metis mset_eq_imp_distinct_iff)
  then show "distinct (map bi_id (get_alive_brokers bord now cm))"
    by (simp add: get_alive_brokers_def distinct_map_filter)
  have mem: "(k, i) \<in> set ?m \<longleftrightarrow> hm_get ?m k = Some i" for k i
    using assms(1) by (simp add: brokers_ok_def hm_get_eq_Some)
  have own: "hm_get ?m k = Some i \<Longrightarrow> bi_id i = k" for k i
    using assms(1) by (simp add: brokers_ok_def)
  show "set (map bi_id (get_alive_brokers bord now cm)) = {b. is_broker_alive now cm b}"
  proof (rule set_eqI)
    fix b
    have "b \<in> set (map bi_id (get_alive_brokers bord now cm)) \<longleftrightarrow>
        (\<exists>k i. (k, i) \<in> set ?m \<and> ?alive i \<and> bi_id i = b)"
      using assms(2) by (force simp: get_alive_brokers_def)
    also have "\<dots> \<longleftrightarrow> (\<exists>i. hm_get ?m b = Some i \<and> ?alive i)"
      using own unfolding mem by blast
    also have "\<dots> \<longleftrightarrow> is_broker_alive now cm b"
      by (simp add: is_broker_alive_def split: option.split)
    finally show "b \<in> set (map bi_id (get_alive_brokers bord now cm)) \<longleftrightarrow> b \<in> {b. is_broker_alive now cm b}"
      by simp
  qed
qed


lemma placement_indices:
  assumes "k \<le> n"
  shows "distinct (map (\<lambda>i. (s + i) mod n) [0..<k])"
proof -
  have le: "j \<le> i" if "i \<le> j" "j < n" "(s + i) mod n = (s + j) mod n" for i j
  proof -
    have "n dvd (s + j) - (s + i)" using that by (metis add_le_cancel_left mod_eq_dvd_iff_nat)
    then show ?thesis using that(1,2) by (auto dest: dvd_imp_le)
  qed
  have "inj_on (\<lambda>i. (s + i) mod n) (set [0..<k])"
  proof (rule inj_onI)
    fix i j
    assume a: "i \<in> set [0..<k]" "j \<in> set [0..<k]" "(s + i) mod n = (s + j) mod n"
    then have "i < n" "j < n" using assms by simp_all
    then show "i = j" using le [of i j] le [of j i] a(3) by (metis antisym linear)
  qed
  then show ?thesis by (simp add: distinct_map)
qed

lemma pick_distinct:
  assumes "distinct idx" and "distinct xs" and "\<And>i. i \<in> set idx \<Longrightarrow> i < length xs"
  shows "distinct (map ((!) xs) idx) \<and> set (map ((!) xs) idx) \<subseteq> set xs"
  using assms inj_on_nth [OF assms(2), of "set idx"] by (auto simp: distinct_map)

lemma assign_partition_replicas_ok:
  assumes "brokers_ok cm" and "is_order bord" and "is_broker_alive now cm b" and "0 < rm_replication_factor rm"
  obtains leader replicas where "assign_partition_replicas bord now rm cm p = Ok (leader, leader # replicas)"
    and "distinct (leader # replicas)" and "\<forall>r \<in> set (leader # replicas). is_broker_alive now cm r"
    and "length (leader # replicas) =
      min (unat (rm_replication_factor rm)) (card {b. is_broker_alive now cm b})"
proof -
  let ?alive = "get_alive_brokers bord now cm" and ?n = "length (get_alive_brokers bord now cm)"
  let ?k = "min (unat (rm_replication_factor rm)) ?n"
  let ?idx = "map (\<lambda>i. (unat p mod ?n + i) mod ?n) [0..<?k]"
  let ?rs = "map (\<lambda>i. bi_id (?alive ! i)) ?idx"
  note ids = alive_broker_ids [OF assms(1,2), of now]
  have n: "?n = card {b. is_broker_alive now cm b}"
    using ids by (metis distinct_card length_map)
  have "?alive \<noteq> []" using ids(2) assms(3) by auto
  then have k: "0 < ?k" "0 < ?n" using assms(4) by (simp_all add: unat_gt_0)
  have idx: "distinct ?idx" by (rule placement_indices) simp
  have small: "i < length (map bi_id ?alive)" if "i \<in> set ?idx" for i
    using that k(2) by (auto simp only: set_map length_map image_iff intro!: mod_less_divisor)
  have rs: "?rs = map ((!) (map bi_id ?alive)) ?idx"
  proof (rule map_cong [OF refl])
    fix i
    assume "i \<in> set ?idx"
    from small [OF this] show "bi_id (?alive ! i) = map bi_id ?alive ! i"
      unfolding length_map by (rule nth_map [symmetric])
  qed
  have "distinct ?rs" "set ?rs \<subseteq> set (map bi_id ?alive)"
    unfolding rs using pick_distinct [OF idx ids(1) small] by blast+
  then have "distinct ?rs" "\<forall>r \<in> set ?rs. is_broker_alive now cm r"
    unfolding ids(2) by blast+
  moreover have "length ?rs = ?k" by simp
  moreover from k(1) have "?rs \<noteq> []" by (simp only: length_greater_0_conv [symmetric] length_map length_upt diff_zero)
  then obtain l ls where l: "?rs = l # ls" by (meson neq_Nil_conv)
  moreover have "assign_partition_replicas bord now rm cm p = Ok (l, l # ls)"
    using l k(2) by (simp add: assign_partition_replicas_def Let_def o_def)
  ultimately show thesis using that n by metis
qed

lemma assign_partition_replicas_zero:
  assumes "get_alive_brokers bord now cm \<noteq> []" and "rm_replication_factor rm = 0"
  shows "assign_partition_replicas bord now rm cm p = Panic"
  using assms by (simp add: assign_partition_replicas_def Let_def)

lemma assign_partition_replicas_alone:
  assumes "get_alive_brokers bord now cm = []"
  shows "assign_partition_replicas bord now rm cm p = Ok (cm_broker_id cm, [cm_broker_id cm])"
  using assms by (simp add: assign_partition_replicas_def Let_def)

section \<open>Health checks\<close>

lemma health_loop_steps:
  assumes "is_order iord"
  shows "cluster_step\<^sup>*\<^sup>* cm (health_loop pord iord alive ss cm)"
proof (induction ss arbitrary: cm)
  case (Cons s ss)
  let ?cm = "if prs_leader s \<notin> set alive then fst (handle_broker_failure pord iord (prs_leader s) cm) else cm"
  have "cluster_step\<^sup>*\<^sup>* cm ?cm" using cluster_step.Fail [OF assms] by auto
  from this Cons.IH [of ?cm] have "cluster_step\<^sup>*\<^sup>* cm (health_loop pord iord alive ss ?cm)"
    by (rule rtranclp_trans)
  then show ?case by simp
qed simp

lemma check_broker_health_ok:
  assumes "cluster_ok cm" and "is_order iord"
  shows "cluster_ok (check_broker_health bord pord iord now cm)"
proof -
  have "cluster_step\<^sup>*\<^sup>* cm cm' \<Longrightarrow> cluster_ok cm'" for cm'
    by (induction rule: rtranclp_induct) (auto intro: assms(1) cluster_step_ok)
  then show ?thesis
    unfolding check_broker_health_def using health_loop_steps [OF assms(2)] by blast
qed

text \<open>
  Nothing renews the heartbeat a broker registers with, so after the timeout its own health check
  takes it for dead.
\<close>

lemma self_expires:
  assumes "hm_get (cm_brokers cm) (cm_broker_id cm) = Some i" and "bi_last_heartbeat i = Some t0"
    and "t0 + cm_broker_timeout cm \<le> now"
  shows "\<not> is_broker_alive now cm (cm_broker_id cm)"
  using assms by (simp add: is_broker_alive_def is_alive_def)

lemma find_state_get:
  assumes "cluster_ok cm" and "is_order pord"
  shows "find_state pord cm t p = hm_get (cm_partition_states cm) (t, p)"
proof -
  let ?st = "cm_partition_states cm" and ?all = "get_all_partition_states pord cm"
  have key: "hm_get ?st k = Some s \<Longrightarrow> (prs_topic s, prs_partition s) = k" for k s
    using assms(1) unfolding cluster_ok_def state_ok_def by blast
  have mem: "s \<in> set ?all \<longleftrightarrow> (\<exists>k. hm_get ?st k = Some s)" for s
    using assms(2) unfolding get_all_partition_states_def in_map_filter
    by (auto dest: hm_get_in_keys)
  show ?thesis
  proof (cases "hm_get ?st (t, p)")
    case None
    then have "find (\<lambda>s. prs_topic s = t \<and> prs_partition s = p) ?all = None"
      using mem key by (fastforce simp: find_None_iff)
    then show ?thesis using None by (simp add: find_state_def)
  next
    case (Some s)
    have "find (\<lambda>s. prs_topic s = t \<and> prs_partition s = p) ?all \<noteq> None"
      using mem key [OF Some] Some by (auto simp: find_None_iff)
    then obtain s' where s': "find (\<lambda>s. prs_topic s = t \<and> prs_partition s = p) ?all = Some s'" by auto
    then have "s' \<in> set ?all" "prs_topic s' = t" "prs_partition s' = p"
      by (auto simp: find_Some_iff)
    then have "hm_get ?st (t, p) = Some s'" using mem key by (metis)
    then show ?thesis using s' by (simp add: find_state_def)
  qed
qed

section \<open>Replication fetches\<close>

lemma handle_replication_fetch_leader:
  assumes "codecs_ok C" and "cluster_ok cm" and "is_order pord"
    and "hm_get (cm_partition_states cm) (rfr_topic req, rfr_partition req) = Some s"
    and "prs_leader s = cm_broker_id cm"
    and "find_partition tm (rfr_topic req) (rfr_partition req) = Ok part" and "part_view C part rss"
  shows "handle_replication_fetch C pord tm cm req =
           Ok (Some \<lparr>rfs_records = map (to_record (p_topic_name part) (p_partition_id part))
                 (take (unat (rfr_max_records req)) (drop (unat (rfr_offset req)) (concat rss))),
               rfs_high_watermark = prs_high_watermark s, rfs_leader_epoch = prs_leader_epoch s\<rparr>)"
  using assms find_state_get [OF assms(2,3)] partition_fetch_correct [OF assms(1,7)]
  by (simp add: handle_replication_fetch_def is_partition_leader_def get_partition_leader_def
      tm_fetch_find get_high_watermark_def)

end
