(* ===== verification/Codec.thy ===== *)
theory Codec
  imports Messages
begin

text \<open>
  \<open>protocol/src/codec.rs\<close>: requests and responses travel as frames, four bytes of length and the
  serialised message. The bodies of the two codecs are the same up to the type of message, so
  each is an instance of one pair of functions. Serialisation is that of the bincode crate, a
  parameter. Whatever the boundaries at which the bytes arrive, a reader recovers exactly the
  messages that were sent, in order.
\<close>

record bincode =
  ser_request :: "request \<Rightarrow> string + bytes"
  de_request :: "bytes \<Rightarrow> string + request"
  ser_response :: "response \<Rightarrow> string + bytes"
  de_response :: "bytes \<Rightarrow> string + response"

text \<open>What the sources rely on: deserialising what was serialised gives the message back.\<close>

definition bincode_ok :: "bincode \<Rightarrow> bool" where
  "bincode_ok B \<longleftrightarrow>
     (\<forall>x b. ser_request B x = Inr b \<longrightarrow> de_request B b = Inr x) \<and>
     (\<forall>x b. ser_response B x = Inr b \<longrightarrow> de_response B b = Inr x)"

definition MAX_MESSAGE_SIZE :: nat where
  "MAX_MESSAGE_SIZE = 10 * 1024 * 1024"

definition too_large_text :: "nat \<Rightarrow> string" where
  "too_large_text n =
     ''Message too large: '' @ show_nat n @ '' bytes (max: '' @ show_nat MAX_MESSAGE_SIZE @ '' bytes)''"

text \<open>Decoding returns what is left in the buffer, and no item while a frame is incomplete.\<close>

definition decode_frame :: "(bytes \<Rightarrow> string + 'a) \<Rightarrow> bytes \<Rightarrow> bytes \<times> 'a option outcome" where
  "decode_frame deserialize src =
     (if length src < 4 then (src, Ok None)
      else
        let len = unat (u32_from_be_bytes (take 4 src)) in
        if len > MAX_MESSAGE_SIZE then (src, Err (Protocol (too_large_text len)))
        else if length src < 4 + len then (src, Ok None)
        else
          let src1 = drop 4 src; data = take len src1; src2 = drop len src1 in
          case deserialize data of
            Inl e \<Rightarrow> (src2, Err (Serialization e))
          | Inr item \<Rightarrow> (src2, Ok (Some item)))"

definition encode_frame :: "('a \<Rightarrow> string + bytes) \<Rightarrow> 'a \<Rightarrow> bytes \<Rightarrow> bytes \<times> unit outcome" where
  "encode_frame serialize item dst =
     (case serialize item of
        Inl e \<Rightarrow> (dst, Err (Serialization e))
      | Inr data \<Rightarrow>
          if length data > MAX_MESSAGE_SIZE then (dst, Err (Protocol (too_large_text (length data))))
          else (dst @ u32_to_be_bytes (of_nat (length data)) @ data, Ok ()))"

definition gaffa_codec_decode :: "bincode \<Rightarrow> bytes \<Rightarrow> bytes \<times> request option outcome" where
  "gaffa_codec_decode B = decode_frame (de_request B)"

definition gaffa_codec_encode :: "bincode \<Rightarrow> response \<Rightarrow> bytes \<Rightarrow> bytes \<times> unit outcome" where
  "gaffa_codec_encode B = encode_frame (ser_response B)"

definition client_codec_encode :: "bincode \<Rightarrow> request \<Rightarrow> bytes \<Rightarrow> bytes \<times> unit outcome" where
  "client_codec_encode B = encode_frame (ser_request B)"

definition client_codec_decode :: "bincode \<Rightarrow> bytes \<Rightarrow> bytes \<times> response option outcome" where
  "client_codec_decode B = decode_frame (de_response B)"

section \<open>Reading a stream\<close>

text \<open>
  A framed reader calls the decoder until it returns no item, then appends the next bytes to the
  buffer. \<open>drain\<close> has as fuel more than the length of the buffer, of which every item consumes
  some; \<open>feed\<close> is the reader over the chunks in which the bytes arrive.
\<close>

fun drain :: "(bytes \<Rightarrow> bytes \<times> 'a option outcome) \<Rightarrow> nat \<Rightarrow> bytes \<Rightarrow> 'a list \<times> bytes" where
  "drain dec 0 src = ([], src)"
| "drain dec (Suc n) src =
     (case dec src of
        (src', Ok (Some x)) \<Rightarrow> (let (xs, rest) = drain dec n src' in (x # xs, rest))
      | (src', _) \<Rightarrow> ([], src'))"

fun feed :: "(bytes \<Rightarrow> bytes \<times> 'a option outcome) \<Rightarrow> bytes \<Rightarrow> bytes list \<Rightarrow> 'a list \<times> bytes" where
  "feed dec buf [] = ([], buf)"
| "feed dec buf (c # cs) =
     (let (xs, buf1) = drain dec (Suc (length (buf @ c))) (buf @ c);
          (ys, buf2) = feed dec buf1 cs
      in (xs @ ys, buf2))"

fun encode_stream :: "('a \<Rightarrow> bytes \<Rightarrow> bytes \<times> unit outcome) \<Rightarrow> 'a list \<Rightarrow> bytes \<Rightarrow> bytes" where
  "encode_stream enc [] dst = dst"
| "encode_stream enc (x # xs) dst = encode_stream enc xs (fst (enc x dst))"

section \<open>The contract of a framing\<close>

locale framing =
  fixes enc :: "'a \<Rightarrow> bytes \<Rightarrow> bytes \<times> unit outcome"
    and dec :: "bytes \<Rightarrow> bytes \<times> 'a option outcome"
    and sendable :: "'a \<Rightarrow> bool"
    and frame :: "'a \<Rightarrow> bytes"
  assumes enc_ok: "sendable x \<Longrightarrow> enc x dst = (dst @ frame x, Ok ())"
    and dec_ok: "sendable x \<Longrightarrow> dec (frame x @ rest) = (rest, Ok (Some x))"
    and dec_partial: "sendable x \<Longrightarrow> n < length (frame x) \<Longrightarrow>
          dec (take n (frame x)) = (take n (frame x), Ok None)"
    and dec_empty: "dec [] = ([], Ok None)"
begin

definition pending :: "'a list \<Rightarrow> bytes \<Rightarrow> bool" where
  "pending xs buf \<longleftrightarrow>
     (case xs of [] \<Rightarrow> buf = [] | x # _ \<Rightarrow> \<exists>n<length (frame x). buf = take n (frame x))"

lemma frame_not_Nil: "sendable x \<Longrightarrow> frame x \<noteq> []"
  using dec_ok [of x "[]"] dec_empty by auto

lemma encode_stream_frames:
  "\<forall>x \<in> set xs. sendable x \<Longrightarrow> encode_stream enc xs dst = dst @ concat (map frame xs)"
  by (induction xs arbitrary: dst) (simp_all add: enc_ok)

lemma drain_frames:
  assumes "\<forall>x \<in> set (xs @ ys). sendable x" and "pending ys buf" and "length xs < fuel"
  shows "drain dec fuel (concat (map frame xs) @ buf) = (xs, buf)"
  using assms
proof (induction xs arbitrary: fuel)
  case Nil
  have "dec buf = (buf, Ok None)"
    using Nil dec_partial dec_empty by (auto simp: pending_def split: list.splits)
  then show ?case using Nil.prems(3) by (cases fuel) simp_all
next
  case (Cons x xs)
  then show ?case by (cases fuel) (simp_all add: dec_ok)
qed

lemma take_frames:
  assumes "\<forall>x \<in> set xs. sendable x" and "n \<le> length (concat (map frame xs))"
  obtains k buf where "k \<le> length xs" and "take n (concat (map frame xs)) = concat (map frame (take k xs)) @ buf"
    and "pending (drop k xs) buf"
  using assms
proof (induction xs arbitrary: n thesis)
  case Nil
  then show ?case by (intro Nil.prems(1) [of 0 "[]"]) (simp_all add: pending_def)
next
  case (Cons x xs)
  let ?l = "length (frame x)"
  show ?case
  proof (cases "n < ?l")
    case True
    then show ?thesis
      by (intro Cons.prems(1) [of 0 "take n (frame x)"]) (auto simp: pending_def)
  next
    case False
    have p: "\<forall>x \<in> set xs. sendable x" "n - ?l \<le> length (concat (map frame xs))"
      using Cons.prems(2,3) by auto
    obtain k buf where "k \<le> length xs" "take (n - ?l) (concat (map frame xs)) = concat (map frame (take k xs)) @ buf"
      "pending (drop k xs) buf"
      by (rule Cons.IH [OF _ p])
    then show ?thesis using False by (intro Cons.prems(1) [of "Suc k" buf]) auto
  qed
qed

lemma frames_long: "\<forall>x \<in> set xs. sendable x \<Longrightarrow> length xs \<le> length (concat (map frame xs))"
proof (induction xs)
  case (Cons x xs)
  then have "1 \<le> length (frame x)" using frame_not_Nil [of x] by (simp add: Suc_le_eq)
  then show ?case using Cons by simp
qed simp

text \<open>The messages read do not depend on how the stream is cut into chunks.\<close>

lemma feed_chunks:
  assumes "\<forall>x \<in> set xs. sendable x" and "pending xs buf" and "buf @ concat chunks = concat (map frame xs)"
  shows "feed dec buf chunks = (xs, [])"
  using assms
proof (induction chunks arbitrary: buf xs)
  case Nil
  have "xs = []"
  proof (cases xs)
    case (Cons x ys)
    then obtain n where "n < length (frame x)" "buf = take n (frame x)"
      using Nil.prems(2) by (auto simp: pending_def)
    then have "length buf < length (frame x)" by simp
    moreover have "length (frame x) \<le> length buf"
      using Nil.prems(3) Cons by (metis append_Nil2 concat.simps le_add1 length_append list.map(2))
    ultimately show ?thesis by simp
  qed
  then show ?case using Nil by simp
next
  case (Cons c cs)
  let ?n = "length (buf @ c)"
  have all: "concat (map frame xs) = (buf @ c) @ concat cs" using Cons.prems(3) by simp
  then have le: "?n \<le> length (concat (map frame xs))" and pre: "take ?n (concat (map frame xs)) = buf @ c"
    by (metis le_add1 length_append, metis append_eq_conv_conj)
  obtain k buf' where k: "k \<le> length xs" "take ?n (concat (map frame xs)) = concat (map frame (take k xs)) @ buf'"
    "pending (drop k xs) buf'"
    by (rule take_frames [OF Cons.prems(1) le])
  have cut: "buf @ c = concat (map frame (take k xs)) @ buf'" using k(2) pre by simp
  have good: "\<forall>x \<in> set (take k xs @ drop k xs). sendable x" using Cons.prems(1) by simp
  have "length (take k xs) \<le> length (concat (map frame (take k xs)))"
    using Cons.prems(1) by (intro frames_long) (auto dest: in_set_takeD)
  then have "length (take k xs) < Suc ?n" unfolding cut by simp
  then have "drain dec (Suc ?n) (buf @ c) = (take k xs, buf')"
    unfolding cut by (rule drain_frames [OF good k(3)])
  moreover have "buf' @ concat cs = concat (map frame (drop k xs))"
    using all cut concat_map_take_drop [of frame xs k] by simp
  then have "feed dec buf' cs = (drop k xs, [])"
    using Cons.prems(1) k(3) by (intro Cons.IH) (auto dest: in_set_dropD)
  ultimately show ?case by simp
qed

lemma stream_roundtrip:
  assumes "\<forall>x \<in> set xs. sendable x" and "concat chunks = encode_stream enc xs []"
  shows "feed dec [] chunks = (xs, [])"
proof (rule feed_chunks [OF assms(1)])
  show "pending xs []"
    using assms(1) frame_not_Nil by (auto simp: pending_def intro!: exI [of _ 0] split: list.split)
  show "[] @ concat chunks = concat (map frame xs)"
    using assms encode_stream_frames [OF assms(1), of "[]"] by simp
qed

end

section \<open>The codecs are framings\<close>

definition frame_sendable :: "('a \<Rightarrow> string + bytes) \<Rightarrow> (bytes \<Rightarrow> string + 'a) \<Rightarrow> 'a \<Rightarrow> bool" where
  "frame_sendable serialize deserialize x \<longleftrightarrow>
     (case serialize x of
        Inl e \<Rightarrow> False
      | Inr data \<Rightarrow> length data \<le> MAX_MESSAGE_SIZE \<and> deserialize data = Inr x)"

definition frame_bytes :: "('a \<Rightarrow> string + bytes) \<Rightarrow> 'a \<Rightarrow> bytes" where
  "frame_bytes serialize x = fst (encode_frame serialize x [])"

lemma frame_sendableE:
  assumes "frame_sendable ser de x"
  obtains data where "ser x = Inr data" and "length data \<le> MAX_MESSAGE_SIZE" and "de data = Inr x"
    and "frame_bytes ser x = u32_to_be_bytes (of_nat (length data)) @ data"
    and "unat (of_nat (length data) :: u32) = length data"
  using assms
  by (auto simp: frame_sendable_def frame_bytes_def encode_frame_def MAX_MESSAGE_SIZE_def
      unat_of_nat_u32 split: sum.splits)

lemma decode_frame_short: "length src < 4 \<Longrightarrow> decode_frame de src = (src, Ok None)"
  by (simp add: decode_frame_def)

interpretation frames: framing "encode_frame ser" "decode_frame de" "frame_sendable ser de"
    "frame_bytes ser" for ser de
proof
  fix x dst rest n
  assume "frame_sendable ser de x"
  then obtain data where d: "ser x = Inr data" "length data \<le> MAX_MESSAGE_SIZE" "de data = Inr x"
    "frame_bytes ser x = u32_to_be_bytes (of_nat (length data)) @ data"
    "unat (of_nat (length data) :: u32) = length data"
    by (rule frame_sendableE)
  show "encode_frame ser x dst = (dst @ frame_bytes ser x, Ok ())"
    using d by (simp add: encode_frame_def)
  show "decode_frame de (frame_bytes ser x @ rest) = (rest, Ok (Some x))"
    using d by (simp add: decode_frame_def Let_def)
  show "decode_frame de (take n (frame_bytes ser x)) = (take n (frame_bytes ser x), Ok None)"
    if "n < length (frame_bytes ser x)"
  proof (cases "n < 4")
    case True
    then show ?thesis by (intro decode_frame_short) simp
  next
    case False
    then have "take 4 (take n (frame_bytes ser x)) = u32_to_be_bytes (of_nat (length data))"
      using d(4) by simp
    then show ?thesis using that d False by (simp add: decode_frame_def Let_def)
  qed
qed (simp add: decode_frame_def)

text \<open>A length above the limit is refused before anything is read or reserved for it.\<close>

lemma decode_frame_oversize:
  assumes "4 \<le> length src" and "MAX_MESSAGE_SIZE < unat (u32_from_be_bytes (take 4 src))"
  shows "decode_frame de src =
           (src, Err (Protocol (too_large_text (unat (u32_from_be_bytes (take 4 src))))))"
  using assms by (simp add: decode_frame_def Let_def)

text \<open>The decoder never takes more than one whole frame from the buffer.\<close>

lemma decode_frame_suffix:
  assumes "decode_frame de src = (src', r)"
  obtains "src' = src" and "is_ok r \<longrightarrow> r = Ok None"
  | n where "n \<le> MAX_MESSAGE_SIZE" and "src' = drop (4 + n) src" and "4 + n \<le> length src"
proof (cases "src' = drop (4 + unat (u32_from_be_bytes (take 4 src))) src \<and>
      4 + unat (u32_from_be_bytes (take 4 src)) \<le> length src \<and>
      unat (u32_from_be_bytes (take 4 src)) \<le> MAX_MESSAGE_SIZE")
  case True
  then show thesis using that(2) by blast
next
  case False
  then show thesis
    using assms
    by (intro that(1)) (auto simp: decode_frame_def Let_def add.commute split: if_splits sum.splits)
qed

text \<open>A serialiser for evaluation: one request and one response.\<close>

definition demo_bincode :: bincode where
  "demo_bincode =
     \<lparr>ser_request = (\<lambda>x. if x = ListTopics then Inr [7] else Inl ''unsupported''),
      de_request = (\<lambda>b. if b = [7] then Inr ListTopics else Inl ''invalid''),
      ser_response = (\<lambda>x. if x = Topics [] then Inr [6, 0] else Inl ''unsupported''),
      de_response = (\<lambda>b. if b = [6, 0] then Inr (Topics []) else Inl ''invalid'')\<rparr>"

lemma demo_bincode_ok: "bincode_ok demo_bincode"
  by (simp add: bincode_ok_def demo_bincode_def)

end
