(* ===== verification/Server.thy ===== *)
theory Server
  imports Replication Coordinator Offset_Manager Codec
begin

text \<open>
  \<open>broker/src/server.rs\<close>: the state of a broker, its construction, one function for every request,
  the two periodic tasks and the loop of a connection. What the environment decides for one
  request (the clock, the random identifier, the iteration orders of the hash maps) is an
  argument; the theorems hold for every choice.
\<close>

record broker =
  br_config :: broker_config
  br_topics :: topic_manager
  br_coordinator :: group_coordinator
  br_offsets :: offset_manager
  br_cluster :: cluster_metadata
  br_replication :: replication_manager

record environment =
  env_now :: nat
  env_uuid :: string
  env_topics :: order
  env_subscribed :: order
  env_members :: order
  env_groups :: order
  env_clock :: "string \<Rightarrow> nat"
  env_entries :: entry_order
  env_brokers :: broker_order
  env_parts :: part_order
  env_isr :: isr_order

definition env_ok :: "environment \<Rightarrow> bool" where
  "env_ok e \<longleftrightarrow>
     is_order (env_topics e) \<and> is_order (env_subscribed e) \<and> is_order (env_members e) \<and>
     is_order (env_groups e) \<and> is_order (env_entries e) \<and> is_order (env_brokers e) \<and>
     is_order (env_parts e) \<and> is_order (env_isr e)"

section \<open>Construction\<close>

text \<open>Durations are in milliseconds: the heartbeat timeouts are 30 seconds.\<close>

definition broker_new ::
    "codecs \<Rightarrow> nat \<Rightarrow> broker_config \<Rightarrow> (string \<times> part_dirs) list option \<Rightarrow> (string, string) hashmap \<Rightarrow> broker outcome" where
  "broker_new C now config listing offset_files =
     and_then (case tm_open C (cfg_data_dir config) listing of
                 Ok tm \<Rightarrow> Ok tm
               | Err _ \<Rightarrow> Ok (tm_new (cfg_data_dir config) (case listing of None \<Rightarrow> [] | Some l \<Rightarrow> l))
               | Panic \<Rightarrow> Panic) (\<lambda>tm.
       Ok \<lparr>br_config = config,
           br_topics = tm,
           br_coordinator = group_coordinator_new 30000,
           br_offsets = offset_manager_new (cfg_data_dir config) offset_files,
           br_cluster =
             register_broker (broker_info_new now (cfg_broker_id config) (cfg_host config) (cfg_port config))
               (cluster_metadata_new (cfg_broker_id config) 30000 (cfg_max_isr_lag config)),
           br_replication =
             replication_manager_new (cfg_replication_factor config) (cfg_max_isr_lag config)\<rparr>)"

text \<open>The start of \<open>run\<close>, and the bodies of its two periodic tasks.\<close>

definition broker_start ::
    "((string \<times> string) list \<Rightarrow> (string \<times> string) list) \<Rightarrow> broker \<Rightarrow> broker" where
  "broker_start ford b = b\<lparr>br_offsets := om_load ford (br_offsets b)\<rparr>"

text \<open>\<open>main.rs\<close>: the executable starts a server with the default configuration.\<close>

definition broker_main ::
    "codecs \<Rightarrow> nat \<Rightarrow> (string \<times> part_dirs) list option \<Rightarrow> (string, string) hashmap \<Rightarrow>
     ((string \<times> string) list \<Rightarrow> (string \<times> string) list) \<Rightarrow> broker outcome" where
  "broker_main C now listing offset_files ford =
     and_then (broker_new C now broker_config_default listing offset_files) (\<lambda>b. Ok (broker_start ford b))"

definition tick_groups :: "environment \<Rightarrow> broker \<Rightarrow> broker" where
  "tick_groups e b =
     b\<lparr>br_coordinator := check_heartbeats (env_groups e) (env_subscribed e) (env_members e) (env_clock e)
          (br_coordinator b)\<rparr>"

definition tick_health :: "environment \<Rightarrow> broker \<Rightarrow> broker" where
  "tick_health e b =
     b\<lparr>br_cluster := check_broker_health (env_brokers e) (env_parts e) (env_isr e) (env_now e) (br_cluster b)\<rparr>"

section \<open>Requests\<close>

fun assign_replicas ::
    "environment \<Rightarrow> replication_manager \<Rightarrow> string \<Rightarrow> u32 list \<Rightarrow> cluster_metadata \<Rightarrow> cluster_metadata outcome" where
  "assign_replicas e rm name [] cm = Ok cm"
| "assign_replicas e rm name (p # ps) cm =
     and_then (assign_partition_replicas (env_brokers e) (env_now e) rm cm p) (\<lambda>(leader, replicas).
       assign_replicas e rm name ps (set_partition_replicas name p leader replicas cm))"

definition handle_create_topic :: "environment \<Rightarrow> string \<Rightarrow> u32 \<Rightarrow> broker \<Rightarrow> broker \<times> response outcome" where
  "handle_create_topic e name partitions b =
     (case create_topic name partitions (br_topics b) of
        (tm, Ok _) \<Rightarrow>
          (case assign_replicas e (br_replication b) name (u32_range partitions) (br_cluster b) of
             Ok cm \<Rightarrow> (b\<lparr>br_topics := tm, br_cluster := cm\<rparr>, Ok (CreateTopicSuccess name partitions))
           | Err er \<Rightarrow> (b\<lparr>br_topics := tm\<rparr>, Err er)
           | Panic \<Rightarrow> (b\<lparr>br_topics := tm\<rparr>, Panic))
      | (tm, Err er) \<Rightarrow> (b\<lparr>br_topics := tm\<rparr>, Ok (CreateTopicError (error_to_string er)))
      | (tm, Panic) \<Rightarrow> (b\<lparr>br_topics := tm\<rparr>, Panic))"

definition handle_produce ::
    "codecs \<Rightarrow> string \<Rightarrow> u32 \<Rightarrow> message list \<Rightarrow> broker \<Rightarrow> broker \<times> response outcome" where
  "handle_produce C topic p messages b =
     (case tm_append C topic p messages (br_topics b) of
        (tm, Ok base_offset) \<Rightarrow>
          (let cnt = of_nat (length messages) :: u32;
               final_offset = base_offset + ucast cnt in
           (b\<lparr>br_topics := tm, br_cluster := update_leader_offset topic p final_offset (br_cluster b)\<rparr>,
            Ok (ProduceSuccess topic p base_offset cnt)))
      | (tm, Err er) \<Rightarrow> (b\<lparr>br_topics := tm\<rparr>, Ok (ProduceError (error_to_string er)))
      | (tm, Panic) \<Rightarrow> (b\<lparr>br_topics := tm\<rparr>, Panic))"

definition handle_fetch :: "codecs \<Rightarrow> string \<Rightarrow> u32 \<Rightarrow> u64 \<Rightarrow> u32 \<Rightarrow> broker \<Rightarrow> response outcome" where
  "handle_fetch C topic p off max_messages b =
     (case tm_fetch C (br_topics b) topic p off max_messages of
        Ok records \<Rightarrow> Ok (FetchSuccess topic p records)
      | Err er \<Rightarrow> Ok (FetchError (error_to_string er))
      | Panic \<Rightarrow> Panic)"

definition handle_get_metadata :: "environment \<Rightarrow> string list \<Rightarrow> broker \<Rightarrow> response" where
  "handle_get_metadata e topics b =
     (let names = (if topics = [] then list_topics (env_topics e) (br_topics b) else topics) in
      Metadata (List.map_filter (\<lambda>name. case get_topic (br_topics b) name of
          Ok t \<Rightarrow> Some (topic_metadata_new name (num_partitions t)) | _ \<Rightarrow> None) names))"

definition handle_get_partitions :: "string \<Rightarrow> broker \<Rightarrow> response" where
  "handle_get_partitions topic b =
     (case get_topic (br_topics b) topic of
        Ok t \<Rightarrow> Partitions topic (num_partitions t)
      | Err er \<Rightarrow> PartitionsError (error_to_string er)
      | Panic \<Rightarrow> PartitionsError [])"

fun learn_partitions :: "topic_manager \<Rightarrow> string list \<Rightarrow> group_coordinator \<Rightarrow> group_coordinator" where
  "learn_partitions tm [] gc = gc"
| "learn_partitions tm (t # ts) gc =
     learn_partitions tm ts
       (case get_topic tm t of Ok to \<Rightarrow> update_topic_partitions t (num_partitions to) gc | _ \<Rightarrow> gc)"

definition handle_join_group ::
    "environment \<Rightarrow> string \<Rightarrow> string option \<Rightarrow> string list \<Rightarrow> broker \<Rightarrow> broker \<times> response outcome" where
  "handle_join_group e group_id member_id topics b =
     (let gc = learn_partitions (br_topics b) topics (br_coordinator b) in
      case join_group (env_subscribed e) (env_members e) (env_now e) (env_uuid e) group_id member_id topics gc of
        (gc', Ok (mid, assignments)) \<Rightarrow>
          (b\<lparr>br_coordinator := gc'\<rparr>, Ok (JoinGroupSuccess group_id mid assignments))
      | (gc', Err er) \<Rightarrow> (b\<lparr>br_coordinator := gc'\<rparr>, Ok (JoinGroupError (error_to_string er)))
      | (gc', Panic) \<Rightarrow> (b\<lparr>br_coordinator := gc'\<rparr>, Panic))"

definition handle_leave_group ::
    "environment \<Rightarrow> string \<Rightarrow> string \<Rightarrow> broker \<Rightarrow> broker \<times> response outcome" where
  "handle_leave_group e group_id member_id b =
     (case leave_group (env_subscribed e) (env_members e) group_id member_id (br_coordinator b) of
        (gc, Ok _) \<Rightarrow> (b\<lparr>br_coordinator := gc\<rparr>, Ok (LeaveGroupSuccess group_id))
      | (gc, Err er) \<Rightarrow> (b\<lparr>br_coordinator := gc\<rparr>, Ok (LeaveGroupError (error_to_string er)))
      | (gc, Panic) \<Rightarrow> (b\<lparr>br_coordinator := gc\<rparr>, Panic))"

definition handle_heartbeat ::
    "environment \<Rightarrow> string \<Rightarrow> string \<Rightarrow> broker \<Rightarrow> broker \<times> response outcome" where
  "handle_heartbeat e group_id member_id b =
     (case coordinator_heartbeat (env_now e) group_id member_id (br_coordinator b) of
        (gc, Ok needs_rejoin) \<Rightarrow>
          (b\<lparr>br_coordinator := gc\<rparr>,
           Ok (if needs_rejoin then HeartbeatError ''Rebalance in progress'' True else HeartbeatSuccess))
      | (gc, Err er) \<Rightarrow> (b\<lparr>br_coordinator := gc\<rparr>, Ok (HeartbeatError (error_to_string er) False))
      | (gc, Panic) \<Rightarrow> (b\<lparr>br_coordinator := gc\<rparr>, Panic))"

definition handle_commit_offset ::
    "environment \<Rightarrow> string \<Rightarrow> string \<Rightarrow> u32 \<Rightarrow> u64 \<Rightarrow> broker \<Rightarrow> broker \<times> response outcome" where
  "handle_commit_offset e group_id topic p off b =
     (case om_commit_offset (env_entries e) group_id topic p off (br_offsets b) of
        (om, Ok _) \<Rightarrow> (b\<lparr>br_offsets := om\<rparr>, Ok (CommitOffsetSuccess group_id topic p off))
      | (om, Err er) \<Rightarrow> (b\<lparr>br_offsets := om\<rparr>, Ok (CommitOffsetError (error_to_string er)))
      | (om, Panic) \<Rightarrow> (b\<lparr>br_offsets := om\<rparr>, Panic))"

definition handle_fetch_offset :: "string \<Rightarrow> string \<Rightarrow> u32 \<Rightarrow> broker \<Rightarrow> response outcome" where
  "handle_fetch_offset group_id topic p b =
     (case om_fetch_offset (br_offsets b) group_id topic p of
        Ok (Some off) \<Rightarrow> Ok (FetchOffsetSuccess group_id topic p off)
      | Ok None \<Rightarrow> Ok (FetchOffsetSuccess group_id topic p 0)
      | Err er \<Rightarrow> Ok (FetchOffsetError (error_to_string er))
      | Panic \<Rightarrow> Panic)"

definition handle_register_broker ::
    "environment \<Rightarrow> broker_id \<Rightarrow> string \<Rightarrow> u16 \<Rightarrow> broker \<Rightarrow> broker \<times> response outcome" where
  "handle_register_broker e bid host port b =
     (b\<lparr>br_cluster := register_broker (broker_info_new (env_now e) bid host port) (br_cluster b)\<rparr>,
      Ok (RegisterBrokerSuccess bid))"

definition handle_get_cluster_metadata :: "environment \<Rightarrow> broker \<Rightarrow> response" where
  "handle_get_cluster_metadata e b =
     ClusterMetadataResponse
       (map (\<lambda>i. \<lparr>bm_id = bi_id i, bm_host = bi_host i, bm_port = bi_port i\<rparr>)
          (get_alive_brokers (env_brokers e) (env_now e) (br_cluster b)))
       (map (\<lambda>s. \<lparr>tpm_topic = prs_topic s, tpm_partition = prs_partition s, tpm_leader = prs_leader s,
                 tpm_replicas = prs_replicas s, tpm_isr = env_isr e (prs_isr s)\<rparr>)
          (get_all_partition_states (env_parts e) (br_cluster b)))"

definition handle_replication_request ::
    "codecs \<Rightarrow> environment \<Rightarrow> string \<Rightarrow> u32 \<Rightarrow> u64 \<Rightarrow> broker \<Rightarrow> response outcome" where
  "handle_replication_request C e topic p off b =
     and_then (handle_replication_fetch C (env_parts e) (br_topics b) (br_cluster b)
         \<lparr>rfr_topic = topic, rfr_partition = p, rfr_offset = off, rfr_max_records = 1000\<rparr>) (\<lambda>r.
       Ok (case r of
             Some resp \<Rightarrow>
               ReplicationFetchSuccess (rfs_records resp) (rfs_high_watermark resp) (rfs_leader_epoch resp)
           | None \<Rightarrow> ReplicationFetchError ''Not the leader for this partition''))"

fun process_request ::
    "codecs \<Rightarrow> environment \<Rightarrow> request \<Rightarrow> broker \<Rightarrow> broker \<times> response outcome" where
  "process_request C e (CreateTopic name partitions) b = handle_create_topic e name partitions b"
| "process_request C e (Produce topic p messages) b = handle_produce C topic p messages b"
| "process_request C e (Fetch topic p off max_messages) b = (b, handle_fetch C topic p off max_messages b)"
| "process_request C e (GetMetadata topics) b = (b, Ok (handle_get_metadata e topics b))"
| "process_request C e (GetPartitions topic) b = (b, Ok (handle_get_partitions topic b))"
| "process_request C e ListTopics b = (b, Ok (Topics (list_topics (env_topics e) (br_topics b))))"
| "process_request C e (JoinGroup group_id member_id topics) b =
     handle_join_group e group_id member_id topics b"
| "process_request C e (LeaveGroup group_id member_id) b = handle_leave_group e group_id member_id b"
| "process_request C e (Heartbeat group_id member_id) b = handle_heartbeat e group_id member_id b"
| "process_request C e (CommitOffset group_id topic p off) b =
     handle_commit_offset e group_id topic p off b"
| "process_request C e (FetchOffset group_id topic p) b = (b, handle_fetch_offset group_id topic p b)"
| "process_request C e (RegisterBroker bid host port) b = handle_register_broker e bid host port b"
| "process_request C e GetClusterMetadata b = (b, Ok (handle_get_cluster_metadata e b))"
| "process_request C e (ReplicationFetch bid topic p off) b =
     (b, handle_replication_request C e topic p off b)"

text \<open>
  The loop of a connection, over the bytes that arrive until the client closes it. \<open>es i\<close> is the
  environment of the \<open>i\<close>-th request; the fuel is more than the number of bytes. Bytes that are left when the stream ends are an
  error of the framed reader.
\<close>

fun connection_loop ::
    "codecs \<Rightarrow> bincode \<Rightarrow> (nat \<Rightarrow> environment) \<Rightarrow> nat \<Rightarrow> nat \<Rightarrow> bytes \<Rightarrow> broker \<Rightarrow> bytes \<Rightarrow>
     broker \<times> bytes \<times> unit outcome" where
  "connection_loop C B es 0 i src b out = (b, out, Ok ())"
| "connection_loop C B es (Suc fuel) i src b out =
     (case gaffa_codec_decode B src of
        (src', Ok (Some req)) \<Rightarrow>
          (case process_request C (es i) req b of
             (b', Ok resp) \<Rightarrow>
               (case gaffa_codec_encode B resp out of
                  (out', Ok _) \<Rightarrow> connection_loop C B es fuel (Suc i) src' b' out'
                | (out', Err er) \<Rightarrow> (b', out', Err er)
                | (out', Panic) \<Rightarrow> (b', out', Panic))
           | (b', Err er) \<Rightarrow> (b', out, Err er)
           | (b', Panic) \<Rightarrow> (b', out, Panic))
      | (src', Ok None) \<Rightarrow> (b, out, if src' = [] then Ok () else Err (Io ''bytes remaining on stream''))
      | (src', Err er) \<Rightarrow> (b, out, Err er)
      | (src', Panic) \<Rightarrow> (b, out, Panic))"

definition handle_connection ::
    "codecs \<Rightarrow> bincode \<Rightarrow> (nat \<Rightarrow> environment) \<Rightarrow> bytes \<Rightarrow> broker \<Rightarrow> broker \<times> bytes \<times> unit outcome" where
  "handle_connection C B es src b = connection_loop C B es (Suc (length src)) 0 src b []"

section \<open>Invariants of a running broker\<close>

lemma learn_partitions_steps: "coord_step\<^sup>*\<^sup>* gc (learn_partitions tm ts gc)"
proof (induction ts arbitrary: gc)
  case (Cons t ts)
  let ?gc = "case get_topic tm t of Ok to \<Rightarrow> update_topic_partitions t (num_partitions to) gc | _ \<Rightarrow> gc"
  have "coord_step\<^sup>*\<^sup>* gc ?gc" by (auto intro: coord_step.Update split: outcome.split)
  from this Cons.IH [of ?gc] have "coord_step\<^sup>*\<^sup>* gc (learn_partitions tm ts ?gc)"
    by (rule rtranclp_trans)
  then show ?case by simp
qed simp

lemma join_steps:
  assumes "env_ok e"
  shows "coord_step\<^sup>*\<^sup>* (br_coordinator b) (br_coordinator (fst (handle_join_group e gid mid topics b)))"
proof -
  let ?gc = "learn_partitions (br_topics b) topics (br_coordinator b)"
  let ?j = "join_group (env_subscribed e) (env_members e) (env_now e) (env_uuid e) gid mid topics ?gc"
  have "br_coordinator (fst (handle_join_group e gid mid topics b)) = fst ?j"
    by (simp add: handle_join_group_def Let_def split: prod.split outcome.split)
  moreover have "coord_step ?gc (fst ?j)"
    using assms by (intro coord_step.Join) (simp_all add: env_ok_def)
  ultimately show ?thesis
    using learn_partitions_steps by (metis rtranclp.rtrancl_into_rtrancl)
qed

text \<open>Every request takes the coordinator through steps of its state machine.\<close>

lemma process_request_coordinator:
  assumes "env_ok e"
  shows "coord_step\<^sup>*\<^sup>* (br_coordinator b) (br_coordinator (fst (process_request C e req b)))"
proof (cases req)
  case (JoinGroup gid mid topics)
  then show ?thesis using join_steps [OF assms] by simp
next
  case (LeaveGroup gid mid)
  let ?l = "leave_group (env_subscribed e) (env_members e) gid mid (br_coordinator b)"
  have "br_coordinator (fst (process_request C e req b)) = fst ?l"
    by (simp add: LeaveGroup handle_leave_group_def split: prod.split outcome.split)
  moreover have "coord_step (br_coordinator b) (fst ?l)"
    using assms by (intro coord_step.Leave) (simp_all add: env_ok_def)
  ultimately show ?thesis by simp
next
  case (Heartbeat gid mid)
  have "br_coordinator (fst (process_request C e req b)) =
      fst (coordinator_heartbeat (env_now e) gid mid (br_coordinator b))"
    by (simp add: Heartbeat handle_heartbeat_def split: prod.split outcome.split)
  moreover have "coord_step (br_coordinator b) (fst (coordinator_heartbeat (env_now e) gid mid (br_coordinator b)))"
    by (rule coord_step.Heartbeat)
  ultimately show ?thesis by simp
qed (simp_all add: handle_create_topic_def handle_produce_def handle_commit_offset_def Let_def
    handle_register_broker_def split: prod.split outcome.split)

lemma assign_replicas_steps:
  assumes "assign_replicas e rm name ps cm = Ok cm'"
  shows "cluster_step\<^sup>*\<^sup>* cm cm' \<and> cm_brokers cm' = cm_brokers cm"
  using assms
proof (induction ps arbitrary: cm)
  case (Cons p ps)
  obtain leader replicas where a: "assign_partition_replicas (env_brokers e) (env_now e) rm cm p = Ok (leader, replicas)"
      "assign_replicas e rm name ps (set_partition_replicas name p leader replicas cm) = Ok cm'"
    using Cons.prems by (auto simp: outcome_simps)
  have "leader \<in> set replicas"
    using a(1) by (auto simp: assign_partition_replicas_def Let_def split: if_splits list.splits)
  then have "cluster_step cm (set_partition_replicas name p leader replicas cm)" by (rule cluster_step.Assign)
  then show ?case
    using Cons.IH [OF a(2)] by (simp add: converse_rtranclp_into_rtranclp set_partition_replicas_def)
qed simp

text \<open>
  The offsets a produce request reports to the cluster leave room for the lag threshold; without
  it the comparison of the code wraps.
\<close>

definition lag_room :: "codecs \<Rightarrow> request \<Rightarrow> broker \<Rightarrow> bool" where
  "lag_room C req b =
     (case req of
        Produce topic p messages \<Rightarrow>
          (case snd (tm_append C topic p messages (br_topics b)) of
             Ok base_offset \<Rightarrow>
               unat (base_offset + ucast (of_nat (length messages) :: u32)) +
                 unat (cm_isr_lag_threshold (br_cluster b)) < 2 ^ 64
           | _ \<Rightarrow> True)
      | _ \<Rightarrow> True)"

lemma process_request_cluster:
  assumes "lag_room C req b"
  shows "cluster_step\<^sup>*\<^sup>* (br_cluster b) (br_cluster (fst (process_request C e req b)))"
proof (cases req)
  case (CreateTopic name n)
  then show ?thesis
    by (auto simp: handle_create_topic_def split: prod.split outcome.split
        dest: assign_replicas_steps [THEN conjunct1])
next
  case (Produce topic p ms)
  then show ?thesis
    using assms by (auto simp: handle_produce_def update_leader_offset_def lag_room_def Let_def
        split: prod.split outcome.split intro!: r_into_rtranclp cluster_step.Progress)
next
  case (RegisterBroker bid host port)
  then show ?thesis by (auto simp: handle_register_broker_def intro: cluster_step.Register)
qed (simp_all add: handle_join_group_def handle_leave_group_def handle_heartbeat_def Let_def
    handle_commit_offset_def split: prod.split outcome.split)

text \<open>A broker that runs: requests in any order, and the two periodic tasks between them.\<close>

inductive broker_step :: "codecs \<Rightarrow> broker \<Rightarrow> broker \<Rightarrow> bool" for C where
  Serve: "env_ok e \<Longrightarrow> lag_room C req b \<Longrightarrow> broker_step C b (fst (process_request C e req b))"
| TickGroups: "env_ok e \<Longrightarrow> broker_step C b (tick_groups e b)"
| TickHealth: "env_ok e \<Longrightarrow> broker_step C b (tick_health e b)"

definition broker_ok :: "broker \<Rightarrow> bool" where
  "broker_ok b \<longleftrightarrow> coord_ok (br_coordinator b) \<and> cluster_ok (br_cluster b)"

lemma coord_steps_ok: "coord_step\<^sup>*\<^sup>* gc gc' \<Longrightarrow> coord_ok gc \<Longrightarrow> coord_ok gc'"
  by (induction rule: rtranclp_induct) (auto intro: coord_step_ok)

lemma cluster_steps_ok: "cluster_step\<^sup>*\<^sup>* cm cm' \<Longrightarrow> cluster_ok cm \<Longrightarrow> cluster_ok cm'"
  by (induction rule: rtranclp_induct) (auto intro: cluster_step_ok)

lemma broker_step_ok: "broker_step C b b' \<Longrightarrow> broker_ok b \<Longrightarrow> broker_ok b'"
proof (induction rule: broker_step.induct)
  case (Serve e req b)
  then show ?case
    using coord_steps_ok [OF process_request_coordinator [OF Serve(1)]]
      cluster_steps_ok [OF process_request_cluster [OF Serve(2)]]
    by (simp add: broker_ok_def)
next
  case (TickGroups e b)
  then show ?case
    by (simp add: broker_ok_def tick_groups_def env_ok_def check_heartbeats_ok)
next
  case (TickHealth e b)
  then show ?case
    by (simp add: broker_ok_def tick_health_def env_ok_def check_broker_health_ok)
qed

lemma broker_new_ok:
  assumes "broker_new C now config listing files = Ok b"
  shows "broker_ok b"
proof -
  have "coord_ok (group_coordinator_new t)" for t
    using coord_reach_ok by blast
  moreover have "cluster_ok (register_broker i (cluster_metadata_new x y z))" for i x y z
    using cluster_reach_ok [OF r_into_rtranclp [of cluster_step, OF cluster_step.Register]] .
  ultimately show ?thesis
    using assms by (auto simp: broker_new_def broker_ok_def outcome_simps)
qed

lemma broker_reach_ok:
  assumes "broker_new C now config listing files = Ok b0" and "(broker_step C)\<^sup>*\<^sup>* (broker_start ford b0) b"
  shows "broker_ok b"
  using assms(2)
proof (induction rule: rtranclp_induct)
  case base
  then show ?case using broker_new_ok [OF assms(1)] by (simp add: broker_start_def broker_ok_def)
qed (rule broker_step_ok)

section \<open>Producing and fetching\<close>

lemma produce_ok:
  assumes "find_partition (br_topics b) topic p = Ok part" and "part_log C part recs"
    and "part_accepts C part ms"
  obtains b' part' new where
    "process_request C e (Produce topic p ms) b =
       (b', Ok (ProduceSuccess topic p (of_nat (length recs)) (of_nat (length ms))))"
    and "find_partition (br_topics b') topic p = Ok part'" and "part_log C part' (recs @ new)"
    and "map rec_message new = ms" and "part' = fst (partition_append C ms part)"
    and "\<And>t q. (t, q) \<noteq> (topic, p) \<Longrightarrow> find_partition (br_topics b') t q = find_partition (br_topics b) t q"
proof -
  obtain part' new where a: "partition_append C ms part = (part', Ok (0 + of_nat (length recs)))"
      "part_log C part' (recs @ new)" "map rec_message new = ms"
    by (rule partlog.append_okE [OF assms(2,3)])
  obtain tm' where tm': "tm_append C topic p ms (br_topics b) = (tm', Ok (0 + of_nat (length recs)))"
      "\<And>t q. find_partition tm' t q =
         (if t = topic \<and> q = p then Ok part' else find_partition (br_topics b) t q)"
    using tm_append_find [OF assms(1) a(1)] by metis
  let ?b' = "b\<lparr>br_topics := tm', br_cluster := update_leader_offset topic p
      (of_nat (length recs) + ucast (of_nat (length ms) :: u32)) (br_cluster b)\<rparr>"
  have "process_request C e (Produce topic p ms) b =
      (?b', Ok (ProduceSuccess topic p (of_nat (length recs)) (of_nat (length ms))))"
    using tm'(1) by (simp add: handle_produce_def Let_def)
  then show thesis
    using a tm'(2) by (intro that [of ?b' part' new]) auto
qed

section \<open>Connections\<close>

text \<open>The requests of a connection handled one after the other, with their responses.\<close>

fun process_all ::
    "codecs \<Rightarrow> (nat \<Rightarrow> environment) \<Rightarrow> nat \<Rightarrow> request list \<Rightarrow> broker \<Rightarrow> broker \<times> response list" where
  "process_all C es i [] b = (b, [])"
| "process_all C es i (req # reqs) b =
     (case process_request C (es i) req b of
        (b', Ok resp) \<Rightarrow> (let (b'', resps) = process_all C es (Suc i) reqs b' in (b'', resp # resps))
      | (b', _) \<Rightarrow> (b', []))"

abbreviation request_sendable :: "bincode \<Rightarrow> request \<Rightarrow> bool" where
  "request_sendable B \<equiv> frame_sendable (ser_request B) (de_request B)"

abbreviation response_sendable :: "bincode \<Rightarrow> response \<Rightarrow> bool" where
  "response_sendable B \<equiv> frame_sendable (ser_response B) (de_response B)"

lemma connection_loop_serves:
  assumes "\<forall>r \<in> set reqs. request_sendable B r"
    and "process_all C es i reqs b = (b', resps)" and "length resps = length reqs"
    and "\<forall>r \<in> set resps. response_sendable B r" and "length reqs < fuel"
  shows "connection_loop C B es fuel i (concat (map (frame_bytes (ser_request B)) reqs)) b out =
           (b', out @ concat (map (frame_bytes (ser_response B)) resps), Ok ())"
  using assms
proof (induction reqs arbitrary: fuel i b out resps)
  case Nil
  then obtain n where "fuel = Suc n" by (cases fuel) auto
  then show ?case using Nil by (simp add: gaffa_codec_decode_def frames.dec_empty)
next
  case (Cons req reqs)
  then obtain n where n: "fuel = Suc n" "length reqs < n" by (cases fuel) auto
  obtain b1 resp resps' where p: "process_request C (es i) req b = (b1, Ok resp)"
      "process_all C es (Suc i) reqs b1 = (b', resps')" "resps = resp # resps'"
    using Cons.prems(2,3) by (auto split: prod.splits outcome.splits)
  have "connection_loop C B es n (Suc i) (concat (map (frame_bytes (ser_request B)) reqs)) b1
      (out @ frame_bytes (ser_response B) resp) =
      (b', (out @ frame_bytes (ser_response B) resp) @ concat (map (frame_bytes (ser_response B)) resps'), Ok ())"
    using Cons.prems p n(2) by (intro Cons.IH) auto
  moreover have "request_sendable B req" "response_sendable B resp" using Cons.prems(1,4) p(3) by auto
  ultimately show ?case
    using n(1) p(1,3)
    by (simp add: gaffa_codec_decode_def gaffa_codec_encode_def frames.dec_ok frames.enc_ok)
qed

lemma handle_connection_serves:
  assumes "\<forall>r \<in> set reqs. request_sendable B r"
    and "process_all C es 0 reqs b = (b', resps)" and "length resps = length reqs"
    and "\<forall>r \<in> set resps. response_sendable B r"
  shows "handle_connection C B es (encode_stream (client_codec_encode B) reqs []) b =
           (b', encode_stream (gaffa_codec_encode B) resps [], Ok ())"
proof -
  have req: "encode_stream (client_codec_encode B) reqs [] = concat (map (frame_bytes (ser_request B)) reqs)"
    unfolding client_codec_encode_def using frames.encode_stream_frames [OF assms(1)] by simp
  have resp: "encode_stream (gaffa_codec_encode B) resps [] = concat (map (frame_bytes (ser_response B)) resps)"
    unfolding gaffa_codec_encode_def using frames.encode_stream_frames [OF assms(4)] by simp
  have "length reqs < Suc (length (concat (map (frame_bytes (ser_request B)) reqs)))"
    using frames.frames_long [OF assms(1)] by simp
  then show ?thesis
    unfolding handle_connection_def req resp
    using connection_loop_serves [OF assms(1,2,3,4), of _ "[]"] by (simp del: connection_loop.simps)
qed

end
