(* ===== verification/Broker_Properties.thy ===== *)
theory Broker_Properties
  imports Server
begin

text \<open>
  The properties of the wire protocol, of replication and of the broker that puts the parts
  together.
\<close>

section \<open>The wire protocol\<close>

text \<open>
  C40. What one side writes the other side reads: a sequence of requests that the client encodes,
  cut by the network into chunks of any sizes, is decoded by the broker into the same requests in
  the same order with nothing left over, and likewise for the responses in the other direction.
\<close>

theorem stream_delivered:
  assumes "bincode_ok B"
    and "\<forall>x \<in> set reqs. \<exists>data. ser_request B x = Inr data \<and> length data \<le> MAX_MESSAGE_SIZE"
    and "\<forall>x \<in> set resps. \<exists>data. ser_response B x = Inr data \<and> length data \<le> MAX_MESSAGE_SIZE"
    and "concat chunks = encode_stream (client_codec_encode B) reqs []"
    and "concat chunks' = encode_stream (gaffa_codec_encode B) resps []"
  shows "feed (gaffa_codec_decode B) [] chunks = (reqs, []) \<and>
         feed (client_codec_decode B) [] chunks' = (resps, [])"
proof
  have "\<forall>x \<in> set reqs. request_sendable B x"
    using assms(1,2) unfolding bincode_ok_def frame_sendable_def by fastforce
  from frames.stream_roundtrip [OF this assms(4) [unfolded client_codec_encode_def]]
  show "feed (gaffa_codec_decode B) [] chunks = (reqs, [])" by (simp add: gaffa_codec_decode_def)
  have "\<forall>x \<in> set resps. response_sendable B x"
    using assms(1,3) unfolding bincode_ok_def frame_sendable_def by fastforce
  from frames.stream_roundtrip [OF this assms(5) [unfolded gaffa_codec_encode_def]]
  show "feed (client_codec_decode B) [] chunks' = (resps, [])" by (simp add: client_codec_decode_def)
qed

lemma small_lengths: "u32_to_be_bytes 1 = [0, 0, 0, 1]" "u32_to_be_bytes 2 = [0, 0, 0, 2]"
  by code_simp+

theorem stream_delivered_witness:
  "feed (gaffa_codec_decode demo_bincode) []
     [[0, 0], [0, 1, 7, 0], [0], [0, 1, 7]] = ([ListTopics, ListTopics], []) \<and>
   feed (client_codec_decode demo_bincode) [] [[0, 0, 0, 2, 6], [0]] = ([Topics []], [])"
  by (rule stream_delivered [OF demo_bincode_ok])
    (simp_all add: demo_bincode_def MAX_MESSAGE_SIZE_def client_codec_encode_def gaffa_codec_encode_def
      encode_frame_def small_lengths)

text \<open>
  A frame that announces more than the limit is refused with a protocol error as soon as its
  four length bytes are there, whatever follows, and nothing is taken from the buffer; and no
  message above the limit is ever written.
\<close>

theorem oversize_refused:
  assumes "4 \<le> length src" and "MAX_MESSAGE_SIZE < unat (u32_from_be_bytes (take 4 src))"
    and "ser_response B resp = Inr data" and "MAX_MESSAGE_SIZE < length data"
  shows "gaffa_codec_decode B src =
           (src, Err (Protocol (too_large_text (unat (u32_from_be_bytes (take 4 src)))))) \<and>
         gaffa_codec_encode B resp dst = (dst, Err (Protocol (too_large_text (length data))))"
  using decode_frame_oversize [OF assms(1,2)] assms(3,4)
  by (simp add: gaffa_codec_decode_def gaffa_codec_encode_def encode_frame_def)

lemma largest_length: "unat (u32_from_be_bytes (take 4 [255, 255, 255, 255])) = 4294967295"
  by (simp add: u32_from_be_bytes_def from_be_def)

theorem oversize_refused_witness:
  "gaffa_codec_decode demo_bincode [255, 255, 255, 255] =
     ([255, 255, 255, 255], Err (Protocol (too_large_text 4294967295)))"
  using oversize_refused [of "[255, 255, 255, 255]"
      "demo_bincode\<lparr>ser_response := \<lambda>_. Inr (replicate (Suc MAX_MESSAGE_SIZE) 0)\<rparr>"]
  unfolding largest_length
  by (simp add: MAX_MESSAGE_SIZE_def gaffa_codec_decode_def)

section \<open>Replication state\<close>

lemma cm_update_get:
  assumes "hm_get (cm_partition_states (cm_update_replica_offset t p b off cm)) (t, p) = Some s'"
  obtains s where "hm_get (cm_partition_states cm) (t, p) = Some s"
    and "s' = prs_update_replica_offset b off (cm_isr_lag_threshold cm) s"
  using assms by (auto simp: cm_update_replica_offset_def hashmap_simps split: option.splits)

text \<open>
  C37. After every report of a replica's progress, the high watermark of the partition is the
  smallest offset of the in-sync replicas whose offset is known: none of them is behind it and one
  of them is at it.
\<close>

theorem high_watermark_is_replicated:
  assumes "hm_get (cm_partition_states (cm_update_replica_offset t p b off cm)) (t, p) = Some s'"
    and "r \<in> set (prs_isr s')" and "hm_get (prs_replica_offsets s') r = Some x"
  shows "get_high_watermark (cm_update_replica_offset t p b off cm) t p \<le> x \<and>
         (\<exists>q \<in> set (prs_isr s'). hm_get (prs_replica_offsets s') q =
            Some (get_high_watermark (cm_update_replica_offset t p b off cm) t p))"
proof -
  obtain s where "s' = prs_update_replica_offset b off (cm_isr_lag_threshold cm) s"
    by (rule cm_update_get [OF assms(1)])
  from high_watermark_replicated [OF this assms(2,3)] show ?thesis
    using assms(1) by (simp add: get_high_watermark_def)
qed

text \<open>A partition on three brokers, led by the first.\<close>

definition sample_cluster :: cluster_metadata where
  "sample_cluster = set_partition_replicas ''t'' 0 1 [1, 2, 3] (cluster_metadata_new 1 30000 10)"

lemma sample_cluster_reach: "cluster_step\<^sup>*\<^sup>* (cluster_metadata_new 1 30000 10) sample_cluster"
  unfolding sample_cluster_def by (rule r_into_rtranclp) (rule cluster_step.Assign, simp)

lemma sample_cluster_state:
  "hm_get (cm_partition_states sample_cluster) (''t'', 0) = Some (prs_new ''t'' 0 1 [1, 2, 3])"
  by (simp add: sample_cluster_def set_partition_replicas_def cluster_metadata_new_def)

theorem high_watermark_is_replicated_witness:
  "get_high_watermark (cm_update_replica_offset ''t'' 0 2 7 sample_cluster) ''t'' 0 \<le> 0"
proof -
  let ?s = "prs_update_replica_offset 2 7 (cm_isr_lag_threshold sample_cluster) (prs_new ''t'' 0 1 [1, 2, 3])"
  have s: "hm_get (cm_partition_states (cm_update_replica_offset ''t'' 0 2 7 sample_cluster)) (''t'', 0) = Some ?s"
    by (simp add: cm_update_replica_offset_def sample_cluster_state hashmap_simps)
  have "3 \<in> set (prs_isr ?s)" "hm_get (prs_replica_offsets ?s) 3 = Some 0"
    by (simp_all add: update_isr frame_simps hashmap_simps) (simp_all add: prs_new_def zero_offsets_def)
  from high_watermark_is_replicated [OF s this] show ?thesis by blast
qed

text \<open>
  In every state the cluster reaches, by registrations, heartbeats, replica assignments,
  progress reports that leave room for the lag threshold, and broker failures in any order: every
  partition has replicas, is stored under its own name, and its leader is in its in-sync set.
\<close>

theorem leader_stays_in_sync:
  assumes "cluster_step\<^sup>*\<^sup>* (cluster_metadata_new b timeout lag) cm"
    and "hm_get (cm_partition_states cm) (t, p) = Some s"
  shows "is_leader_in_sync s \<and> prs_replicas s \<noteq> [] \<and> prs_topic s = t \<and> prs_partition s = p"
  using cluster_reach_ok [OF assms(1)] assms(2) by (auto simp: cluster_ok_def state_ok_def)

theorem leader_stays_in_sync_witness:
  "is_leader_in_sync (prs_new ''t'' 0 1 [1, 2, 3]) \<and> prs_replicas (prs_new ''t'' 0 1 [1, 2, 3]) \<noteq> [] \<and>
   prs_topic (prs_new ''t'' 0 1 [1, 2, 3]) = ''t'' \<and> prs_partition (prs_new ''t'' 0 1 [1, 2, 3]) = 0"
  by (rule leader_stays_in_sync [OF sample_cluster_reach sample_cluster_state])

lemma handle_broker_failure_get:
  "hm_get (cm_partition_states (fst (handle_broker_failure pord iord failed cm))) k =
     map_option (\<lambda>s. fst (fail_over iord failed s)) (hm_get (cm_partition_states cm) k)"
  by (simp add: handle_broker_failure_def Let_def hm_get_map)



text \<open>
  When the failed leader was the only in-sync replica, the first replica of the assignment is
  elected and declared in sync, whether it is alive or has the data; if the failed broker is first
  in the list, the failed broker itself is elected again, under a new epoch.
\<close>

theorem unclean_election_may_elect_failed:
  assumes "is_order iord" and "hm_get (cm_partition_states cm) (t, p) = Some s"
    and "prs_leader s = failed" and "set (prs_isr s) \<subseteq> {failed}" and "prs_replicas s = failed # rs"
  shows "get_partition_leader (fst (handle_broker_failure pord iord failed cm)) t p = Some failed \<and>
         get_partition_isr (fst (handle_broker_failure pord iord failed cm)) t p = [failed]"
  using fail_over_unclean [OF assms(1,3,4,5)] assms(2)
  by (simp add: get_partition_leader_def get_partition_isr_def handle_broker_failure_get)

theorem unclean_election_may_elect_failed_witness:
  "let cm = fst (handle_broker_failure rev rev 3 (fst (handle_broker_failure rev rev 2 sample_cluster))) in
   get_partition_leader (fst (handle_broker_failure rev rev 1 cm)) ''t'' 0 = Some 1 \<and>
   get_partition_isr (fst (handle_broker_failure rev rev 1 cm)) ''t'' 0 = [1]"
  unfolding Let_def
  by (rule unclean_election_may_elect_failed [OF is_order_rev])
    (simp add: handle_broker_failure_get sample_cluster_state fail_over_def Let_def prs_new_def, simp_all)

section \<open>Placement and health\<close>

text \<open>
  The replicas chosen for a new partition are distinct brokers that are alive, as many as the
  replication factor asks for and the cluster has, with the leader first.
\<close>

theorem replicas_well_placed:
  assumes "brokers_ok cm" and "is_order bord" and "is_broker_alive now cm b" and "0 < rm_replication_factor rm"
  shows "\<exists>leader replicas. assign_partition_replicas bord now rm cm p = Ok (leader, leader # replicas) \<and>
           distinct (leader # replicas) \<and> (\<forall>r \<in> set (leader # replicas). is_broker_alive now cm r) \<and>
           length (leader # replicas) =
             min (unat (rm_replication_factor rm)) (card {b. is_broker_alive now cm b})"
  by (rule assign_partition_replicas_ok [OF assms, of p]) blast

definition two_brokers :: cluster_metadata where
  "two_brokers = register_broker (broker_info_new 0 8 ''h'' 1) (register_broker (broker_info_new 0 7 ''h'' 1)
     (cluster_metadata_new 7 30000 10))"

theorem replicas_well_placed_witness:
  "\<exists>leader replicas. assign_partition_replicas rev 5 (replication_manager_new 2 10) two_brokers 3 =
       Ok (leader, leader # replicas) \<and> distinct (leader # replicas)"
proof -
  have "brokers_ok two_brokers"
    unfolding two_brokers_def
    by (intro brokers_ok_register) (simp add: brokers_ok_def cluster_metadata_new_def)
  moreover have "is_broker_alive 5 two_brokers 7"
    by (simp add: is_broker_alive_def two_brokers_def register_broker_def broker_info_new_def cluster_metadata_new_def
        is_alive_def)
  moreover have "0 < rm_replication_factor (replication_manager_new 2 10)"
    by (simp add: replication_manager_new_def)
  ultimately show ?thesis using replicas_well_placed [OF _ is_order_rev] by blast
qed

definition solo :: "broker_id \<Rightarrow> partition_replica_state \<Rightarrow> bool" where
  "solo me s \<longleftrightarrow> prs_leader s = me \<and> prs_replicas s = [me] \<and> prs_isr s = [me]"

definition bump :: "nat \<Rightarrow> partition_replica_state \<Rightarrow> partition_replica_state" where
  "bump n s = s\<lparr>prs_leader_epoch := prs_leader_epoch s + of_nat n\<rparr>"

lemma solo_bump [simp]: "solo me (bump n s) = solo me s"
  by (simp add: solo_def bump_def)

lemma bump_bump: "bump n (bump (Suc 0) s) = bump (Suc n) s"
  by (simp add: bump_def)

lemma fail_over_solo:
  assumes "solo me s" and "is_order iord"
  shows "fst (fail_over iord me s) = bump 1 s"
proof -
  have "iord [] = []" using assms(2) by simp
  then show ?thesis
    using assms(1) by (simp add: solo_def bump_def fail_over_def elect_new_leader_def)
qed

lemma health_loop_solo:
  assumes "is_order iord" and "\<forall>s \<in> set ss. prs_leader s = me" and "me \<notin> set alive"
    and "\<forall>(k, s) \<in> set (cm_partition_states cm). solo me s"
  shows "cm_partition_states (health_loop pord iord alive ss cm) =
           map (\<lambda>(k, s). (k, bump (length ss) s)) (cm_partition_states cm)"
  using assms(2,4)
proof (induction ss arbitrary: cm)
  case Nil
  then show ?case by (simp add: bump_def)
next
  case (Cons s ss)
  let ?cm = "fst (handle_broker_failure pord iord me cm)"
  have cm: "cm_partition_states ?cm = map (\<lambda>(k, s). (k, bump 1 s)) (cm_partition_states cm)"
    using Cons.prems(2) by (auto simp: handle_broker_failure_def Let_def fail_over_solo [OF _ assms(1)])
  have "cm_partition_states (health_loop pord iord alive ss ?cm) =
      map (\<lambda>(k, s). (k, bump (length ss) s)) (cm_partition_states ?cm)"
    using Cons.prems by (intro Cons.IH) (auto simp: cm)
  then show ?case
    using Cons.prems(1) assms(3) by (simp add: cm o_def split_beta bump_bump)
qed


text \<open>A broker started on an empty disk at time 0, and requests at time 5.\<close>

definition sample_env :: environment where
  "sample_env = \<lparr>env_now = 5, env_uuid = [], env_topics = rev, env_subscribed = rev, env_members = rev,
     env_groups = rev, env_clock = (\<lambda>_. 5), env_entries = rev, env_brokers = rev, env_parts = rev,
     env_isr = rev\<rparr>"

definition sample_broker :: broker where
  "sample_broker =
     \<lparr>br_config = broker_config_default, br_topics = tm_new (cfg_data_dir broker_config_default) [],
      br_coordinator = group_coordinator_new 30000,
      br_offsets = offset_manager_new (cfg_data_dir broker_config_default) [],
      br_cluster = register_broker (broker_info_new 0 0 (cfg_host broker_config_default)
        (cfg_port broker_config_default)) (cluster_metadata_new 0 30000 1000),
      br_replication = replication_manager_new 1 1000\<rparr>"

lemma sample_env_ok: "env_ok sample_env"
  by (simp add: env_ok_def sample_env_def is_order_rev)

lemma sample_broker_new: "broker_new C 0 broker_config_default None [] = Ok sample_broker"
  by (simp add: broker_new_def tm_open_def sample_broker_def) (simp add: broker_config_default_def)

lemma sample_assign:
  assumes "p < n"
  shows "assign_partition_replicas rev 5 (replication_manager_new 1 1000)
    (set_partition_replicas t q 0 [0] (br_cluster sample_broker)) p = Ok (0, [0])"
    and "assign_partition_replicas rev 5 (replication_manager_new 1 1000) (br_cluster sample_broker) p = Ok (0, [0])"
  by (simp_all add: assign_partition_replicas_def get_alive_brokers_def set_partition_replicas_def sample_broker_def
      register_broker_def cluster_metadata_new_def broker_info_new_def is_alive_def replication_manager_new_def
      Let_def)


section \<open>Followers\<close>

text \<open>
  What one cluster state says of the other brokers' offsets, another says too: the partitions are
  still there and the offsets recorded for brokers other than the own one are the same.
\<close>

definition keeps_follower_offsets :: "cluster_metadata \<Rightarrow> cluster_metadata \<Rightarrow> bool" where
  "keeps_follower_offsets cm cm' \<longleftrightarrow>
     cm_broker_id cm' = cm_broker_id cm \<and>
     (\<forall>k s. hm_get (cm_partition_states cm) k = Some s \<longrightarrow>
        (\<exists>s'. hm_get (cm_partition_states cm') k = Some s' \<and>
           (\<forall>r. r \<noteq> cm_broker_id cm \<longrightarrow>
              hm_get (prs_replica_offsets s') r = hm_get (prs_replica_offsets s) r)))"

lemma keeps_refl [simp]: "keeps_follower_offsets cm cm"
  by (simp add: keeps_follower_offsets_def)

lemma keeps_trans:
  assumes "keeps_follower_offsets cm cm'" and "keeps_follower_offsets cm' cm''"
  shows "keeps_follower_offsets cm cm''"
  using assms unfolding keeps_follower_offsets_def by metis

lemma keeps_set_replicas: "keeps_follower_offsets cm (set_partition_replicas t p l rs cm)"
  by (auto simp: keeps_follower_offsets_def set_partition_replicas_def hashmap_simps split: option.split)

lemma keeps_update_own: "keeps_follower_offsets cm (cm_update_replica_offset t p (cm_broker_id cm) off cm)"
  by (auto simp: keeps_follower_offsets_def cm_update_replica_offset_def hashmap_simps frame_simps split: option.split)

lemma keeps_register: "keeps_follower_offsets cm (register_broker i cm)"
  by (simp add: keeps_follower_offsets_def register_broker_def)

lemma keeps_failure: "keeps_follower_offsets cm (fst (handle_broker_failure pord iord failed cm))"
  unfolding keeps_follower_offsets_def handle_broker_failure_get
  by (simp add: frame_simps) (simp add: handle_broker_failure_def Let_def)

lemma keeps_assign_replicas:
  assumes "assign_replicas e rm name ps cm = Ok cm'"
  shows "keeps_follower_offsets cm cm'"
  using assms
proof (induction ps arbitrary: cm)
  case (Cons p ps)
  then obtain l rs where "assign_replicas e rm name ps (set_partition_replicas name p l rs cm) = Ok cm'"
    by (auto simp: outcome_simps)
  from keeps_trans [OF keeps_set_replicas Cons.IH [OF this]] show ?case .
qed simp

lemma keeps_health_loop: "keeps_follower_offsets cm (health_loop pord iord alive ss cm)"
proof (induction ss arbitrary: cm)
  case (Cons s ss)
  let ?cm = "if prs_leader s \<notin> set alive then fst (handle_broker_failure pord iord (prs_leader s) cm) else cm"
  have "keeps_follower_offsets cm ?cm" by (simp add: keeps_failure)
  from keeps_trans [OF this Cons.IH] show ?case by simp
qed simp

lemma keeps_request: "keeps_follower_offsets (br_cluster b) (br_cluster (fst (process_request C e req b)))"
  by (cases req)
    (auto simp: handle_create_topic_def handle_produce_def handle_commit_offset_def handle_register_broker_def Let_def
      handle_join_group_def handle_leave_group_def handle_heartbeat_def update_leader_offset_def keeps_update_own
      keeps_register split: prod.split outcome.split intro: keeps_assign_replicas)

lemma keeps_step: "broker_step C b b' \<Longrightarrow> keeps_follower_offsets (br_cluster b) (br_cluster b')"
  by (induction rule: broker_step.induct)
    (simp_all add: keeps_request tick_groups_def tick_health_def check_broker_health_def keeps_health_loop)

lemma keeps_steps: "(broker_step C)\<^sup>*\<^sup>* b b' \<Longrightarrow> keeps_follower_offsets (br_cluster b) (br_cluster b')"
  by (induction rule: rtranclp_induct) (auto intro: keeps_trans keeps_step)

text \<open>
  C39. A broker never learns how far its followers are: whatever requests it serves, replication
  fetches of the followers included, and whatever its periodic tasks do, the offset it records for
  another broker stays what it was when the partition was created, and after every produce request
  the high watermark of a partition with such a follower in sync is at most that offset.
\<close>

theorem followers_never_advance:
  assumes "(broker_step C)\<^sup>*\<^sup>* b b'" and "hm_get (cm_partition_states (br_cluster b)) (t, p) = Some s"
    and "r \<noteq> cm_broker_id (br_cluster b)" and "hm_get (prs_replica_offsets s) r = Some x"
  shows "(\<exists>s'. hm_get (cm_partition_states (br_cluster b')) (t, p) = Some s' \<and>
            hm_get (prs_replica_offsets s') r = Some x) \<and>
         (\<forall>off. let cm = update_leader_offset t p off (br_cluster b') in
            r \<in> set (get_partition_isr cm t p) \<longrightarrow> get_high_watermark cm t p \<le> x)"
proof -
  have keeps: "keeps_follower_offsets (br_cluster b) (br_cluster b')" by (rule keeps_steps [OF assms(1)])
  then obtain s' where s': "hm_get (cm_partition_states (br_cluster b')) (t, p) = Some s'"
      "hm_get (prs_replica_offsets s') r = Some x"
    using assms(2-4) unfolding keeps_follower_offsets_def by metis
  have "get_high_watermark cm t p \<le> x"
    if cm: "cm = update_leader_offset t p off (br_cluster b')" and r: "r \<in> set (get_partition_isr cm t p)" for cm off
  proof -
    have "keeps_follower_offsets (br_cluster b') cm"
      unfolding cm update_leader_offset_def by (rule keeps_update_own)
    then obtain u where u: "hm_get (cm_partition_states cm) (t, p) = Some u"
        "hm_get (prs_replica_offsets u) r = Some x"
      using s' assms(3) keeps unfolding keeps_follower_offsets_def by metis
    obtain v where "u = prs_update_replica_offset (cm_broker_id (br_cluster b')) off
        (cm_isr_lag_threshold (br_cluster b')) v"
      using u(1) unfolding cm update_leader_offset_def by (rule cm_update_get)
    then have "prs_high_watermark u \<le> x"
      by (rule high_watermark_replicated(1)) (use r u in \<open>simp_all add: get_partition_isr_def\<close>)
    then show ?thesis using u(1) by (simp add: get_high_watermark_def)
  qed
  then show ?thesis using s' by (auto simp: Let_def)
qed

theorem followers_never_advance_witness:
  "\<exists>s'. hm_get (cm_partition_states (br_cluster (fst (process_request demo_codecs sample_env
       (ReplicationFetch 2 ''t'' 0 9) (sample_broker\<lparr>br_cluster := sample_cluster\<rparr>))))) (''t'', 0) = Some s' \<and>
     hm_get (prs_replica_offsets s') 2 = Some 0"
proof -
  let ?b = "sample_broker\<lparr>br_cluster := sample_cluster\<rparr>" and ?req = "ReplicationFetch 2 ''t'' 0 9"
  have "broker_step demo_codecs ?b (fst (process_request demo_codecs sample_env ?req ?b))"
    by (rule broker_step.Serve [OF sample_env_ok]) (simp add: lag_room_def)
  then have run: "(broker_step demo_codecs)\<^sup>*\<^sup>* ?b (fst (process_request demo_codecs sample_env ?req ?b))"
    by (rule r_into_rtranclp)
  have st: "hm_get (cm_partition_states (br_cluster ?b)) (''t'', 0) = Some (prs_new ''t'' 0 1 [1, 2, 3])"
    using sample_cluster_state by simp
  have "cm_broker_id (br_cluster ?b) = 1"
    by (simp add: sample_cluster_def set_partition_replicas_def cluster_metadata_new_def)
  then show ?thesis
    using followers_never_advance [OF run st, of 2 0] by (simp add: prs_new_def zero_offsets_def)
qed

section \<open>The running broker\<close>

text \<open>
  C18. In every state a broker reaches after its start, serving any requests in any order with its
  periodic tasks in between, as long as the offsets leave room for the lag threshold: the groups
  are never empty and share no partition between two members, and every partition's leader is in
  sync.
\<close>

theorem broker_invariant:
  assumes "broker_new C now config listing files = Ok b0" and "(broker_step C)\<^sup>*\<^sup>* (broker_start ford b0) b"
  shows "(\<forall>gid g. hm_get (gc_groups (br_coordinator b)) gid = Some g \<longrightarrow>
            cg_members g \<noteq> [] \<and> cg_group_id g = gid \<and> exclusive g) \<and>
         (\<forall>t p s. hm_get (cm_partition_states (br_cluster b)) (t, p) = Some s \<longrightarrow>
            is_leader_in_sync s \<and> prs_replicas s \<noteq> [] \<and> prs_topic s = t \<and> prs_partition s = p)"
  using broker_reach_ok [OF assms] unfolding broker_ok_def coord_ok_def cluster_ok_def state_ok_def by auto

theorem broker_invariant_witness:
  "let b = fst (process_request demo_codecs sample_env (JoinGroup ''g'' None [''t'']) (broker_start rev sample_broker)) in
   \<exists>g. hm_get (gc_groups (br_coordinator b)) ''g'' = Some g \<and> cg_members g \<noteq> [] \<and> exclusive g"
proof -
  let ?req = "JoinGroup ''g'' None [''t'']"
  let ?b = "fst (process_request demo_codecs sample_env ?req (broker_start rev sample_broker))"
  obtain g where g: "hm_get (gc_groups (br_coordinator ?b)) ''g'' = Some g"
    by (simp add: handle_join_group_def join_group_def Let_def put_group_def hashmap_simps)
  have "broker_step demo_codecs (broker_start rev sample_broker)
      (fst (process_request demo_codecs sample_env ?req (broker_start rev sample_broker)))"
    by (rule broker_step.Serve [OF sample_env_ok]) (simp add: lag_room_def)
  from broker_invariant [OF sample_broker_new r_into_rtranclp [of "broker_step demo_codecs", OF this]]
  show ?thesis unfolding Let_def using g by blast
qed

text \<open>
  A connection answers every request in the order in which they were sent: when the client
  sends requests that fit a frame and the broker's responses do, the broker reads exactly these
  requests, handles them one after the other, and writes exactly one response for each, after which
  the connection ends without an error.
\<close>

theorem connection_answers_in_order:
  assumes "\<forall>r \<in> set reqs. request_sendable B r"
    and "process_all C es 0 reqs b = (b', resps)" and "length resps = length reqs"
    and "\<forall>r \<in> set resps. response_sendable B r"
  shows "handle_connection C B es (encode_stream (client_codec_encode B) reqs []) b =
           (b', encode_stream (gaffa_codec_encode B) resps [], Ok ())"
  by (rule handle_connection_serves [OF assms])

theorem connection_answers_in_order_witness:
  "handle_connection demo_codecs demo_bincode (\<lambda>_. sample_env)
     (encode_stream (client_codec_encode demo_bincode) [ListTopics, ListTopics] []) sample_broker =
   (sample_broker, encode_stream (gaffa_codec_encode demo_bincode) [Topics [], Topics []] [], Ok ())"
  by (rule connection_answers_in_order)
    (simp_all add: frame_sendable_def demo_bincode_def MAX_MESSAGE_SIZE_def list_topics_def sample_broker_def
      tm_new_def hm_keys_def sample_env_def)

end
