(* ===== verification/Client_Connection.thy ===== *)
theory Client_Connection
  imports Messages
begin

text \<open>
  What the producer and the consumer share: a request is sent over the framed connection and the
  next response is awaited, with every failure of the transport turned into a connection error. The
  transport itself is a parameter. The locales state what a client relies on from whoever answers:
  the log of a partition, as fetch requests show it and as produce requests extend it.
\<close>

text \<open>What comes of a request: the write fails, the stream ends, the read fails, or a response arrives.\<close>

datatype reply =
    SendFailed gaffa_error
  | Closed
  | ReceiveFailed gaffa_error
  | Received response

type_synonym 's connection = "request \<Rightarrow> 's \<Rightarrow> 's \<times> reply"

definition call :: "'s connection \<Rightarrow> request \<Rightarrow> 's \<Rightarrow> 's \<times> response outcome" where
  "call conn req s =
     (case conn req s of
        (s', SendFailed e) \<Rightarrow> (s', Err (Connection (error_to_string e)))
      | (s', Closed) \<Rightarrow> (s', Err (Connection ''Connection closed''))
      | (s', ReceiveFailed e) \<Rightarrow> (s', Err (Connection (error_to_string e)))
      | (s', Received resp) \<Rightarrow> (s', Ok resp))"

text \<open>The \<open>?\<close> operator on operations that change a state: the state stays as the failing step left it.\<close>

definition run_then ::
    "('x \<Rightarrow> 'x \<times> 'a outcome) \<Rightarrow> ('a \<Rightarrow> 'x \<Rightarrow> 'x \<times> 'b outcome) \<Rightarrow> 'x \<Rightarrow> 'x \<times> 'b outcome" where
  "run_then f g x =
     (case f x of
        (x', Ok a) \<Rightarrow> g a x'
      | (x', Err e) \<Rightarrow> (x', Err e)
      | (x', Panic) \<Rightarrow> (x', Panic))"

definition give :: "'a outcome \<Rightarrow> 'x \<Rightarrow> 'x \<times> 'a outcome" where
  "give r x = (x, r)"

text \<open>A call made by a client, beside which the client's own state stands.\<close>

definition ask :: "'s connection \<Rightarrow> request \<Rightarrow> 'c \<times> 's \<Rightarrow> ('c \<times> 's) \<times> response outcome" where
  "ask conn req cs = (case cs of (c, s) \<Rightarrow> let (s', r) = call conn req s in ((c, s'), r))"

definition unexpected :: "'a outcome" where
  "unexpected = Err (Protocol ''Unexpected response'')"

lemma run_then_simps [simp]:
  "f x = (x', Ok a) \<Longrightarrow> run_then f g x = g a x'"
  "f x = (x', Err e) \<Longrightarrow> run_then f g x = (x', Err e)"
  "f x = (x', Panic) \<Longrightarrow> run_then f g x = (x', Panic)"
  by (simp_all add: run_then_def)

lemma give_simps [simp]: "give r x = (x, r)"
  by (simp add: give_def)

lemma ask_received: "conn req s = (s', Received resp) \<Longrightarrow> ask conn req (c, s) = ((c, s'), Ok resp)"
  by (simp add: ask_def call_def)

lemma ask_client: "fst (fst (ask conn req (c, s))) = c"
  by (simp add: ask_def split: prod.split)

section \<open>The log a service shows\<close>

locale log_reader =
  fixes conn :: "'s connection"
    and holds :: "'s \<Rightarrow> string \<Rightarrow> u32 \<Rightarrow> stored_record list \<Rightarrow> bool"
  assumes fetch_law:
    "holds s t p recs \<Longrightarrow>
       \<exists>s'. conn (Fetch t p off n) s = (s', Received (FetchSuccess t p (take (unat n) (drop (unat off) recs)))) \<and>
         (\<forall>t' p' recs'. holds s t' p' recs' \<longrightarrow> holds s' t' p' recs')"
    and offset_law: "holds s t p recs \<Longrightarrow> i < length recs \<Longrightarrow> rec_offset (recs ! i) = of_nat i"
    and length_law: "holds s t p recs \<Longrightarrow> length recs < 2 ^ 64"
begin

text \<open>The offset after the last record of a fetch is the position where the next fetch goes on.\<close>

lemma next_position:
  assumes "holds s t p recs" and "take (unat n) (drop (unat off) recs) \<noteq> []"
  shows "rec_offset (last (take (unat n) (drop (unat off) recs))) + 1 =
           of_nat (min (length recs) (unat off + unat n))"
    and "unat (rec_offset (last (take (unat n) (drop (unat off) recs))) + 1) =
           min (length recs) (unat off + unat n)"
proof -
  let ?got = "take (unat n) (drop (unat off) recs)" and ?k = "min (length recs) (unat off + unat n)"
  have len: "length ?got = ?k - unat off" "unat off < ?k" using assms(2) by auto
  define j where "j = ?k - unat off - 1"
  have j: "j < unat n" "unat off + j = ?k - 1" using len(2) by (auto simp: j_def)
  have "last ?got = ?got ! (length ?got - 1)" using assms(2) by (rule last_conv_nth)
  also have "\<dots> = ?got ! j" unfolding len(1) j_def ..
  also have "\<dots> = recs ! (?k - 1)" using j len(2) by simp
  finally have last: "last ?got = recs ! (?k - 1)" .
  have "?k - 1 < length recs" using len(2) by linarith
  from offset_law [OF assms(1) this] have "rec_offset (last ?got) = of_nat (?k - 1)" unfolding last .
  moreover have "of_nat (?k - 1) + 1 = (of_nat ?k :: u64)"
    using len(2) by (metis Suc_diff_1 less_nat_zero_code not_gr_zero of_nat_Suc add.commute)
  ultimately show eq: "rec_offset (last ?got) + 1 = of_nat ?k" by metis
  have "?k < 2 ^ 64" using length_law [OF assms(1)] by simp
  then show "unat (rec_offset (last ?got) + 1) = ?k"
    unfolding eq by (rule unat_of_nat_u64)
qed

end

text \<open>A service that also takes batches.\<close>

locale log_service = log_reader conn holds
  for conn :: "'s connection" and holds +
  fixes admits :: "'s \<Rightarrow> string \<Rightarrow> u32 \<Rightarrow> message list \<Rightarrow> bool"
  assumes produce_law:
    "holds s t p recs \<Longrightarrow> admits s t p ms \<Longrightarrow>
       \<exists>s' new. conn (Produce t p ms) s =
           (s', Received (ProduceSuccess t p (of_nat (length recs)) (of_nat (length ms)))) \<and>
         map rec_message new = ms \<and> holds s' t p (recs @ new) \<and>
         (\<forall>t' p' recs'. (t', p') \<noteq> (t, p) \<longrightarrow> holds s t' p' recs' \<longrightarrow> holds s' t' p' recs') \<and>
         (\<forall>t' p' ms'. (t', p') \<noteq> (t, p) \<longrightarrow> admits s t' p' ms' \<longrightarrow> admits s' t' p' ms')"
begin

text \<open>A client that fetches from the base offset of its batch reads the batch.\<close>

lemma produce_then_fetch:
  assumes "holds s t p recs" and "admits s t p ms" and "length ms \<le> unat n"
  shows "\<exists>s' s'' new. conn (Produce t p ms) s =
           (s', Received (ProduceSuccess t p (of_nat (length recs)) (of_nat (length ms)))) \<and>
         conn (Fetch t p (of_nat (length recs)) n) s' = (s'', Received (FetchSuccess t p new)) \<and>
         map rec_message new = ms"
proof -
  obtain s' new where s': "conn (Produce t p ms) s =
        (s', Received (ProduceSuccess t p (of_nat (length recs)) (of_nat (length ms))))"
      "map rec_message new = ms" "holds s' t p (recs @ new)"
    using produce_law [OF assms(1,2)] by blast
  have "length new = length ms" using s'(2) by (metis length_map)
  then have "take (unat n) (drop (unat (of_nat (length recs) :: u64)) (recs @ new)) = new"
    using assms(3) unat_of_nat_u64 [OF length_law [OF assms(1)]] by simp
  then show ?thesis using fetch_law [OF s'(3), of "of_nat (length recs)" n] s'(1,2) by auto
qed

end

end
