(* ===== verification/Partitioner.thy ===== *)
theory Partitioner
  imports Gaffa_Prelude
begin

text \<open>
  \<open>client/src/partitioner.rs\<close>: the trait \<open>Partitioner\<close> and its three implementations, with their
  atomic counters as state. Each chooses a partition of the topic; the round-robin one
  spreads messages evenly, the key-hash one sends equal keys to one partition, the sticky one
  changes partition once per batch. The trait is a locale; its contract for the sticky
  partitioner needs a positive batch size and one number of partitions for all calls.
\<close>

record round_robin_partitioner =
  rr_counter :: u32

record sticky_partitioner =
  sp_current_partition :: u32
  sp_message_count :: u32
  sp_batch_size :: u32

section \<open>Operations\<close>

definition round_robin_new :: round_robin_partitioner where
  "round_robin_new = \<lparr>rr_counter = 0\<rparr>"

definition round_robin_partition ::
    "round_robin_partitioner \<Rightarrow> bytes option \<Rightarrow> u32 \<Rightarrow> round_robin_partitioner \<times> u32 outcome" where
  "round_robin_partition s key n =
     (if n = 0 then (s, Ok 0)
      else (s\<lparr>rr_counter := rr_counter s + 1\<rparr>, Ok (rr_counter s mod n)))"

text \<open>\<open>H\<close> is the standard library's default hasher on the key.\<close>

definition hash_bytes :: "(bytes \<Rightarrow> u64) \<Rightarrow> bytes \<Rightarrow> u32" where
  "hash_bytes H k = ucast (H k)"

definition key_hash_partition :: "(bytes \<Rightarrow> u64) \<Rightarrow> unit \<Rightarrow> bytes option \<Rightarrow> u32 \<Rightarrow> unit \<times> u32 outcome" where
  "key_hash_partition H s key n =
     (if n = 0 then (s, Ok 0)
      else case key of
             Some k \<Rightarrow> (s, Ok (if k \<noteq> [] then hash_bytes H k mod n else 0))
           | None \<Rightarrow> (s, Ok 0))"

definition sticky_new :: "u32 \<Rightarrow> sticky_partitioner" where
  "sticky_new batch_size =
     \<lparr>sp_current_partition = 0, sp_message_count = 0, sp_batch_size = batch_size\<rparr>"

definition sticky_with_default_batch :: sticky_partitioner where
  "sticky_with_default_batch = sticky_new 100"

definition sticky_partition ::
    "sticky_partitioner \<Rightarrow> bytes option \<Rightarrow> u32 \<Rightarrow> sticky_partitioner \<times> u32 outcome" where
  "sticky_partition s key n =
     (if n = 0 then (s, Ok 0)
      else
        let cnt = sp_message_count s;
            s1 = s\<lparr>sp_message_count := cnt + 1\<rparr> in
        if cnt > 0 \<and> sp_batch_size s = 0 then (s1, Panic)
        else
          let s2 = (if cnt > 0 \<and> cnt mod sp_batch_size s = 0
                    then s1\<lparr>sp_current_partition := (sp_current_partition s1 + 1) mod n\<rparr> else s1)
          in (s2, Ok (sp_current_partition s2)))"

text \<open>A run of messages through a partitioner.\<close>

fun route_all :: "('s \<Rightarrow> bytes option \<Rightarrow> u32 \<Rightarrow> 's \<times> u32 outcome) \<Rightarrow> u32 \<Rightarrow> 's \<Rightarrow> bytes option list \<Rightarrow> 's \<times> u32 outcome list" where
  "route_all route n s [] = (s, [])"
| "route_all route n s (k # ks) =
     (let (s1, r) = route s k n; (s2, rs) = route_all route n s1 ks in (s2, r # rs))"

section \<open>The contract of the trait\<close>

locale partitioner =
  fixes route :: "'s \<Rightarrow> bytes option \<Rightarrow> u32 \<Rightarrow> 's \<times> u32 outcome"
    and usable :: "u32 \<Rightarrow> 's \<Rightarrow> bool"
  assumes route_ok: "usable n s \<Longrightarrow> 0 < n \<Longrightarrow> \<exists>s' p. route s key n = (s', Ok p) \<and> p < n \<and> usable n s'"
begin

text \<open>Every message of a run gets a partition of the topic.\<close>

lemma route_all_ok:
  assumes "usable n s" and "0 < n"
  shows "\<exists>s' ps. route_all route n s ks = (s', map Ok ps) \<and> length ps = length ks \<and>
           (\<forall>p \<in> set ps. p < n) \<and> usable n s'"
  using assms(1)
proof (induction ks arbitrary: s)
  case Nil
  then show ?case by (auto intro: exI [of _ "[]"])
next
  case (Cons k ks)
  obtain s1 p where p: "route s k n = (s1, Ok p)" "p < n" "usable n s1"
    using route_ok [OF Cons.prems assms(2)] by blast
  obtain s2 ps where "route_all route n s1 ks = (s2, map Ok ps)" "length ps = length ks"
      "\<forall>p \<in> set ps. p < n" "usable n s2"
    using Cons.IH [OF p(3)] by blast
  then show ?case using p by (intro exI [of _ s2] exI [of _ "p # ps"]) simp
qed

end

lemma u32_mod_less: "0 < n \<Longrightarrow> (x :: u32) mod n < n"
  unfolding word_less_nat_alt unat_mod by (simp add: word_less_nat_alt)

definition sticky_usable :: "u32 \<Rightarrow> sticky_partitioner \<Rightarrow> bool" where
  "sticky_usable n s \<longleftrightarrow> sp_current_partition s < n \<and> sp_batch_size s \<noteq> 0"

interpretation round_robin: partitioner round_robin_partition "\<lambda>n s. True"
  by unfold_locales (auto simp: round_robin_partition_def u32_mod_less)

interpretation key_hash: partitioner "key_hash_partition H" "\<lambda>n s. True" for H
  by unfold_locales (auto simp: key_hash_partition_def u32_mod_less split: option.split)

interpretation sticky: partitioner sticky_partition sticky_usable
  by unfold_locales (auto simp: sticky_partition_def sticky_usable_def u32_mod_less Let_def)

section \<open>Round robin\<close>

lemma route_all_append:
  "route_all route n s (ks @ [k]) =
     (let (s1, rs) = route_all route n s ks; (s2, r) = route s1 k n in (s2, rs @ [r]))"
  by (induction ks arbitrary: s) (auto simp: Let_def split: prod.splits)

lemma round_robin_sequence:
  assumes "0 < n"
  shows "route_all round_robin_partition n round_robin_new ks =
           (\<lparr>rr_counter = of_nat (length ks)\<rparr>, map (\<lambda>i. Ok (of_nat i mod n)) [0..<length ks])"
proof (induction ks rule: rev_induct)
  case (snoc k ks)
  then show ?case using assms by (simp add: route_all_append round_robin_partition_def)
qed (simp add: round_robin_new_def)

lemma residue_count:
  "0 < n \<Longrightarrow> k < n \<Longrightarrow> length (filter (\<lambda>i. i mod n = k) [0..<m]) = m div n + (if k < m mod n then 1 else 0)"
  by (induction m) (auto simp: div_Suc mod_Suc)

lemma u32_of_nat_mod:
  assumes "i < 2 ^ 32" and "0 < (n :: u32)"
  shows "of_nat i mod n = p \<longleftrightarrow> i mod unat n = unat p"
  using assms by (simp add: word_unat_eq_iff unat_mod unat_of_nat_u32)

text \<open>Of the first messages, fewer than the counter can hold, two partitions get numbers that differ by at most one.\<close>

lemma round_robin_even:
  assumes "0 < n" and "length ks \<le> 2 ^ 32" and "p < n"
  shows "length (filter (\<lambda>r. r = Ok p) (snd (route_all round_robin_partition n round_robin_new ks))) =
           length ks div unat n + (if unat p < length ks mod unat n then 1 else 0)"
proof -
  have "filter (\<lambda>i. Ok (of_nat i mod n) = Ok p) [0..<length ks] =
      filter (\<lambda>i. i mod unat n = unat p) [0..<length ks]"
    using assms(1,2) u32_of_nat_mod by (intro filter_cong refl) auto
  moreover have "0 < unat n" "unat p < unat n"
    using assms by (simp_all add: word_less_nat_alt)
  ultimately show ?thesis
    using residue_count [of "unat n" "unat p" "length ks"]
    by (simp add: round_robin_sequence [OF assms(1)] filter_map o_def)
qed

section \<open>Sticky\<close>

lemma next_partition:
  assumes "0 < (n :: u32)"
  shows "(of_nat (q mod unat n) + 1) mod n = (of_nat (Suc q mod unat n) :: u32)"
proof -
  have n: "0 < unat n" "unat n < 2 ^ 32" using assms unat_u32_less [of n] by (simp_all add: word_less_nat_alt)
  then have q: "q mod unat n < unat n" "Suc q mod unat n < unat n" by simp_all
  then have "q mod unat n + 1 < 2 ^ 32" using n(2) by linarith
  then have "unat (of_nat (q mod unat n) + 1 :: u32) = q mod unat n + 1"
    using unat_of_nat_u32 [of "q mod unat n + 1"] by (simp add: add.commute)
  then have "unat ((of_nat (q mod unat n) + 1) mod n) = Suc q mod unat n"
    by (simp add: unat_mod mod_Suc_eq)
  moreover have "unat (of_nat (Suc q mod unat n) :: u32) = Suc q mod unat n"
    using q(2) n(2) by (intro unat_of_nat_u32) linarith
  ultimately show ?thesis by (simp add: word_unat_eq_iff)
qed

text \<open>The \<open>i\<close>-th message goes to the partition of its batch: number \<open>i div batch\<close>, around the topic.\<close>

lemma sticky_sequence:
  assumes "0 < n" and "0 < batch" and "length ks < 2 ^ 32"
  shows "route_all sticky_partition n (sticky_new batch) ks =
           (\<lparr>sp_current_partition = of_nat (((length ks - 1) div unat batch) mod unat n),
             sp_message_count = of_nat (length ks), sp_batch_size = batch\<rparr>,
            map (\<lambda>i. Ok (of_nat ((i div unat batch) mod unat n))) [0..<length ks])"
  using assms(3)
proof (induction ks rule: rev_induct)
  case (snoc k ks)
  let ?m = "length ks" and ?b = "unat batch" and ?n = "unat n"
  let ?s = "\<lparr>sp_current_partition = of_nat (((?m - 1) div ?b) mod ?n), sp_message_count = of_nat ?m,
      sp_batch_size = batch\<rparr> :: sticky_partitioner"
  have pos: "n \<noteq> 0" "batch \<noteq> 0" using assms(1,2) by auto
  have m: "unat (of_nat ?m :: u32) = ?m" using snoc.prems by (intro unat_of_nat_u32) simp
  then have gt: "(of_nat ?m :: u32) > 0 \<longleftrightarrow> 0 < ?m"
    and dvd: "(of_nat ?m :: u32) mod batch = 0 \<longleftrightarrow> ?m mod ?b = 0"
    by (simp_all add: word_less_nat_alt word_unat_eq_iff unat_mod)
  have cur: "(if 0 < ?m \<and> ?m mod ?b = 0 then (of_nat (((?m - 1) div ?b) mod ?n) + 1) mod n
      else of_nat (((?m - 1) div ?b) mod ?n)) = (of_nat ((?m div ?b) mod ?n) :: u32)"
  proof (cases ?m)
    case (Suc j)
    then show ?thesis using next_partition [OF assms(1), of "j div ?b"] by (simp add: div_Suc)
  qed simp
  have "sticky_partition ?s k n =
      (\<lparr>sp_current_partition = of_nat ((?m div ?b) mod ?n), sp_message_count = of_nat ?m + 1,
         sp_batch_size = batch\<rparr>, Ok (of_nat ((?m div ?b) mod ?n)))"
    using pos cur by (auto simp: sticky_partition_def Let_def gt dvd split: if_splits)
  then show ?case using snoc by (simp add: route_all_append add.commute)
qed (simp add: sticky_new_def)

text \<open>A partitioner that was used with a topic of more partitions may name one that does not exist.\<close>

lemma sticky_out_of_range:
  assumes "0 < n" and "sp_message_count s mod sp_batch_size s \<noteq> 0" and "sp_batch_size s \<noteq> 0"
    and "n \<le> sp_current_partition s"
  shows "\<exists>s'. sticky_partition s k n = (s', Ok (sp_current_partition s))"
  using assms by (auto simp: sticky_partition_def Let_def)

end
