(* ===== verification/Producer.thy ===== *)
theory Producer
  imports Client_Connection Partitioner
begin

text \<open>
  \<open>client/src/producer.rs\<close>: the producer sends batches to a partition it is given or that its
  partitioner chooses, and caches the number of partitions of each topic. A batch that is spread by
  the partitioner reaches every chosen partition once, with its messages in their order, however
  the map of batches is iterated; the locale \<open>delivery\<close> joins the contracts this rests on, that of the
  service and that of the partitioner.
\<close>

text \<open>The connection stands beside the record, and the partitioner's own state is in it.\<close>

record 'p producer =
  pr_partitioner :: 'p
  pr_metadata_cache :: "(string, u32) hashmap"

type_synonym batches = "(u32, message list) hashmap"

section \<open>Operations\<close>

text \<open>\<open>connected\<close> is what the connection attempt returns.\<close>

definition connect_with_partitioner :: "string + 's \<Rightarrow> 'p \<Rightarrow> ('p producer \<times> 's) outcome" where
  "connect_with_partitioner connected part =
     (case connected of
        Inl e \<Rightarrow> Err (Connection e)
      | Inr s \<Rightarrow> Ok (\<lparr>pr_partitioner = part, pr_metadata_cache = []\<rparr>, s))"

definition producer_connect :: "string + 's \<Rightarrow> (round_robin_partitioner producer \<times> 's) outcome" where
  "producer_connect connected = connect_with_partitioner connected round_robin_new"

definition producer_create_topic ::
    "'s connection \<Rightarrow> string \<Rightarrow> u32 \<Rightarrow> 'p producer \<times> 's \<Rightarrow> ('p producer \<times> 's) \<times> unit outcome" where
  "producer_create_topic conn name partitions =
     run_then (ask conn (CreateTopic name partitions)) (\<lambda>resp. give (case resp of
         CreateTopicSuccess _ _ \<Rightarrow> Ok ()
       | CreateTopicError e \<Rightarrow> Err (Protocol e)
       | _ \<Rightarrow> unexpected))"

definition send ::
    "'s connection \<Rightarrow> string \<Rightarrow> u32 \<Rightarrow> message list \<Rightarrow> 'p producer \<times> 's \<Rightarrow> ('p producer \<times> 's) \<times> u64 outcome" where
  "send conn topic p messages =
     run_then (ask conn (Produce topic p messages)) (\<lambda>resp. give (case resp of
         ProduceSuccess _ _ base_offset _ \<Rightarrow> Ok base_offset
       | ProduceError e \<Rightarrow> Err (Protocol e)
       | _ \<Rightarrow> unexpected))"

definition refresh_metadata ::
    "'s connection \<Rightarrow> string \<Rightarrow> 'p producer \<times> 's \<Rightarrow> ('p producer \<times> 's) \<times> unit outcome" where
  "refresh_metadata conn topic =
     run_then (ask conn (GetPartitions topic)) (\<lambda>resp (pr, s).
       case resp of
         Partitions t n \<Rightarrow> ((pr\<lparr>pr_metadata_cache := hm_insert t n (pr_metadata_cache pr)\<rparr>, s), Ok ())
       | PartitionsError e \<Rightarrow> ((pr, s), Err (Protocol e))
       | _ \<Rightarrow> ((pr, s), unexpected))"

text \<open>The grouping of messages by the partition that the partitioner chooses.\<close>

fun group_loop ::
    "('p \<Rightarrow> bytes option \<Rightarrow> u32 \<Rightarrow> 'p \<times> u32 outcome) \<Rightarrow> u32 \<Rightarrow> message list \<Rightarrow> batches \<Rightarrow> 'p \<Rightarrow> 'p \<times> batches outcome" where
  "group_loop route n [] batches part = (part, Ok batches)"
| "group_loop route n (m # ms) batches part =
     (case route part (msg_key m) n of
        (part', Ok q) \<Rightarrow>
          group_loop route n ms
            (hm_insert q ((case hm_get batches q of None \<Rightarrow> [] | Some b \<Rightarrow> b) @ [m]) batches) part'
      | (part', Err e) \<Rightarrow> (part', Err e)
      | (part', Panic) \<Rightarrow> (part', Panic))"

fun send_loop ::
    "'s connection \<Rightarrow> string \<Rightarrow> (u32 \<times> message list) list \<Rightarrow> u64 \<Rightarrow> 'p producer \<times> 's \<Rightarrow>
     ('p producer \<times> 's) \<times> u64 outcome" where
  "send_loop conn topic [] base_offset st = (st, Ok base_offset)"
| "send_loop conn topic ((q, batch) # rest) base_offset st =
     (case send conn topic q batch st of
        (st', Ok off) \<Rightarrow> send_loop conn topic rest (if base_offset = 0 then off else base_offset) st'
      | (st', Err e) \<Rightarrow> (st', Err e)
      | (st', Panic) \<Rightarrow> (st', Panic))"

text \<open>\<open>bord\<close> is the order in which the map of batches is iterated.\<close>

definition send_batch_auto ::
    "((u32 \<times> message list) list \<Rightarrow> (u32 \<times> message list) list) \<Rightarrow>
     ('p \<Rightarrow> bytes option \<Rightarrow> u32 \<Rightarrow> 'p \<times> u32 outcome) \<Rightarrow> 's connection \<Rightarrow> string \<Rightarrow> message list \<Rightarrow>
     'p producer \<times> 's \<Rightarrow> ('p producer \<times> 's) \<times> u64 outcome" where
  "send_batch_auto bord route conn topic messages =
     run_then (\<lambda>(pr, s). if hm_get (pr_metadata_cache pr) topic \<noteq> None then ((pr, s), Ok ())
                       else refresh_metadata conn topic (pr, s)) (\<lambda>_ (pr, s).
       case hm_get (pr_metadata_cache pr) topic of
         None \<Rightarrow> ((pr, s), Err (TopicNotFound topic))
       | Some n \<Rightarrow>
           (case group_loop route n messages [] (pr_partitioner pr) of
              (part, Ok batches) \<Rightarrow> send_loop conn topic (bord batches) 0 (pr\<lparr>pr_partitioner := part\<rparr>, s)
            | (part, Err e) \<Rightarrow> ((pr\<lparr>pr_partitioner := part\<rparr>, s), Err e)
            | (part, Panic) \<Rightarrow> ((pr\<lparr>pr_partitioner := part\<rparr>, s), Panic)))"

definition send_auto ::
    "((u32 \<times> message list) list \<Rightarrow> (u32 \<times> message list) list) \<Rightarrow>
     ('p \<Rightarrow> bytes option \<Rightarrow> u32 \<Rightarrow> 'p \<times> u32 outcome) \<Rightarrow> 's connection \<Rightarrow> string \<Rightarrow> message \<Rightarrow>
     'p producer \<times> 's \<Rightarrow> ('p producer \<times> 's) \<times> u64 outcome" where
  "send_auto bord route conn topic m = send_batch_auto bord route conn topic [m]"

definition producer_get_metadata ::
    "'s connection \<Rightarrow> string list \<Rightarrow> 'p producer \<times> 's \<Rightarrow> ('p producer \<times> 's) \<times> topic_metadata list outcome" where
  "producer_get_metadata conn topics =
     run_then (ask conn (GetMetadata topics)) (\<lambda>resp (pr, s).
       case resp of
         Metadata ts \<Rightarrow>
           ((pr\<lparr>pr_metadata_cache := fold (\<lambda>t. hm_insert (tm_name t) (of_nat (length (tm_partitions t)))) ts
                (pr_metadata_cache pr)\<rparr>, s), Ok ts)
       | MetadataError e \<Rightarrow> ((pr, s), Err (Protocol e))
       | _ \<Rightarrow> ((pr, s), unexpected))"

definition producer_list_topics ::
    "'s connection \<Rightarrow> 'p producer \<times> 's \<Rightarrow> ('p producer \<times> 's) \<times> string list outcome" where
  "producer_list_topics conn =
     run_then (ask conn ListTopics) (\<lambda>resp. give (case resp of
         Topics ts \<Rightarrow> Ok ts
       | TopicsError e \<Rightarrow> Err (Protocol e)
       | _ \<Rightarrow> unexpected))"

section \<open>Grouping\<close>

text \<open>The messages routed to a partition, in their order.\<close>

definition routed_to :: "message list \<Rightarrow> u32 outcome list \<Rightarrow> u32 \<Rightarrow> message list" where
  "routed_to ms rs q = map fst (filter (\<lambda>(m, r). r = Ok q) (zip ms rs))"

lemma routed_to_simps [simp]:
  "routed_to [] rs q = []"
  "routed_to (m # ms) (r # rs) q = (if r = Ok q then [m] else []) @ routed_to ms rs q"
  by (simp_all add: routed_to_def)

definition batch_of :: "batches \<Rightarrow> u32 \<Rightarrow> message list" where
  "batch_of bs q = (case hm_get bs q of None \<Rightarrow> [] | Some b \<Rightarrow> b)"

lemma group_loop_batches:
  assumes "route_all route n part (map msg_key ms) = (part', map Ok qs)" and "length qs = length ms"
    and "hm_ok bs" and "\<forall>q. hm_get bs q \<noteq> Some []"
  shows "\<exists>bs'. group_loop route n ms bs part = (part', Ok bs') \<and> hm_ok bs' \<and> (\<forall>q. hm_get bs' q \<noteq> Some []) \<and>
           (\<forall>q. batch_of bs' q = batch_of bs q @ routed_to ms (map Ok qs) q)"
  using assms
proof (induction ms arbitrary: part qs bs)
  case (Cons m ms)
  obtain q qs' where qs: "qs = q # qs'" "length qs' = length ms" using Cons.prems(2) by (cases qs) auto
  obtain part1 where r: "route part (msg_key m) n = (part1, Ok q)"
      "route_all route n part1 (map msg_key ms) = (part', map Ok qs')"
    using Cons.prems(1) qs(1) by (auto split: prod.splits)
  let ?bs = "hm_insert q (batch_of bs q @ [m]) bs"
  have "hm_ok ?bs" "\<forall>q. hm_get ?bs q \<noteq> Some []"
    using Cons.prems(3,4) by (simp_all add: hashmap_simps)
  from Cons.IH [OF r(2) qs(2) this] obtain bs' where bs': "group_loop route n ms ?bs part1 = (part', Ok bs')"
      "hm_ok bs'" "\<forall>q. hm_get bs' q \<noteq> Some []"
      "\<forall>q. batch_of bs' q = batch_of ?bs q @ routed_to ms (map Ok qs') q"
    by blast
  have "batch_of ?bs x = batch_of bs x @ (if x = q then [m] else [])" for x
    by (simp add: batch_of_def hashmap_simps)
  then show ?case using bs' r(1) qs(1) by (auto simp: batch_of_def [of bs q, symmetric])
qed auto

section \<open>Delivery\<close>

locale delivery = log_service conn holds admits + partitioner route usable
  for conn :: "'s connection" and holds admits
    and route :: "'p \<Rightarrow> bytes option \<Rightarrow> u32 \<Rightarrow> 'p \<times> u32 outcome" and usable
begin

lemma send_delivers:
  assumes "holds s t q recs" and "admits s t q ms"
  obtains s' new where "send conn t q ms (pr, s) = ((pr, s'), Ok (of_nat (length recs)))"
    and "map rec_message new = ms" and "holds s' t q (recs @ new)"
    and "\<forall>t' q' recs'. (t', q') \<noteq> (t, q) \<longrightarrow> holds s t' q' recs' \<longrightarrow> holds s' t' q' recs'"
    and "\<forall>t' q' ms'. (t', q') \<noteq> (t, q) \<longrightarrow> admits s t' q' ms' \<longrightarrow> admits s' t' q' ms'"
proof -
  obtain s' new where s': "conn (Produce t q ms) s =
        (s', Received (ProduceSuccess t q (of_nat (length recs)) (of_nat (length ms))))"
      "map rec_message new = ms" "holds s' t q (recs @ new)"
      "\<forall>t' p' recs'. (t', p') \<noteq> (t, q) \<longrightarrow> holds s t' p' recs' \<longrightarrow> holds s' t' p' recs'"
      "\<forall>t' p' ms'. (t', p') \<noteq> (t, q) \<longrightarrow> admits s t' p' ms' \<longrightarrow> admits s' t' p' ms'"
    using produce_law [OF assms] by blast
  have "send conn t q ms (pr, s) = ((pr, s'), Ok (of_nat (length recs)))"
    using s'(1) by (simp add: send_def ask_received [where conn = conn])
  then show thesis using s' that by blast
qed

lemma send_loop_delivers:
  assumes "distinct (map fst bs)" and "\<forall>q. holds s t q (recs q) \<or> q \<notin> fst ` set bs"
    and "\<forall>(q, ms) \<in> set bs. admits s t q ms"
  shows "\<exists>s' base' new. send_loop conn t bs base (pr, s) = ((pr, s'), Ok base') \<and>
           (\<forall>(q, ms) \<in> set bs. map rec_message (new q) = ms \<and> holds s' t q (recs q @ new q)) \<and>
           (\<forall>t' q' recs'. (t' \<noteq> t \<or> q' \<notin> fst ` set bs) \<longrightarrow> holds s t' q' recs' \<longrightarrow> holds s' t' q' recs')"
  using assms
proof (induction bs arbitrary: s base)
  case (Cons b bs)
  obtain q ms where b: "b = (q, ms)" by (cases b)
  have hq: "holds s t q (recs q)" "admits s t q ms" using Cons.prems(2,3) b by auto
  obtain s1 new1 where s1: "send conn t q ms (pr, s) = ((pr, s1), Ok (of_nat (length (recs q))))"
      "map rec_message new1 = ms" "holds s1 t q (recs q @ new1)"
      "\<forall>t' q' recs'. (t', q') \<noteq> (t, q) \<longrightarrow> holds s t' q' recs' \<longrightarrow> holds s1 t' q' recs'"
      "\<forall>t' q' ms'. (t', q') \<noteq> (t, q) \<longrightarrow> admits s t' q' ms' \<longrightarrow> admits s1 t' q' ms'"
    by (rule send_delivers [OF hq, of pr])
  have nq: "q \<notin> fst ` set bs" using Cons.prems(1) b by auto
  have dist: "distinct (map fst bs)" using Cons.prems(1) by simp
  have logs: "\<forall>x. holds s1 t x (recs x) \<or> x \<notin> fst ` set bs"
  proof
    fix x
    have "x \<noteq> q \<and> holds s t x (recs x)" if "x \<in> fst ` set bs"
      using that Cons.prems(2) [rule_format, of x] nq by auto
    then show "holds s1 t x (recs x) \<or> x \<notin> fst ` set bs" using s1(4) by blast
  qed
  have room: "\<forall>(x, ms') \<in> set bs. admits s1 t x ms'"
    using Cons.prems(3) s1(5) nq b by (force simp: image_iff)
  obtain s' base' new where s':
      "send_loop conn t bs (if base = 0 then of_nat (length (recs q)) else base) (pr, s1) = ((pr, s'), Ok base')"
      "\<forall>(x, ms') \<in> set bs. map rec_message (new x) = ms' \<and> holds s' t x (recs x @ new x)"
      "\<forall>t' q' recs'. (t' \<noteq> t \<or> q' \<notin> fst ` set bs) \<longrightarrow> holds s1 t' q' recs' \<longrightarrow> holds s' t' q' recs'"
    using Cons.IH [OF dist logs room, of "if base = 0 then of_nat (length (recs q)) else base"]
    by (elim exE conjE)
  show ?case
  proof (intro exI [of _ s'] exI [of _ base'] exI [of _ "new(q := new1)"] conjI allI impI)
    show "send_loop conn t (b # bs) base (pr, s) = ((pr, s'), Ok base')" using b s1(1) s'(1) by simp
    have "holds s' t q (recs q @ new1)" using s'(3) s1(3) nq by blast
    moreover have "x \<noteq> q" if "(x, ms') \<in> set bs" for x ms' using that nq by force
    ultimately show "\<forall>(x, ms') \<in> set (b # bs). map rec_message ((new(q := new1)) x) = ms' \<and>
        holds s' t x (recs x @ (new(q := new1)) x)"
      using s'(2) s1(2) b by auto
    show "holds s' t' q' recs'" if "t' \<noteq> t \<or> q' \<notin> fst ` set (b # bs)" "holds s t' q' recs'" for t' q' recs'
      using that s'(3) s1(4) b by auto
  qed
qed simp

text \<open>
  A batch that is spread by the partitioner: every partition's log grows by exactly the messages
  that were routed to it, in their order.
\<close>

lemma send_batch_auto_delivers:
  assumes "hm_get (pr_metadata_cache pr) t = Some n" and "0 < n" and "usable n (pr_partitioner pr)"
    and "is_order bord"
    and "\<forall>q<n. holds s t q (recs q)"
    and "\<forall>q<n. \<forall>ms'. ms' \<noteq> [] \<longrightarrow> set ms' \<subseteq> set ms \<longrightarrow> length ms' \<le> length ms \<longrightarrow> admits s t q ms'"
    and "route_all route n (pr_partitioner pr) (map msg_key ms) = (part', rs)"
  shows "\<exists>s' base new. send_batch_auto bord route conn t ms (pr, s) =
             ((pr\<lparr>pr_partitioner := part'\<rparr>, s'), Ok base) \<and>
           (\<forall>q<n. map rec_message (new q) = routed_to ms rs q \<and> holds s' t q (recs q @ new q)) \<and>
           (\<forall>t' q' recs'. t' \<noteq> t \<longrightarrow> holds s t' q' recs' \<longrightarrow> holds s' t' q' recs')"
proof -
  obtain qs where qs: "rs = map Ok qs" "length qs = length ms" "\<forall>q \<in> set qs. q < n"
    using route_all_ok [OF assms(3,2), of "map msg_key ms"] assms(7) by auto
  obtain bs where bs: "group_loop route n ms [] (pr_partitioner pr) = (part', Ok bs)" "hm_ok bs"
      "\<forall>q. hm_get bs q \<noteq> Some []" "\<forall>q. batch_of bs q = routed_to ms rs q"
    using group_loop_batches [of route n "pr_partitioner pr" ms part' qs "[]"] assms(7) qs(1,2)
    by (auto simp: batch_of_def)
  note bs' = hm_permuted [OF order_mset [OF assms(4)] bs(2)]
  have mem: "(q, b) \<in> set (bord bs) \<longleftrightarrow> hm_get bs q = Some b" for q b
    using hm_get_eq_Some [OF bs'(1)] bs'(2) by simp
  have batch: "b = routed_to ms rs q" "b \<noteq> []" if "(q, b) \<in> set (bord bs)" for q b
    using that bs(3,4) [rule_format, of q] by (auto simp: mem batch_of_def)
  have small: "q < n" if qb: "(q, b) \<in> set (bord bs)" for q b
  proof -
    obtain x where "x \<in> set b" using batch(2) [OF qb] by (cases b) auto
    then have "Ok q \<in> set rs"
      unfolding batch(1) [OF qb] routed_to_def by (auto dest: set_zip_rightD)
    then show ?thesis using qs(1,3) by auto
  qed
  have "distinct (map fst (bord bs))" using bs'(1) by (simp add: hm_ok_def)
  moreover have "\<forall>q. holds s t q (recs q) \<or> q \<notin> fst ` set (bord bs)"
    using small assms(5) by force
  moreover have "\<forall>(q, b) \<in> set (bord bs). admits s t q b"
  proof (clarify)
    fix q b
    assume qb: "(q, b) \<in> set (bord bs)"
    have "set b \<subseteq> set ms" "length b \<le> length ms"
      unfolding batch(1) [OF qb] routed_to_def
      by (auto dest: set_zip_leftD intro: order_trans [OF length_filter_le])
    then show "admits s t q b" using assms(6) small [OF qb] batch(2) [OF qb] by blast
  qed
  ultimately obtain s' base new where sl:
      "send_loop conn t (bord bs) 0 (pr\<lparr>pr_partitioner := part'\<rparr>, s) = ((pr\<lparr>pr_partitioner := part'\<rparr>, s'), Ok base)"
      "\<forall>(q, b) \<in> set (bord bs). map rec_message (new q) = b \<and> holds s' t q (recs q @ new q)"
      "\<forall>t' q' recs'. (t' \<noteq> t \<or> q' \<notin> fst ` set (bord bs)) \<longrightarrow> holds s t' q' recs' \<longrightarrow> holds s' t' q' recs'"
    using send_loop_delivers [of "bord bs" s t recs 0 "pr\<lparr>pr_partitioner := part'\<rparr>"] by blast
  let ?new = "\<lambda>q. if q \<in> fst ` set (bord bs) then new q else []"
  have "map rec_message (?new q) = routed_to ms rs q \<and> holds s' t q (recs q @ ?new q)" if q: "q < n" for q
  proof (cases "q \<in> fst ` set (bord bs)")
    case True
    then obtain b where "(q, b) \<in> set (bord bs)" by auto
    then show ?thesis using sl(2) batch(1) True by auto
  next
    case False
    then have "hm_get bs q = None" using mem by (metis fst_conv image_eqI not_None_eq)
    then have "routed_to ms rs q = []" using bs(4) by (metis batch_of_def option.case(1))
    then show ?thesis using False sl(3) assms(5) q by simp
  qed
  moreover have "send_batch_auto bord route conn t ms (pr, s) = ((pr\<lparr>pr_partitioner := part'\<rparr>, s'), Ok base)"
    using assms(1) bs(1) sl(1) by (simp add: send_batch_auto_def run_then_def)
  ultimately show ?thesis using sl(3) by (intro exI [of _ s'] exI [of _ base] exI [of _ ?new]) auto
qed

end

end
