(* ===== verification/Consumer.thy ===== *)
theory Consumer
  imports Client_Connection
begin

text \<open>
  \<open>client/src/consumer.rs\<close>: the consumer keeps a position for every partition it reads, moves it
  past what it fetched, and as a member of a group starts from the committed positions and commits
  its own. Successive polls read a log from the first position to the end, every record once and in
  order. The heartbeat of a group member is a task of its own; joining again leaves the
  old one running.
\<close>

text \<open>
  The connection stands beside the record. \<open>cs_heartbeat_task\<close> is the handle of the task that was
  spawned last. \<open>cs_tasks\<close> and \<open>cs_next_task\<close> are not fields of the code: they hold the tasks
  that run, each with the group and the member it sends heartbeats for, and the next free handle.
\<close>

record consumer =
  cs_subscriptions :: "(string, u32 list) hashmap"
  cs_offsets :: "(string \<times> u32, u64) hashmap"
  cs_group_id :: "string option"
  cs_member_id :: "string option"
  cs_assignments :: "partition_assignment list"
  cs_auto_commit :: bool
  cs_auto_commit_interval :: nat
  cs_heartbeat_task :: "nat option"
  cs_tasks :: "(nat, string \<times> string) hashmap"
  cs_next_task :: nat

type_synonym ('s, 'a) client_op = "consumer \<times> 's \<Rightarrow> (consumer \<times> 's) \<times> 'a outcome"
type_synonym offset_order = "((string \<times> u32) \<times> u64) list \<Rightarrow> ((string \<times> u32) \<times> u64) list"
type_synonym subscription_order = "(string \<times> u32 list) list \<Rightarrow> (string \<times> u32 list) list"

section \<open>Operations\<close>

text \<open>\<open>connected\<close> is what the connection attempt returns; the interval is in milliseconds.\<close>

definition consumer_connect :: "string + 's \<Rightarrow> (consumer \<times> 's) outcome" where
  "consumer_connect connected =
     (case connected of
        Inl e \<Rightarrow> Err (Connection e)
      | Inr s \<Rightarrow>
          Ok (\<lparr>cs_subscriptions = [], cs_offsets = [], cs_group_id = None, cs_member_id = None,
              cs_assignments = [], cs_auto_commit = False, cs_auto_commit_interval = 5000,
              cs_heartbeat_task = None, cs_tasks = [], cs_next_task = 0\<rparr>, s))"

definition with_group_id :: "string \<Rightarrow> consumer \<Rightarrow> consumer" where
  "with_group_id g c = c\<lparr>cs_group_id := Some g\<rparr>"

definition with_auto_commit :: "nat option \<Rightarrow> consumer \<Rightarrow> consumer" where
  "with_auto_commit interval c =
     (let c1 = c\<lparr>cs_auto_commit := True\<rparr> in
      case interval of Some i \<Rightarrow> c1\<lparr>cs_auto_commit_interval := i\<rparr> | None \<Rightarrow> c1)"

text \<open>The unwraps of the group and the member panic when there is none.\<close>

definition fetch_committed_offset :: "'s connection \<Rightarrow> string \<Rightarrow> u32 \<Rightarrow> ('s, u64) client_op" where
  "fetch_committed_offset conn topic p =
     (\<lambda>(c, s). case cs_group_id c of
        None \<Rightarrow> ((c, s), Panic)
      | Some group_id \<Rightarrow>
          run_then (ask conn (FetchOffset group_id topic p)) (\<lambda>resp. give (case resp of
              FetchOffsetSuccess _ _ _ off \<Rightarrow> Ok off
            | FetchOffsetError e \<Rightarrow> Err (Protocol e)
            | _ \<Rightarrow> unexpected)) (c, s))"

definition start_heartbeat_task :: "('s, unit) client_op" where
  "start_heartbeat_task =
     (\<lambda>(c, s). case (cs_group_id c, cs_member_id c) of
        (Some g, Some m) \<Rightarrow>
          ((c\<lparr>cs_heartbeat_task := Some (cs_next_task c),
             cs_tasks := hm_insert (cs_next_task c) (g, m) (cs_tasks c),
             cs_next_task := Suc (cs_next_task c)\<rparr>, s), Ok ())
      | _ \<Rightarrow> ((c, s), Panic))"

text \<open>One turn of the heartbeat task, and whether it goes on.\<close>

definition heartbeat_tick :: "'s connection \<Rightarrow> string \<times> string \<Rightarrow> 's \<Rightarrow> 's \<times> bool" where
  "heartbeat_tick conn gm s =
     (case conn (Heartbeat (fst gm) (snd gm)) s of
        (s', SendFailed e) \<Rightarrow> (s', False)
      | (s', ReceiveFailed e) \<Rightarrow> (s', False)
      | (s', Closed) \<Rightarrow> (s', False)
      | (s', Received resp) \<Rightarrow> (s', True))"

definition abort_task :: "consumer \<Rightarrow> consumer" where
  "abort_task c =
     (case cs_heartbeat_task c of
        Some h \<Rightarrow> c\<lparr>cs_heartbeat_task := None, cs_tasks := hm_remove h (cs_tasks c)\<rparr>
      | None \<Rightarrow> c)"

fun init_offsets :: "'s connection \<Rightarrow> partition_assignment list \<Rightarrow> ('s, unit) client_op" where
  "init_offsets conn [] st = (st, Ok ())"
| "init_offsets conn (a # as) st =
     run_then (fetch_committed_offset conn (pa_topic a) (pa_partition a)) (\<lambda>off (c, s).
       init_offsets conn as
         (c\<lparr>cs_offsets := hm_insert (pa_topic a, pa_partition a) off (cs_offsets c)\<rparr>, s)) st"

definition consumer_join_group :: "'s connection \<Rightarrow> string list \<Rightarrow> ('s, unit) client_op" where
  "consumer_join_group conn topics =
     (\<lambda>(c, s). case cs_group_id c of
        None \<Rightarrow> ((c, s), Err (Protocol ''Group ID not set''))
      | Some group_id \<Rightarrow>
          run_then (ask conn (JoinGroup group_id (cs_member_id c) topics)) (\<lambda>resp (c, s).
            case resp of
              JoinGroupSuccess _ member_id assignments \<Rightarrow>
                run_then (init_offsets conn assignments) (\<lambda>_. start_heartbeat_task)
                  (c\<lparr>cs_member_id := Some member_id, cs_assignments := assignments\<rparr>, s)
            | JoinGroupError e \<Rightarrow> ((c, s), Err (Protocol e))
            | _ \<Rightarrow> ((c, s), unexpected)) (c, s))"

definition consumer_leave_group :: "'s connection \<Rightarrow> ('s, unit) client_op" where
  "consumer_leave_group conn =
     (\<lambda>(c, s). case cs_group_id c of
        None \<Rightarrow> ((c, s), Err (Protocol ''Not in a group''))
      | Some group_id \<Rightarrow>
          (case cs_member_id c of
             None \<Rightarrow> ((c, s), Err (Protocol ''Member ID not set''))
           | Some member_id \<Rightarrow>
               run_then (ask conn (LeaveGroup group_id member_id)) (\<lambda>resp (c, s).
                 case resp of
                   LeaveGroupSuccess _ \<Rightarrow> ((c\<lparr>cs_member_id := None, cs_assignments := []\<rparr>, s), Ok ())
                 | LeaveGroupError e \<Rightarrow> ((c, s), Err (Protocol e))
                 | _ \<Rightarrow> ((c, s), unexpected)) (abort_task c, s)))"

fun commit_loop ::
    "'s connection \<Rightarrow> string \<Rightarrow> ((string \<times> u32) \<times> u64) list \<Rightarrow> ('s, unit) client_op" where
  "commit_loop conn group_id [] st = (st, Ok ())"
| "commit_loop conn group_id (((topic, p), off) # rest) st =
     run_then (ask conn (CommitOffset group_id topic p off)) (\<lambda>resp st'.
       case resp of
         CommitOffsetSuccess _ _ _ _ \<Rightarrow> commit_loop conn group_id rest st'
       | CommitOffsetError e \<Rightarrow> (st', Err (Protocol e))
       | _ \<Rightarrow> (st', unexpected)) st"

text \<open>\<open>oord\<close> is the order in which the map of offsets is iterated.\<close>

definition commit_offsets :: "offset_order \<Rightarrow> 's connection \<Rightarrow> ('s, unit) client_op" where
  "commit_offsets oord conn =
     (\<lambda>(c, s). case cs_group_id c of
        None \<Rightarrow> ((c, s), Err (Protocol ''Not in a consumer group''))
      | Some group_id \<Rightarrow> commit_loop conn group_id (oord (cs_offsets c)) (c, s))"

definition get_topic_metadata :: "'s connection \<Rightarrow> string \<Rightarrow> ('s, topic_metadata) client_op" where
  "get_topic_metadata conn topic =
     run_then (ask conn (GetMetadata [topic])) (\<lambda>resp. give (case resp of
         Metadata ts \<Rightarrow> (case ts of [] \<Rightarrow> Err (TopicNotFound topic) | t # _ \<Rightarrow> Ok t)
       | MetadataError e \<Rightarrow> Err (Protocol e)
       | _ \<Rightarrow> unexpected))"

fun subscribe :: "'s connection \<Rightarrow> string list \<Rightarrow> ('s, unit) client_op" where
  "subscribe conn [] st = (st, Ok ())"
| "subscribe conn (topic # topics) st =
     run_then (get_topic_metadata conn topic) (\<lambda>meta (c, s).
       let partition_ids = u32_range (of_nat (length (tm_partitions meta))) in
       subscribe conn topics
         (c\<lparr>cs_subscriptions := hm_insert topic partition_ids (cs_subscriptions c),
            cs_offsets := fold (\<lambda>p. hm_insert (topic, p) 0) partition_ids (cs_offsets c)\<rparr>, s)) st"

definition consumer_fetch ::
    "'s connection \<Rightarrow> string \<Rightarrow> u32 \<Rightarrow> u64 \<Rightarrow> u32 \<Rightarrow> ('s, stored_record list) client_op" where
  "consumer_fetch conn topic p off max_messages =
     run_then (ask conn (Fetch topic p off max_messages)) (\<lambda>resp. give (case resp of
         FetchSuccess _ _ records \<Rightarrow> Ok records
       | FetchError e \<Rightarrow> Err (Protocol e)
       | _ \<Rightarrow> unexpected))"

text \<open>
  The body of the loops of \<open>poll\<close> and \<open>poll_group\<close>: fetch from the position of a partition and
  move the position behind the last record.
\<close>

definition poll_partition :: "'s connection \<Rightarrow> u32 \<Rightarrow> string \<Rightarrow> u32 \<Rightarrow> ('s, stored_record list) client_op" where
  "poll_partition conn max_messages topic p =
     (\<lambda>(c, s).
        let current_offset = (case hm_get (cs_offsets c) (topic, p) of Some off \<Rightarrow> off | None \<Rightarrow> 0) in
        run_then (consumer_fetch conn topic p current_offset max_messages) (\<lambda>records (c, s).
          ((if records = [] then c
            else c\<lparr>cs_offsets := hm_insert (topic, p) (rec_offset (last records) + 1) (cs_offsets c)\<rparr>, s),
           Ok records)) (c, s))"

fun poll_loop :: "'s connection \<Rightarrow> u32 \<Rightarrow> (string \<times> u32) list \<Rightarrow> ('s, stored_record list) client_op" where
  "poll_loop conn max_messages [] st = (st, Ok [])"
| "poll_loop conn max_messages ((topic, p) # rest) st =
     run_then (poll_partition conn max_messages topic p) (\<lambda>records.
       run_then (poll_loop conn max_messages rest) (\<lambda>more. give (Ok (records @ more)))) st"

text \<open>\<open>sord\<close> is the order in which the map of subscriptions is iterated.\<close>

definition poll :: "subscription_order \<Rightarrow> 's connection \<Rightarrow> u32 \<Rightarrow> ('s, stored_record list) client_op" where
  "poll sord conn max_messages =
     (\<lambda>(c, s). poll_loop conn max_messages
        (concat (map (\<lambda>(topic, ps). map (Pair topic) ps) (sord (cs_subscriptions c)))) (c, s))"

text \<open>A failed automatic commit is logged and dropped.\<close>

definition poll_group :: "offset_order \<Rightarrow> 's connection \<Rightarrow> u32 \<Rightarrow> ('s, stored_record list) client_op" where
  "poll_group oord conn max_messages =
     (\<lambda>(c, s). if cs_assignments c = [] then ((c, s), Ok [])
      else
        run_then (poll_loop conn max_messages
            (map (\<lambda>a. (pa_topic a, pa_partition a)) (cs_assignments c))) (\<lambda>records (c, s).
          if cs_auto_commit c \<and> records \<noteq> [] then
            (case commit_offsets oord conn (c, s) of
               (st, Panic) \<Rightarrow> (st, Panic)
             | (st, _) \<Rightarrow> (st, Ok records))
          else ((c, s), Ok records)) (c, s))"

definition commit_offset :: "string \<Rightarrow> u32 \<Rightarrow> u64 \<Rightarrow> consumer \<Rightarrow> consumer" where
  "commit_offset topic p off c = c\<lparr>cs_offsets := hm_insert (topic, p) off (cs_offsets c)\<rparr>"

definition get_offset :: "consumer \<Rightarrow> string \<Rightarrow> u32 \<Rightarrow> u64 option" where
  "get_offset c topic p = hm_get (cs_offsets c) (topic, p)"

definition seek :: "string \<Rightarrow> u32 \<Rightarrow> u64 \<Rightarrow> consumer \<Rightarrow> consumer" where
  "seek topic p off c = c\<lparr>cs_offsets := hm_insert (topic, p) off (cs_offsets c)\<rparr>"

text \<open>What dropping a consumer leaves running.\<close>

definition consumer_drop :: "consumer \<Rightarrow> (nat, string \<times> string) hashmap" where
  "consumer_drop c = cs_tasks (abort_task c)"

section \<open>Reading\<close>

definition position :: "consumer \<Rightarrow> string \<Rightarrow> u32 \<Rightarrow> nat" where
  "position c t p = unat (case hm_get (cs_offsets c) (t, p) of Some off \<Rightarrow> off | None \<Rightarrow> 0)"

text \<open>Polling again and again, with everything that was returned.\<close>

fun poll_times ::
    "nat \<Rightarrow> subscription_order \<Rightarrow> 's connection \<Rightarrow> u32 \<Rightarrow> ('s, stored_record list) client_op" where
  "poll_times 0 sord conn n st = (st, Ok [])"
| "poll_times (Suc k) sord conn n st =
     run_then (poll sord conn n) (\<lambda>records.
       run_then (poll_times k sord conn n) (\<lambda>more. give (Ok (records @ more)))) st"

context log_reader
begin

lemma poll_partition_reads:
  assumes "holds s t p recs"
  obtains offs s' where "poll_partition conn n t p (c, s) =
        ((c\<lparr>cs_offsets := offs\<rparr>, s'), Ok (take (unat n) (drop (position c t p) recs)))"
    and "position c t p \<le> length recs \<longrightarrow>
      position (c\<lparr>cs_offsets := offs\<rparr>) t p = min (length recs) (position c t p + unat n)"
    and "\<forall>t' p'. (t', p') \<noteq> (t, p) \<longrightarrow> position (c\<lparr>cs_offsets := offs\<rparr>) t' p' = position c t' p'"
    and "\<forall>t' p' recs'. holds s t' p' recs' \<longrightarrow> holds s' t' p' recs'"
    and "hm_ok (cs_offsets c) \<longrightarrow> hm_ok offs"
proof -
  let ?off = "case hm_get (cs_offsets c) (t, p) of Some off \<Rightarrow> off | None \<Rightarrow> 0"
  let ?got = "take (unat n) (drop (unat ?off) recs)"
  let ?offs = "if ?got = [] then cs_offsets c else hm_insert (t, p) (rec_offset (last ?got) + 1) (cs_offsets c)"
  obtain s' where s': "conn (Fetch t p ?off n) s = (s', Received (FetchSuccess t p ?got))"
      "\<forall>t' p' recs'. holds s t' p' recs' \<longrightarrow> holds s' t' p' recs'"
    using fetch_law [OF assms] by blast
  have "consumer_fetch conn t p ?off n (c, s) = ((c, s'), Ok ?got)"
    using s'(1) by (simp add: consumer_fetch_def ask_received [where conn = conn])
  then have poll: "poll_partition conn n t p (c, s) = ((c\<lparr>cs_offsets := ?offs\<rparr>, s'), Ok ?got)"
    by (simp add: poll_partition_def Let_def)
  have pos: "unat ?off = position c t p" by (simp add: position_def)
  have moved: "position (c\<lparr>cs_offsets := ?offs\<rparr>) t p = min (length recs) (position c t p + unat n)"
    if "position c t p \<le> length recs"
  proof (cases "?got = []")
    case True
    then show ?thesis using that by (auto simp: position_def)
  next
    case False
    then have "position (c\<lparr>cs_offsets := ?offs\<rparr>) t p = unat (rec_offset (last ?got) + 1)"
      by (simp add: position_def hashmap_simps)
    then show ?thesis using next_position(2) [OF assms False] pos by simp
  qed
  have others: "position (c\<lparr>cs_offsets := ?offs\<rparr>) t' p' = position c t' p'" if "(t', p') \<noteq> (t, p)" for t' p'
    using that by (auto simp: position_def hashmap_simps)
  show thesis
    by (rule that [of ?offs s']) (use poll moved others s'(2) in \<open>simp_all add: pos\<close>)
qed

lemma poll_loop_reads:
  assumes "distinct tps" and "\<forall>(t, p) \<in> set tps. holds s t p (recs t p) \<and> position c t p \<le> length (recs t p)"
  obtains offs s' where "poll_loop conn n tps (c, s) = ((c\<lparr>cs_offsets := offs\<rparr>, s'),
        Ok (concat (map (\<lambda>(t, p). take (unat n) (drop (position c t p) (recs t p))) tps)))"
    and "\<forall>(t, p) \<in> set tps. position (c\<lparr>cs_offsets := offs\<rparr>) t p =
        min (length (recs t p)) (position c t p + unat n)"
    and "\<forall>t p. (t, p) \<notin> set tps \<longrightarrow> position (c\<lparr>cs_offsets := offs\<rparr>) t p = position c t p"
    and "\<forall>t p recs'. holds s t p recs' \<longrightarrow> holds s' t p recs'"
    and "hm_ok (cs_offsets c) \<longrightarrow> hm_ok offs"
  using assms
proof (induction tps arbitrary: c s thesis)
  case Nil
  show ?case by (rule Nil.prems(1) [of "cs_offsets c" s]) simp_all
next
  case (Cons tp tps)
  obtain t p where tp: "tp = (t, p)" by (cases tp)
  have here: "holds s t p (recs t p)" "position c t p \<le> length (recs t p)" using Cons.prems(3) tp by auto
  obtain o1 s1 where 1: "poll_partition conn n t p (c, s) =
        ((c\<lparr>cs_offsets := o1\<rparr>, s1), Ok (take (unat n) (drop (position c t p) (recs t p))))"
      "position c t p \<le> length (recs t p) \<longrightarrow>
         position (c\<lparr>cs_offsets := o1\<rparr>) t p = min (length (recs t p)) (position c t p + unat n)"
      "\<forall>t' p'. (t', p') \<noteq> (t, p) \<longrightarrow> position (c\<lparr>cs_offsets := o1\<rparr>) t' p' = position c t' p'"
      "\<forall>t' p' recs'. holds s t' p' recs' \<longrightarrow> holds s1 t' p' recs'" "hm_ok (cs_offsets c) \<longrightarrow> hm_ok o1"
    by (rule poll_partition_reads [OF here(1)])
  let ?c1 = "c\<lparr>cs_offsets := o1\<rparr>"
  have nin: "(t, p) \<notin> set tps" "distinct tps" using Cons.prems(2) tp by auto
  have same: "position ?c1 t' p' = position c t' p'" if "(t', p') \<in> set tps" for t' p'
    using that nin(1) by (intro 1(3) [rule_format]) auto
  have rest: "\<forall>(t, p) \<in> set tps. holds s1 t p (recs t p) \<and> position ?c1 t p \<le> length (recs t p)"
    using Cons.prems(3) 1(4) same by auto
  obtain o2 s2 where 2:
      "poll_loop conn n tps (?c1, s1) = ((?c1\<lparr>cs_offsets := o2\<rparr>, s2),
         Ok (concat (map (\<lambda>(t, p). take (unat n) (drop (position ?c1 t p) (recs t p))) tps)))"
      "\<forall>(t, p) \<in> set tps. position (?c1\<lparr>cs_offsets := o2\<rparr>) t p =
         min (length (recs t p)) (position ?c1 t p + unat n)"
      "\<forall>t p. (t, p) \<notin> set tps \<longrightarrow> position (?c1\<lparr>cs_offsets := o2\<rparr>) t p = position ?c1 t p"
      "\<forall>t p recs'. holds s1 t p recs' \<longrightarrow> holds s2 t p recs'" "hm_ok (cs_offsets ?c1) \<longrightarrow> hm_ok o2"
    by (rule Cons.IH [OF _ nin(2) rest])
  have map2: "map (\<lambda>(t, p). take (unat n) (drop (position ?c1 t p) (recs t p))) tps =
      map (\<lambda>(t, p). take (unat n) (drop (position c t p) (recs t p))) tps"
    using same by (intro map_cong refl) auto
  show ?case
  proof (rule Cons.prems(1) [of o2 s2])
    show "poll_loop conn n (tp # tps) (c, s) = ((c\<lparr>cs_offsets := o2\<rparr>, s2),
        Ok (concat (map (\<lambda>(t, p). take (unat n) (drop (position c t p) (recs t p))) (tp # tps))))"
      using 1(1) 2(1) map2 tp by simp
    show "\<forall>(t, p) \<in> set (tp # tps). position (c\<lparr>cs_offsets := o2\<rparr>) t p =
        min (length (recs t p)) (position c t p + unat n)"
      using 1(2) here(2) 2(2,3) nin(1) same tp by auto
    show "\<forall>t' p'. (t', p') \<notin> set (tp # tps) \<longrightarrow> position (c\<lparr>cs_offsets := o2\<rparr>) t' p' = position c t' p'"
      using 1(3) 2(3) tp by auto
    show "\<forall>t' p' recs'. holds s t' p' recs' \<longrightarrow> holds s2 t' p' recs'"
      using 1(4) 2(4) by blast
    show "hm_ok (cs_offsets c) \<longrightarrow> hm_ok o2" using 1(5) 2(5) by simp
  qed
qed

text \<open>Polls of a consumer of one partition read its log from the position on, \<open>n\<close> records at a time.\<close>

lemma poll_times_reads:
  assumes "cs_subscriptions c = [(t, [p])]" and "is_order sord" and "holds s t p recs"
    and "position c t p \<le> length recs"
  shows "\<exists>offs s'. poll_times k sord conn n (c, s) = ((c\<lparr>cs_offsets := offs\<rparr>, s'),
             Ok (take (k * unat n) (drop (position c t p) recs))) \<and>
           position (c\<lparr>cs_offsets := offs\<rparr>) t p = min (length recs) (position c t p + k * unat n)"
  using assms
proof (induction k arbitrary: c s)
  case 0
  then show ?case by (intro exI [of _ "cs_offsets c"] exI [of _ s]) simp
next
  case (Suc k)
  let ?x = "position c t p"
  have "sord [(t, [p])] = [(t, [p])]"
    using order_mset [OF Suc.prems(2), of "[(t, [p])]"] by simp
  then have subs: "concat (map (\<lambda>(topic, ps). map (Pair topic) ps) (sord (cs_subscriptions c))) = [(t, p)]"
    using Suc.prems(1) by simp
  have "\<forall>(t, p) \<in> set [(t, p)]. holds s t p recs \<and> position c t p \<le> length recs" using Suc.prems(3,4) by simp
  then obtain o1 s1 where 1: "poll sord conn n (c, s) = ((c\<lparr>cs_offsets := o1\<rparr>, s1), Ok (take (unat n) (drop ?x recs)))"
      "position (c\<lparr>cs_offsets := o1\<rparr>) t p = min (length recs) (?x + unat n)" "holds s1 t p recs"
    by (rule poll_loop_reads [of "[(t, p)]" s "\<lambda>_ _. recs" c n, rotated])
      (use Suc.prems(3) subs in \<open>simp_all add: poll_def\<close>)
  let ?c1 = "c\<lparr>cs_offsets := o1\<rparr>"
  obtain o2 s2 where 2: "poll_times k sord conn n (?c1, s1) = ((?c1\<lparr>cs_offsets := o2\<rparr>, s2),
        Ok (take (k * unat n) (drop (position ?c1 t p) recs)))"
      "position (?c1\<lparr>cs_offsets := o2\<rparr>) t p = min (length recs) (position ?c1 t p + k * unat n)"
    using Suc.IH [of ?c1 s1] Suc.prems(1,2) 1(2,3) by auto
  have "take (unat n) (drop ?x recs) @ take (k * unat n) (drop (min (length recs) (?x + unat n)) recs) =
      take (Suc k * unat n) (drop ?x recs)"
    by (simp add: take_add min_def add.commute)
  then show ?case
    using 1(1,2) 2 by (intro exI [of _ o2] exI [of _ s2]) (simp add: min_def)
qed

end

section \<open>Members of a group\<close>

text \<open>What a group member relies on beside the log: the committed offsets and the joining of groups.\<close>

locale group_service = log_service conn holds admits
  for conn :: "'s connection" and holds admits +
  fixes committed :: "'s \<Rightarrow> string \<times> string \<times> u32 \<Rightarrow> u64"
  assumes commit_law:
    "\<exists>s'. conn (CommitOffset g t p off) s = (s', Received (CommitOffsetSuccess g t p off)) \<and>
       committed s' = (committed s)((g, t, p) := off) \<and> (\<forall>t' p' recs. holds s t' p' recs \<longrightarrow> holds s' t' p' recs)"
    and resume_law:
    "\<exists>s'. conn (FetchOffset g t p) s = (s', Received (FetchOffsetSuccess g t p (committed s (g, t, p)))) \<and>
       committed s' = committed s \<and> (\<forall>t' p' recs. holds s t' p' recs \<longrightarrow> holds s' t' p' recs)"
    and join_law:
    "\<exists>s' m asg. conn (JoinGroup g mid topics) s = (s', Received (JoinGroupSuccess g m asg)) \<and>
       committed s' = committed s \<and> (\<forall>t' p' recs. holds s t' p' recs \<longrightarrow> holds s' t' p' recs)"
begin

lemma commit_loop_commits:
  assumes "distinct (map fst os)"
  obtains s' where "commit_loop conn g os (c, s) = ((c, s'), Ok ())"
    and "\<forall>t p off. ((t, p), off) \<in> set os \<longrightarrow> committed s' (g, t, p) = off"
    and "\<forall>t p. (t, p) \<notin> fst ` set os \<longrightarrow> committed s' (g, t, p) = committed s (g, t, p)"
    and "\<forall>t p recs. holds s t p recs \<longrightarrow> holds s' t p recs"
  using assms
proof (induction os arbitrary: s thesis)
  case Nil
  show ?case by (rule Nil.prems(1) [of s]) simp_all
next
  case (Cons x os)
  obtain t p off where x: "x = ((t, p), off)" by (metis surj_pair)
  obtain s1 where s1: "conn (CommitOffset g t p off) s = (s1, Received (CommitOffsetSuccess g t p off))"
      "committed s1 = (committed s)((g, t, p) := off)" "\<forall>t' p' recs. holds s t' p' recs \<longrightarrow> holds s1 t' p' recs"
    using commit_law by metis
  have nin: "(t, p) \<notin> fst ` set os" "distinct (map fst os)" using Cons.prems(2) x by auto
  obtain s2 where s2: "commit_loop conn g os (c, s1) = ((c, s2), Ok ())"
      "\<forall>t p off. ((t, p), off) \<in> set os \<longrightarrow> committed s2 (g, t, p) = off"
      "\<forall>t p. (t, p) \<notin> fst ` set os \<longrightarrow> committed s2 (g, t, p) = committed s1 (g, t, p)"
      "\<forall>t p recs. holds s1 t p recs \<longrightarrow> holds s2 t p recs"
    by (rule Cons.IH [OF _ nin(2)])
  show ?case
  proof (rule Cons.prems(1) [of s2])
    show "commit_loop conn g (x # os) (c, s) = ((c, s2), Ok ())"
      using s1(1) s2(1) x by (simp add: ask_received [where conn = conn])
    show "\<forall>t p off. ((t, p), off) \<in> set (x # os) \<longrightarrow> committed s2 (g, t, p) = off"
      using s1(2) s2(2,3) nin(1) x by auto
    show "\<forall>t p. (t, p) \<notin> fst ` set (x # os) \<longrightarrow> committed s2 (g, t, p) = committed s (g, t, p)"
      using s1(2) s2(3) x by auto
    show "\<forall>t p recs. holds s t p recs \<longrightarrow> holds s2 t p recs" using s1(3) s2(4) by metis
  qed
qed

text \<open>What a poll with automatic commits returned is committed: the next reader goes on behind it.\<close>

lemma poll_group_commits:
  assumes "cs_group_id c = Some g" and "cs_auto_commit c" and "is_order oord" and "hm_ok (cs_offsets c)"
    and "distinct (map (\<lambda>a. (pa_topic a, pa_partition a)) (cs_assignments c))"
    and "\<forall>a \<in> set (cs_assignments c). holds s (pa_topic a) (pa_partition a) (recs (pa_topic a) (pa_partition a)) \<and>
           position c (pa_topic a) (pa_partition a) \<le> length (recs (pa_topic a) (pa_partition a))"
    and "got = concat (map (\<lambda>a. take (unat n) (drop (position c (pa_topic a) (pa_partition a))
           (recs (pa_topic a) (pa_partition a)))) (cs_assignments c))" and "got \<noteq> []"
  obtains offs s' where "poll_group oord conn n (c, s) = ((c\<lparr>cs_offsets := offs\<rparr>, s'), Ok got)"
    and "\<forall>a \<in> set (cs_assignments c). position (c\<lparr>cs_offsets := offs\<rparr>) (pa_topic a) (pa_partition a) =
           min (length (recs (pa_topic a) (pa_partition a))) (position c (pa_topic a) (pa_partition a) + unat n)"
    and "\<forall>t p off. hm_get offs (t, p) = Some off \<longrightarrow> committed s' (g, t, p) = off"
    and "\<forall>t p recs. holds s t p recs \<longrightarrow> holds s' t p recs"
proof -
  let ?tps = "map (\<lambda>a. (pa_topic a, pa_partition a)) (cs_assignments c)"
  have ready: "\<forall>(t, p) \<in> set ?tps. holds s t p (recs t p) \<and> position c t p \<le> length (recs t p)"
    using assms(6) by auto
  obtain offs s1 where p: "poll_loop conn n ?tps (c, s) = ((c\<lparr>cs_offsets := offs\<rparr>, s1),
        Ok (concat (map (\<lambda>(t, p). take (unat n) (drop (position c t p) (recs t p))) ?tps)))"
      "\<forall>(t, p) \<in> set ?tps. position (c\<lparr>cs_offsets := offs\<rparr>) t p =
         min (length (recs t p)) (position c t p + unat n)"
      "\<forall>t p. (t, p) \<notin> set ?tps \<longrightarrow> position (c\<lparr>cs_offsets := offs\<rparr>) t p = position c t p"
      "\<forall>t p recs'. holds s t p recs' \<longrightarrow> holds s1 t p recs'" "hm_ok (cs_offsets c) \<longrightarrow> hm_ok offs"
    by (rule poll_loop_reads [OF assms(5) ready])
  have "concat (map (\<lambda>(t, p). take (unat n) (drop (position c t p) (recs t p))) ?tps) = got"
    by (simp add: assms(7) o_def)
  note poll = p(1) [unfolded this]
  have "hm_ok offs" using p(5) assms(4) by blast
  note ord = hm_permuted [OF order_mset [OF assms(3)] this]
  obtain s2 where s2: "commit_loop conn g (oord offs) (c\<lparr>cs_offsets := offs\<rparr>, s1) = ((c\<lparr>cs_offsets := offs\<rparr>, s2), Ok ())"
      "\<forall>t p off. ((t, p), off) \<in> set (oord offs) \<longrightarrow> committed s2 (g, t, p) = off"
      "\<forall>t p. (t, p) \<notin> fst ` set (oord offs) \<longrightarrow> committed s2 (g, t, p) = committed s1 (g, t, p)"
      "\<forall>t p recs. holds s1 t p recs \<longrightarrow> holds s2 t p recs"
    by (rule commit_loop_commits [of "oord offs"]) (use ord(1) in \<open>simp_all add: hm_ok_def\<close>)
  have ne: "cs_assignments c \<noteq> []" using assms(7,8) by auto
  show thesis
  proof (rule that [of offs s2])
    show "poll_group oord conn n (c, s) = ((c\<lparr>cs_offsets := offs\<rparr>, s2), Ok got)"
      using ne poll assms(1,2,8) s2(1) by (simp add: poll_group_def commit_offsets_def)
    show "\<forall>a \<in> set (cs_assignments c). position (c\<lparr>cs_offsets := offs\<rparr>) (pa_topic a) (pa_partition a) =
        min (length (recs (pa_topic a) (pa_partition a))) (position c (pa_topic a) (pa_partition a) + unat n)"
      using p(2) by auto
    show "\<forall>t p off. hm_get offs (t, p) = Some off \<longrightarrow> committed s2 (g, t, p) = off"
      using s2(2) ord(2) hm_get_eq_Some [OF ord(1)] by simp
    show "\<forall>t p recs. holds s t p recs \<longrightarrow> holds s2 t p recs" using p(4) s2(4) by metis
  qed
qed

lemma init_offsets_resume:
  assumes "cs_group_id c = Some g"
  obtains offs s' where "init_offsets conn as (c, s) = ((c\<lparr>cs_offsets := offs\<rparr>, s'), Ok ())"
    and "\<forall>a \<in> set as. hm_get offs (pa_topic a, pa_partition a) = Some (committed s (g, pa_topic a, pa_partition a))"
    and "\<forall>k. k \<notin> (\<lambda>a. (pa_topic a, pa_partition a)) ` set as \<longrightarrow> hm_get offs k = hm_get (cs_offsets c) k"
    and "committed s' = committed s" and "\<forall>t p recs. holds s t p recs \<longrightarrow> holds s' t p recs"
  using assms
proof (induction as arbitrary: c s thesis)
  case Nil
  show ?case by (rule Nil.prems(1) [of "cs_offsets c" s]) simp_all
next
  case (Cons a as)
  let ?t = "pa_topic a" and ?p = "pa_partition a"
  obtain s1 where s1: "conn (FetchOffset g ?t ?p) s = (s1, Received (FetchOffsetSuccess g ?t ?p (committed s (g, ?t, ?p))))"
      "committed s1 = committed s" "\<forall>t' p' recs. holds s t' p' recs \<longrightarrow> holds s1 t' p' recs"
    using resume_law by metis
  let ?c1 = "c\<lparr>cs_offsets := hm_insert (?t, ?p) (committed s (g, ?t, ?p)) (cs_offsets c)\<rparr>"
  have g1: "cs_group_id ?c1 = Some g" using Cons.prems(2) by simp
  obtain o2 s2 where 2: "init_offsets conn as (?c1, s1) = ((?c1\<lparr>cs_offsets := o2\<rparr>, s2), Ok ())"
      "\<forall>a \<in> set as. hm_get o2 (pa_topic a, pa_partition a) = Some (committed s1 (g, pa_topic a, pa_partition a))"
      "\<forall>k. k \<notin> (\<lambda>a. (pa_topic a, pa_partition a)) ` set as \<longrightarrow> hm_get o2 k = hm_get (cs_offsets ?c1) k"
      "committed s2 = committed s1" "\<forall>t p recs. holds s1 t p recs \<longrightarrow> holds s2 t p recs"
    by (rule Cons.IH [OF _ g1])
  have first: "fetch_committed_offset conn ?t ?p (c, s) = ((c, s1), Ok (committed s (g, ?t, ?p)))"
    using s1(1) Cons.prems(2) by (simp add: fetch_committed_offset_def ask_received [where conn = conn])
  show ?case
  proof (rule Cons.prems(1) [of o2 s2])
    show "init_offsets conn (a # as) (c, s) = ((c\<lparr>cs_offsets := o2\<rparr>, s2), Ok ())"
      using first 2(1) by simp
    show "\<forall>x \<in> set (a # as). hm_get o2 (pa_topic x, pa_partition x) = Some (committed s (g, pa_topic x, pa_partition x))"
    proof
      fix x
      assume "x \<in> set (a # as)"
      then show "hm_get o2 (pa_topic x, pa_partition x) = Some (committed s (g, pa_topic x, pa_partition x))"
        using 2(2,3) s1(2) by (cases "(pa_topic x, pa_partition x) \<in> (\<lambda>a. (pa_topic a, pa_partition a)) ` set as")
          (auto simp: hashmap_simps)
    qed
    show "\<forall>k. k \<notin> (\<lambda>a. (pa_topic a, pa_partition a)) ` set (a # as) \<longrightarrow> hm_get o2 k = hm_get (cs_offsets c) k"
      using 2(3) by (auto simp: hashmap_simps)
    show "committed s2 = committed s" using 2(4) s1(2) by simp
    show "\<forall>t p recs. holds s t p recs \<longrightarrow> holds s2 t p recs" using s1(3) 2(5) by metis
  qed
qed

text \<open>Joining a group sets every assigned position to the committed one and starts a heartbeat task.\<close>

lemma join_resumes:
  assumes "cs_group_id c = Some g"
  obtains c' s' where "consumer_join_group conn topics (c, s) = ((c', s'), Ok ())"
    and "\<forall>a \<in> set (cs_assignments c'). get_offset c' (pa_topic a) (pa_partition a) =
           Some (committed s (g, pa_topic a, pa_partition a))"
    and "committed s' = committed s" and "\<forall>t p recs. holds s t p recs \<longrightarrow> holds s' t p recs"
    and "cs_heartbeat_task c' = Some (cs_next_task c)" and "cs_next_task c' = Suc (cs_next_task c)"
    and "cs_group_id c' = Some g"
    and "\<exists>m. cs_member_id c' = Some m \<and> cs_tasks c' = hm_insert (cs_next_task c) (g, m) (cs_tasks c)"
proof -
  obtain s1 m asg where j: "conn (JoinGroup g (cs_member_id c) topics) s = (s1, Received (JoinGroupSuccess g m asg))"
      "committed s1 = committed s" "\<forall>t' p' recs. holds s t' p' recs \<longrightarrow> holds s1 t' p' recs"
    using join_law by metis
  let ?c1 = "c\<lparr>cs_member_id := Some m, cs_assignments := asg\<rparr>"
  have g1: "cs_group_id ?c1 = Some g" using assms by simp
  obtain offs s2 where i: "init_offsets conn asg (?c1, s1) = ((?c1\<lparr>cs_offsets := offs\<rparr>, s2), Ok ())"
      "\<forall>a \<in> set asg. hm_get offs (pa_topic a, pa_partition a) = Some (committed s1 (g, pa_topic a, pa_partition a))"
      "\<forall>k. k \<notin> (\<lambda>a. (pa_topic a, pa_partition a)) ` set asg \<longrightarrow> hm_get offs k = hm_get (cs_offsets ?c1) k"
      "committed s2 = committed s1" "\<forall>t p recs. holds s1 t p recs \<longrightarrow> holds s2 t p recs"
    by (rule init_offsets_resume [OF g1])
  let ?c2 = "?c1\<lparr>cs_offsets := offs, cs_heartbeat_task := Some (cs_next_task c),
      cs_tasks := hm_insert (cs_next_task c) (g, m) (cs_tasks c), cs_next_task := Suc (cs_next_task c)\<rparr>"
  have "consumer_join_group conn topics (c, s) = ((?c2, s2), Ok ())"
    using assms j(1) i(1)
    by (simp add: consumer_join_group_def ask_received [where conn = conn] start_heartbeat_task_def)
  then show thesis
    using assms i j by (intro that [of ?c2 s2]) (simp_all add: get_offset_def)
qed

end

end
