(* ===== verification/Broker_Link.thy ===== *)
theory Broker_Link
  imports Server Producer Consumer
begin

text \<open>
  The clients on the broker: a connection whose requests the broker handles one after the other
  and answers. A handler that panics ends its task and with it the connection. The broker keeps the
  contracts that the clients rely on, so that what the clients' locales prove holds of the real
  handlers.
\<close>

text \<open>\<open>es i\<close> is the environment of the \<open>i\<close>-th request.\<close>

definition broker_link :: "codecs \<Rightarrow> (nat \<Rightarrow> environment) \<Rightarrow> (nat \<times> broker) connection" where
  "broker_link C es req st =
     (case st of (i, b) \<Rightarrow>
        (case process_request C (es i) req b of
           (b', Ok resp) \<Rightarrow> ((Suc i, b'), Received resp)
         | (b', _) \<Rightarrow> ((Suc i, b'), Closed)))"

definition broker_holds :: "codecs \<Rightarrow> nat \<times> broker \<Rightarrow> string \<Rightarrow> u32 \<Rightarrow> stored_record list \<Rightarrow> bool" where
  "broker_holds C st t p recs \<longleftrightarrow>
     (\<exists>part. find_partition (br_topics (snd st)) t p = Ok part \<and> part_log C part recs)"

definition broker_admits :: "codecs \<Rightarrow> nat \<times> broker \<Rightarrow> string \<Rightarrow> u32 \<Rightarrow> message list \<Rightarrow> bool" where
  "broker_admits C st t p ms \<longleftrightarrow>
     (\<exists>part. find_partition (br_topics (snd st)) t p = Ok part \<and> part_accepts C part ms)"

definition broker_committed :: "nat \<times> broker \<Rightarrow> string \<times> string \<times> u32 \<Rightarrow> u64" where
  "broker_committed st k =
     (case hm_get (om_offsets (br_offsets (snd st))) k of Some off \<Rightarrow> off | None \<Rightarrow> 0)"

lemma broker_holds_topics: "br_topics (snd st') = br_topics (snd st) \<Longrightarrow> broker_holds C st' = broker_holds C st"
  by (simp add: broker_holds_def fun_eq_iff)

lemma broker_committed_offsets: "br_offsets (snd st') = br_offsets (snd st) \<Longrightarrow> broker_committed st' = broker_committed st"
  by (simp add: broker_committed_def fun_eq_iff)

lemma link_produce:
  assumes "broker_holds C st t p recs" and "broker_admits C st t p ms"
  shows "\<exists>st' new. broker_link C es (Produce t p ms) st =
           (st', Received (ProduceSuccess t p (of_nat (length recs)) (of_nat (length ms)))) \<and>
         map rec_message new = ms \<and> broker_holds C st' t p (recs @ new) \<and>
         (\<forall>t' p' recs'. (t', p') \<noteq> (t, p) \<longrightarrow> broker_holds C st t' p' recs' \<longrightarrow> broker_holds C st' t' p' recs') \<and>
         (\<forall>t' p' ms'. (t', p') \<noteq> (t, p) \<longrightarrow> broker_admits C st t' p' ms' \<longrightarrow> broker_admits C st' t' p' ms')"
proof -
  obtain i b where st: "st = (i, b)" by (cases st)
  obtain part where part: "find_partition (br_topics b) t p = Ok part" "part_log C part recs" "part_accepts C part ms"
    using assms st by (auto simp: broker_holds_def broker_admits_def)
  obtain b' part' new where b': "process_request C (es i) (Produce t p ms) b =
        (b', Ok (ProduceSuccess t p (of_nat (length recs)) (of_nat (length ms))))"
      "find_partition (br_topics b') t p = Ok part'" "part_log C part' (recs @ new)" "map rec_message new = ms"
      "\<And>t' q. (t', q) \<noteq> (t, p) \<Longrightarrow> find_partition (br_topics b') t' q = find_partition (br_topics b) t' q"
    using produce_ok [OF part, of "es i"] by metis
  then show ?thesis
    using st by (intro exI [of _ "(Suc i, b')"] exI [of _ new])
      (auto simp: broker_link_def broker_holds_def broker_admits_def simp del: process_request.simps)
qed

lemma link_fetch:
  assumes "broker_holds C st t p recs"
  shows "\<exists>st'. broker_link C es (Fetch t p off n) st =
           (st', Received (FetchSuccess t p (take (unat n) (drop (unat off) recs)))) \<and>
         (\<forall>t' p' recs'. broker_holds C st t' p' recs' \<longrightarrow> broker_holds C st' t' p' recs')"
proof -
  obtain i b where st: "st = (i, b)" by (cases st)
  obtain part where part: "find_partition (br_topics b) t p = Ok part" "part_log C part recs"
    using assms st by (auto simp: broker_holds_def)
  then have "broker_link C es (Fetch t p off n) st =
      ((Suc i, b), Received (FetchSuccess t p (take (unat n) (drop (unat off) recs))))"
    using st by (simp add: broker_link_def handle_fetch_def tm_fetch_find part_log_fetch)
  then show ?thesis using st by (auto simp: broker_holds_def)
qed

interpretation linked: group_service "broker_link C es" "broker_holds C" "broker_admits C" broker_committed for C es
proof
  fix st t p recs off n ms i g mid topics
  show "\<exists>st'. broker_link C es (Fetch t p off n) st =
          (st', Received (FetchSuccess t p (take (unat n) (drop (unat off) recs)))) \<and>
        (\<forall>t' p' recs'. broker_holds C st t' p' recs' \<longrightarrow> broker_holds C st' t' p' recs')"
    if "broker_holds C st t p recs"
    using that by (rule link_fetch)
  show "\<exists>st' new. broker_link C es (Produce t p ms) st =
          (st', Received (ProduceSuccess t p (of_nat (length recs)) (of_nat (length ms)))) \<and>
        map rec_message new = ms \<and> broker_holds C st' t p (recs @ new) \<and>
        (\<forall>t' p' recs'. (t', p') \<noteq> (t, p) \<longrightarrow> broker_holds C st t' p' recs' \<longrightarrow> broker_holds C st' t' p' recs') \<and>
        (\<forall>t' p' ms'. (t', p') \<noteq> (t, p) \<longrightarrow> broker_admits C st t' p' ms' \<longrightarrow> broker_admits C st' t' p' ms')"
    if "broker_holds C st t p recs" and "broker_admits C st t p ms"
    using that by (rule link_produce)
  show "rec_offset (recs ! i) = of_nat i" if "broker_holds C st t p recs" and "i < length recs"
    using that part_log_offset by (auto simp: broker_holds_def)
  show "length recs < 2 ^ 64" if "broker_holds C st t p recs"
    using that part_log_length by (auto simp: broker_holds_def)
  show "\<exists>st'. broker_link C es (CommitOffset g t p off) st = (st', Received (CommitOffsetSuccess g t p off)) \<and>
      broker_committed st' = (broker_committed st)((g, t, p) := off) \<and>
      (\<forall>t' p' recs. broker_holds C st t' p' recs \<longrightarrow> broker_holds C st' t' p' recs)"
    by (cases st) (auto simp: broker_link_def handle_commit_offset_def om_commit_offset_def persist_group_def
        broker_committed_def broker_holds_def fun_eq_iff hashmap_simps)
  show "\<exists>st'. broker_link C es (FetchOffset g t p) st =
        (st', Received (FetchOffsetSuccess g t p (broker_committed st (g, t, p)))) \<and>
      broker_committed st' = broker_committed st \<and>
      (\<forall>t' p' recs. broker_holds C st t' p' recs \<longrightarrow> broker_holds C st' t' p' recs)"
    by (cases st) (auto simp: broker_link_def handle_fetch_offset_def om_fetch_offset_def broker_committed_def
        broker_holds_def fun_eq_iff split: option.split)
  show "\<exists>st' m asg. broker_link C es (JoinGroup g mid topics) st = (st', Received (JoinGroupSuccess g m asg)) \<and>
      broker_committed st' = broker_committed st \<and>
      (\<forall>t' p' recs. broker_holds C st t' p' recs \<longrightarrow> broker_holds C st' t' p' recs)"
    by (cases st) (auto simp: broker_link_def handle_join_group_def join_group_def Let_def broker_committed_def
        broker_holds_def fun_eq_iff)
qed

interpretation rr_delivery: delivery "broker_link C es" "broker_holds C" "broker_admits C"
    round_robin_partition "\<lambda>n s. True" for C es
  by unfold_locales

interpretation key_delivery: delivery "broker_link C es" "broker_holds C" "broker_admits C"
    "key_hash_partition H" "\<lambda>n s. True" for C es H
  by unfold_locales

interpretation sticky_delivery: delivery "broker_link C es" "broker_holds C" "broker_admits C"
    sticky_partition sticky_usable for C es
  by unfold_locales

end
