(* ===== verification/Client_Properties.thy ===== *)
theory Client_Properties
  imports Broker_Link Log_Properties Broker_Properties
begin

text \<open>
  The properties of the clients, on a connection to the broker: what a producer sends is in the log
  of the chosen partitions, and what a consumer polls is what is in the log.
\<close>

section \<open>Concrete data\<close>

text \<open>The broker of the samples with a topic of two partitions.\<close>

definition topic_broker :: broker where
  "topic_broker = fst (process_request demo_codecs sample_env (CreateTopic ''t'' 2) sample_broker)"

lemma topic_broker_find:
  assumes "q < 2"
  shows "find_partition (br_topics topic_broker) ''t'' q =
           Ok (partition_new ''t'' q (cfg_data_dir broker_config_default) [])"
proof -
  have fresh: "hm_get (tm_topics (br_topics sample_broker)) ''t'' = None"
      "hm_get (tm_disk (br_topics sample_broker)) ''t'' = None"
      "tm_data_dir (br_topics sample_broker) = cfg_data_dir broker_config_default"
    by (simp_all add: sample_broker_def tm_new_def)
  show ?thesis
  proof (rule create_topic_find [OF fresh(1), of 2])
    fix tm t
    assume "create_topic ''t'' 2 (br_topics sample_broker) = (tm, Ok t)"
    then have "br_topics topic_broker = tm"
      by (simp add: topic_broker_def handle_create_topic_def split: outcome.split)
    moreover assume "\<And>q. q < 2 \<Longrightarrow> find_partition tm ''t'' q =
        Ok (partition_new ''t'' q (tm_data_dir (br_topics sample_broker))
          (dir_of (case hm_get (tm_disk (br_topics sample_broker)) ''t'' of None \<Rightarrow> [] | Some dirs \<Rightarrow> dirs) q))"
    ultimately show ?thesis using assms fresh(2,3) by (simp add: dir_of_def)
  qed
qed

lemma topic_broker_holds:
  assumes "q < 2"
  shows "broker_holds demo_codecs (i, topic_broker) ''t'' q []"
proof -
  have "part_log demo_codecs (partition_new ''t'' q d []) []" for d
    using sample_new_rep demo_codecs_ok unfolding part_log_def
    by (intro conjI exI [of _ "[[]]"]) simp_all
  then show ?thesis using topic_broker_find [OF assms] by (auto simp: broker_holds_def)
qed

lemma topic_broker_admits:
  assumes "q < 2" and "ms \<noteq> []" and "list_all small_message ms" and "length ms < 2 ^ 64" and "batch_bytes ms < 2 ^ 64"
  shows "broker_admits demo_codecs (i, topic_broker) ''t'' q ms"
proof -
  have "part_accepts demo_codecs (partition_new ''t'' q d []) ms" for d
    using assms(2-5)
    by (intro part_accepts_plain [OF sample_new_rep(1,2)])
      (simp_all add: partition_new_def partition_with_config_def segment_config_default_def)
  then show ?thesis using topic_broker_find [OF assms(1)] by (auto simp: broker_admits_def)
qed

definition sample_producer :: "'p \<Rightarrow> 'p producer" where
  "sample_producer part = \<lparr>pr_partitioner = part, pr_metadata_cache = [(''t'', 2)]\<rparr>"

lemma sample_batch_admitted:
  assumes "q < 2" and "ms' \<noteq> []" and "set ms' \<subseteq> {sample_message}" and "length ms' \<le> 4"
  shows "broker_admits demo_codecs (i, topic_broker) ''t'' q ms'"
proof -
  have "list_all small_message ms'" using assms(3) sample_small by (auto simp: list_all_iff)
  moreover have "batch_bytes ms' = 38 * length ms'"
    using assms(3) by (induction ms') (auto simp: batch_bytes_def sample_message_def)
  ultimately show ?thesis using assms by (intro topic_broker_admits) simp_all
qed

section \<open>Producing\<close>

lemma routed_to_nth:
  assumes "length rs = length ms"
  shows "routed_to ms rs q = map ((!) ms) (filter (\<lambda>i. rs ! i = Ok q) [0..<length ms])"
  using assms
proof (induction ms arbitrary: rs)
  case (Cons m ms)
  obtain r rs' where rs: "rs = r # rs'" "length rs' = length ms" using Cons.prems by (cases rs) auto
  have "[0..<length (m # ms)] = 0 # map Suc [0..<length ms]"
    by (simp add: map_Suc_upt upt_conv_Cons del: upt_Suc)
  then show ?case using Cons.IH [OF rs(2)] rs(1) by (simp add: filter_map o_def del: upt_Suc)
qed simp



lemma route_all_key_hash:
  "route_all (key_hash_partition H) n u ks = (u, map (\<lambda>k. snd (key_hash_partition H () k n)) ks)"
  by (induction ks arbitrary: u) (auto split: prod.split)

lemma routed_to_map: "routed_to ms (map (\<lambda>m. r (msg_key m)) ms) q = filter (\<lambda>m. r (msg_key m) = Ok q) ms"
  by (induction ms) auto

text \<open>
  A producer with the key-hash partitioner: all messages of a batch with the same non-empty key
  are appended to the partition of that key's hash, in the order of the batch, and to no other
  partition of the topic.
\<close>

theorem producer_keys_in_order:
  assumes "hm_get (pr_metadata_cache pr) t = Some n" and "0 < n" and "is_order bord"
    and "\<forall>q<n. broker_holds C st t q (recs q)"
    and "\<forall>q<n. \<forall>ms'. ms' \<noteq> [] \<longrightarrow> set ms' \<subseteq> set ms \<longrightarrow> length ms' \<le> length ms \<longrightarrow>
           broker_admits C st t q ms'"
    and "k \<noteq> []" and "q < n"
  shows "\<exists>pr' st' base new. send_batch_auto bord (key_hash_partition H) (broker_link C es) t ms (pr, st) =
             ((pr', st'), Ok base) \<and>
           broker_holds C st' t q (recs q @ new) \<and>
           filter (\<lambda>m. msg_key m = Some k) (map rec_message new) =
             (if q = hash_bytes H k mod n then filter (\<lambda>m. msg_key m = Some k) ms else [])"
proof -
  let ?r = "\<lambda>k. snd (key_hash_partition H () k n)"
  let ?rs = "map (\<lambda>m. ?r (msg_key m)) ms"
  have "route_all (key_hash_partition H) n (pr_partitioner pr) (map msg_key ms) = (pr_partitioner pr, ?rs)"
    by (simp add: route_all_key_hash o_def)
  from key_delivery.send_batch_auto_delivers [OF assms(1,2) TrueI assms(3-5) this, where es = es]
  obtain st' base new where sent:
      "send_batch_auto bord (key_hash_partition H) (broker_link C es) t ms (pr, st) =
         ((pr\<lparr>pr_partitioner := pr_partitioner pr\<rparr>, st'), Ok base)"
      "\<forall>q<n. map rec_message (new q) = routed_to ms ?rs q \<and> broker_holds C st' t q (recs q @ new q)"
    by (elim exE conjE)
  have "map rec_message (new q) = filter (\<lambda>m. ?r (msg_key m) = Ok q) ms"
    using sent(2) assms(7) routed_to_map [where r = ?r] by simp
  moreover have "?r (Some k) = Ok (hash_bytes H k mod n)"
    using assms(2,6) by (auto simp: key_hash_partition_def)
  ultimately have "filter (\<lambda>m. msg_key m = Some k) (map rec_message (new q)) =
      (if q = hash_bytes H k mod n then filter (\<lambda>m. msg_key m = Some k) ms else [])"
    by (auto intro: filter_cong simp: filter_empty_conv)
  then show ?thesis using sent assms(7) by blast
qed

theorem producer_keys_in_order_witness:
  "\<exists>pr' st' base new. send_batch_auto rev (key_hash_partition (\<lambda>_. 1))
       (broker_link demo_codecs (\<lambda>_. sample_env)) ''t''
       [sample_message, sample_message] (sample_producer (), (0, topic_broker)) = ((pr', st'), Ok base) \<and>
     broker_holds demo_codecs st' ''t'' 1 new \<and>
     filter (\<lambda>m. msg_key m = Some [1, 2]) (map rec_message new) = [sample_message, sample_message]"
proof -
  let ?ms = "[sample_message, sample_message]"
  have adm: "\<forall>q<2. \<forall>ms'. ms' \<noteq> [] \<longrightarrow> set ms' \<subseteq> set ?ms \<longrightarrow> length ms' \<le> length ?ms \<longrightarrow>
      broker_admits demo_codecs (0, topic_broker) ''t'' q ms'"
    by (intro allI impI sample_batch_admitted) auto
  have logs: "\<forall>q<2. broker_holds demo_codecs (0, topic_broker) ''t'' q []"
    using topic_broker_holds by blast
  have pr: "hm_get (pr_metadata_cache (sample_producer ())) ''t'' = Some 2"
    by (simp add: sample_producer_def)
  have two: "(0::u32) < 2" "(1::u32) < 2" "[1 :: u8, 2] \<noteq> []" by simp_all
  from producer_keys_in_order [OF pr two(1) is_order_rev logs adm two(3,2), of "\<lambda>_. 1" "\<lambda>_. sample_env"]
  show ?thesis by (simp add: hash_bytes_def sample_message_def)
qed

section \<open>Consuming\<close>


text \<open>A broker whose topic has records, and a consumer of the topic's first partition.\<close>

lemma filled_broker:
  obtains st recs where "broker_holds demo_codecs st ''t'' 0 recs" and "length recs = 3"
proof -
  let ?ms = "[sample_message, sample_message, sample_message]"
  have "broker_holds demo_codecs (0, topic_broker) ''t'' 0 []"
    "broker_admits demo_codecs (0, topic_broker) ''t'' 0 ?ms"
    using topic_broker_holds [of 0] sample_batch_admitted [of 0 ?ms] by simp_all
  from link_produce [OF this, of "\<lambda>_. sample_env"] obtain st' new
    where "map rec_message new = ?ms" "broker_holds demo_codecs st' ''t'' 0 ([] @ new)"
    by (elim exE conjE)
  then show thesis using that [of st' new] by (auto dest: arg_cong [where f = length])
qed

definition sample_consumer :: consumer where
  "sample_consumer =
     \<lparr>cs_subscriptions = [(''t'', [0])], cs_offsets = [], cs_group_id = Some ''g'', cs_member_id = None,
      cs_assignments = [\<lparr>pa_topic = ''t'', pa_partition = 0\<rparr>], cs_auto_commit = True,
      cs_auto_commit_interval = 5000, cs_heartbeat_task = None, cs_tasks = [], cs_next_task = 0\<rparr>"

lemma sample_position: "position sample_consumer t p = 0"
  by (simp add: position_def sample_consumer_def)




text \<open>
  A poll that fails in one partition loses what it has fetched from the partitions before: the
  call returns the error alone, but the position has moved behind the records that were fetched.
\<close>

theorem poll_error_drops_records:
  assumes "cs_subscriptions c = [(t, [p, q])]" and "is_order sord" and "p \<noteq> q"
    and "hm_get (cs_offsets c) (t, p) = Some off" and "hm_get (cs_offsets c) (t, q) = Some off'"
    and "conn (Fetch t p off n) s = (s1, Received (FetchSuccess t p recs))" and "recs \<noteq> []"
    and "conn (Fetch t q off' n) s1 = (s2, Closed)"
  shows "\<exists>c'. poll sord conn n (c, s) = ((c', s2), Err (Connection ''Connection closed'')) \<and>
           get_offset c' t p = Some (rec_offset (last recs) + 1) \<and> get_offset c' t q = Some off'"
proof -
  have "sord [(t, [p, q])] = [(t, [p, q])]"
    using order_mset [OF assms(2), of "[(t, [p, q])]"] by simp
  moreover have "ask conn (Fetch t p off n) (c, s) = ((c, s1), Ok (FetchSuccess t p recs))"
    using assms(6) by (rule ask_received)
  moreover have "ask conn (Fetch t q off' n) (c', s1) = ((c', s2), Err (Connection ''Connection closed''))" for c' :: consumer
    using assms(8) by (simp add: ask_def call_def)
  ultimately show ?thesis
    using assms(1,3-5,7)
    by (simp add: poll_def poll_partition_def consumer_fetch_def hashmap_simps get_offset_def run_then_def)
qed

definition sample_stored :: stored_record where
  "sample_stored = \<lparr>rec_topic = ''t'', rec_partition = 0, rec_offset = 5, rec_message = sample_message\<rparr>"

theorem poll_error_drops_records_witness:
  "\<exists>c'. poll rev (\<lambda>req (k::nat). (Suc k, if k = 0 then Received (FetchSuccess ''t'' 0
         [sample_stored]) else Closed)) 10
       (sample_consumer\<lparr>cs_subscriptions := [(''t'', [0, 1])], cs_offsets := [((''t'', 0), 5), ((''t'', 1), 0)]\<rparr>, 0) =
     ((c', 2), Err (Connection ''Connection closed'')) \<and> get_offset c' ''t'' 0 = Some 6"
proof -
  let ?conn = "\<lambda>req (k::nat). (Suc k, if k = 0 then Received (FetchSuccess ''t'' 0
      [sample_stored]) else Closed)"
  let ?c = "sample_consumer\<lparr>cs_subscriptions := [(''t'', [0, 1])], cs_offsets := [((''t'', 0), 5), ((''t'', 1), 0)]\<rparr>"
  show ?thesis
    using poll_error_drops_records [of ?c "''t''" 0 1 rev 5 0 ?conn 10 0 1
        "[sample_stored]" 2]
    by (auto simp: is_order_rev numeral_2_eq_2 sample_stored_def)
qed

text \<open>
  A consumer that joins its group a second time, to get new assignments, starts a second
  heartbeat task and loses the handle of the first: the first one runs on when the consumer is
  dropped, and goes on sending heartbeats for its member.
\<close>

theorem rejoin_leaks_heartbeat:
  assumes "cs_group_id c = Some g"
  shows "\<exists>c1 st1 c2 st2 m. consumer_join_group (broker_link C es) topics (c, st) = ((c1, st1), Ok ()) \<and>
           consumer_join_group (broker_link C es) topics' (c1, st1) = ((c2, st2), Ok ()) \<and>
           cs_member_id c1 = Some m \<and> hm_get (consumer_drop c2) (cs_next_task c) = Some (g, m)"
proof (rule linked.join_resumes [OF assms, where s = st and C = C and es = es and topics = topics])
  fix c1 st1
  assume 1: "consumer_join_group (broker_link C es) topics (c, st) = ((c1, st1), Ok ())"
    "cs_next_task c1 = Suc (cs_next_task c)" "cs_group_id c1 = Some g"
    "\<exists>m. cs_member_id c1 = Some m \<and> cs_tasks c1 = hm_insert (cs_next_task c) (g, m) (cs_tasks c)"
  show ?thesis
  proof (rule linked.join_resumes [OF 1(3), where s = st1 and C = C and es = es and topics = topics'])
    fix c2 st2
    assume 2: "consumer_join_group (broker_link C es) topics' (c1, st1) = ((c2, st2), Ok ())"
      "cs_heartbeat_task c2 = Some (cs_next_task c1)"
      "\<exists>m. cs_member_id c2 = Some m \<and> cs_tasks c2 = hm_insert (cs_next_task c1) (g, m) (cs_tasks c1)"
    then show ?thesis
      using 1 by (auto simp: consumer_drop_def abort_task_def hashmap_simps)
  qed
qed

theorem rejoin_leaks_heartbeat_witness:
  "\<exists>c1 st1 c2 st2 m.
     consumer_join_group (broker_link demo_codecs (\<lambda>_. sample_env)) [''t''] (sample_consumer, (0, sample_broker)) =
       ((c1, st1), Ok ()) \<and>
     consumer_join_group (broker_link demo_codecs (\<lambda>_. sample_env)) [''t''] (c1, st1) = ((c2, st2), Ok ()) \<and>
     cs_member_id c1 = Some m \<and> hm_get (consumer_drop c2) 0 = Some (''g'', m)"
  using rejoin_leaks_heartbeat [of sample_consumer "''g''" demo_codecs "\<lambda>_. sample_env" "[''t'']" "(0, sample_broker)" "[''t'']"]
  by (simp add: sample_consumer_def)

end
