(* ===== verification/Broker_Runs.thy ===== *)
theory Broker_Runs
  imports Server
begin

text \<open>
  A broker in use: requests that arrive on any number of connections, in the order in which the
  broker handles them, with the turns of its two periodic tasks in between. Whatever happens
  besides, a partition sees exactly the batches that are produced to it.
\<close>

datatype event =
    Handle environment request
  | GroupTick environment
  | HealthTick environment

definition handle_event :: "codecs \<Rightarrow> event \<Rightarrow> broker \<Rightarrow> broker \<times> (request \<times> response outcome) list" where
  "handle_event C ev b =
     (case ev of
        Handle e req \<Rightarrow> (let (b', r) = process_request C e req b in (b', [(req, r)]))
      | GroupTick e \<Rightarrow> (tick_groups e b, [])
      | HealthTick e \<Rightarrow> (tick_health e b, []))"

fun run_events :: "codecs \<Rightarrow> event list \<Rightarrow> broker \<Rightarrow> broker \<times> (request \<times> response outcome) list" where
  "run_events C [] b = (b, [])"
| "run_events C (ev # evs) b =
     (let (b1, rs) = handle_event C ev b; (b2, rest) = run_events C evs b1 in (b2, rs @ rest))"

text \<open>The batches that the run produces to a partition, and the answers to them.\<close>

fun produced :: "string \<Rightarrow> u32 \<Rightarrow> event list \<Rightarrow> message list list" where
  "produced t q [] = []"
| "produced t q (Handle e (Produce t' q' ms) # evs) = (if t' = t \<and> q' = q then [ms] else []) @ produced t q evs"
| "produced t q (ev # evs) = produced t q evs"

fun acks_of :: "string \<Rightarrow> u32 \<Rightarrow> (request \<times> response outcome) list \<Rightarrow> response outcome list" where
  "acks_of t q [] = []"
| "acks_of t q ((Produce t' q' ms, r) # rs) = (if t' = t \<and> q' = q then [r] else []) @ acks_of t q rs"
| "acks_of t q (_ # rs) = acks_of t q rs"

lemma acks_of_append [simp]: "acks_of t q (rs @ rs') = acks_of t q rs @ acks_of t q rs'"
  by (induction rs rule: acks_of.induct) simp_all

definition is_produce :: "string \<Rightarrow> u32 \<Rightarrow> event \<Rightarrow> bool" where
  "is_produce t q ev = (case ev of Handle _ (Produce t' q' _) \<Rightarrow> t' = t \<and> q' = q | _ \<Rightarrow> False)"

lemma produced_other: "\<not> is_produce t q ev \<Longrightarrow> produced t q (ev # evs) = produced t q evs"
  by (cases "(t, q, ev # evs)" rule: produced.cases) (auto simp: is_produce_def)

lemma acks_other: "\<not> is_produce t q ev \<Longrightarrow> acks_of t q (snd (handle_event C ev b)) = []"
  by (auto simp: is_produce_def handle_event_def split: event.splits request.splits prod.splits)

lemma is_produceE:
  assumes "is_produce t q ev"
  obtains e ms where "ev = Handle e (Produce t q ms)"
  using assms by (auto simp: is_produce_def split: event.splits request.splits)

section \<open>Isolation in a run\<close>

lemma create_topic_keeps:
  assumes "find_partition tm t q = Ok part"
  shows "find_partition (fst (create_topic name n tm)) t q = Ok part"
proof (cases "hm_get (tm_topics tm) name")
  case None
  obtain tm' to where c: "create_topic name n tm = (tm', Ok to)"
      "\<And>name' q. name' \<noteq> name \<Longrightarrow> find_partition tm' name' q = find_partition tm name' q"
    by (rule create_topic_find [OF None, of n]) (rule that)
  have "t \<noteq> name" using assms None by (auto simp: find_partition_def get_topic_def outcome_simps)
  then show ?thesis using c assms by simp
qed (simp add: create_topic_def assms)

lemma tm_append_keeps:
  assumes "find_partition tm t q = Ok part" and "(t', q') \<noteq> (t, q)"
  shows "find_partition (fst (tm_append C t' q' ms tm)) t q = Ok part"
proof (cases "\<exists>p. find_partition tm t' q' = Ok p")
  case True
  then obtain p where p: "find_partition tm t' q' = Ok p" by blast
  obtain tm' where "tm_append C t' q' ms tm = (tm', snd (partition_append C ms p))"
      "\<And>name q. find_partition tm' name q =
         (if name = t' \<and> q = q' then Ok (fst (partition_append C ms p)) else find_partition tm name q)"
    by (rule tm_append_find [OF p surjective_pairing [of "partition_append C ms p"]]) (rule that)
  then show ?thesis using assms by auto
next
  case False
  show ?thesis
  proof (cases "hm_get (tm_topics tm) t'")
    case None
    then show ?thesis using assms by (simp add: tm_append_def get_topic_def)
  next
    case (Some to)
    then have "length (t_partitions to) \<le> unat q'"
      using False by (auto simp: find_partition_def get_topic_def get_partition_def split: if_splits)
    from topic_append_missing [OF this, of C ms] show ?thesis
      using assms Some by (auto simp: tm_append_def get_topic_def put_topic_def find_partition_def hashmap_simps)
  qed
qed

lemma event_keeps:
  assumes "find_partition (br_topics b) t q = Ok part" and "\<not> is_produce t q ev"
  shows "find_partition (br_topics (fst (handle_event C ev b))) t q = Ok part"
proof (cases ev)
  case (Handle e req)
  have "find_partition (br_topics (fst (process_request C e req b))) t q = Ok part"
  proof (cases req)
    case (CreateTopic name n)
    then show ?thesis using create_topic_keeps [OF assms(1), of name n]
      by (auto simp: handle_create_topic_def split: prod.split outcome.split)
  next
    case (Produce t' q' ms)
    then have "(t', q') \<noteq> (t, q)" using assms(2) Handle by (simp add: is_produce_def)
    from tm_append_keeps [OF assms(1) this, of C ms] show ?thesis
      using Produce by (auto simp: handle_produce_def Let_def split: prod.split outcome.split)
  qed (use assms(1) in \<open>simp_all add: handle_join_group_def handle_leave_group_def handle_heartbeat_def
      handle_commit_offset_def handle_register_broker_def Let_def split: prod.split outcome.split\<close>)
  then show ?thesis using Handle by (simp add: handle_event_def case_prod_beta Let_def)
qed (use assms(1) in \<open>simp_all add: handle_event_def tick_groups_def tick_health_def\<close>)

section \<open>The history of a partition\<close>

lemma run_events_log:
  assumes "find_partition (br_topics b) t q = Ok part" and "part_log C part recs"
    and "accepted (partition_append C) (part_accepts C) (produced t q evs) part"
  shows "\<exists>b' rs part' new. run_events C evs b = (b', rs) \<and>
           find_partition (br_topics b') t q = Ok part' \<and> part_log C part' (recs @ new) \<and>
           part' = fst (append_all (partition_append C) (produced t q evs) part) \<and>
           map rec_message new = concat (produced t q evs) \<and>
           acks_of t q rs = map (\<lambda>k. Ok (ProduceSuccess t q
             (of_nat (length recs + length (concat (take k (produced t q evs)))))
             (of_nat (length (produced t q evs ! k))))) [0..<length (produced t q evs)]"
  using assms
proof (induction evs arbitrary: b part recs)
  case Nil
  then show ?case by (intro exI [of _ b] exI [of _ "[]"] exI [of _ part]) simp
next
  case (Cons ev evs)
  show ?case
  proof (cases "is_produce t q ev")
    case True
    then obtain e ms where ev: "ev = Handle e (Produce t q ms)" by (rule is_produceE)
    then have acc: "part_accepts C part ms"
        "accepted (partition_append C) (part_accepts C) (produced t q evs) (fst (partition_append C ms part))"
      using Cons.prems(3) by simp_all
    obtain b1 part1 new1 where 1: "process_request C e (Produce t q ms) b =
          (b1, Ok (ProduceSuccess t q (of_nat (length recs)) (of_nat (length ms))))"
        "find_partition (br_topics b1) t q = Ok part1" "part_log C part1 (recs @ new1)"
        "map rec_message new1 = ms" "part1 = fst (partition_append C ms part)"
      by (rule produce_ok [OF Cons.prems(1,2) acc(1)]) (rule that)
    then have ack: "handle_event C ev b =
        (b1, [(Produce t q ms, Ok (ProduceSuccess t q (of_nat (length recs)) (of_nat (length ms))))])"
      by (simp add: handle_event_def ev del: process_request.simps)
    obtain b2 rs part2 new2 where 2: "run_events C evs b1 = (b2, rs)"
        "find_partition (br_topics b2) t q = Ok part2" "part_log C part2 ((recs @ new1) @ new2)"
        "part2 = fst (append_all (partition_append C) (produced t q evs) part1)"
        "map rec_message new2 = concat (produced t q evs)"
        "acks_of t q rs = map (\<lambda>k. Ok (ProduceSuccess t q
           (of_nat (length (recs @ new1) + length (concat (take k (produced t q evs)))))
           (of_nat (length (produced t q evs ! k))))) [0..<length (produced t q evs)]"
      using Cons.IH [OF 1(2,3)] acc(2) 1(5) by blast
    have len: "length new1 = length ms" using 1(4) by (metis length_map)
    have prod: "produced t q (ev # evs) = ms # produced t q evs" by (simp add: ev)
    have split: "[0..<length (ms # produced t q evs)] = 0 # map Suc [0..<length (produced t q evs)]"
      by (simp add: map_Suc_upt upt_conv_Cons del: upt_Suc)
    show ?thesis
      unfolding prod split using ack 1(1,4,5) 2 len
      by (intro exI [of _ b2] exI [of _ "(Produce t q ms, Ok (ProduceSuccess t q (of_nat (length recs))
            (of_nat (length ms)))) # rs"] exI [of _ part2] exI [of _ "new1 @ new2"])
        (simp add: o_def add.assoc case_prod_beta Let_def)
  next
    case False
    obtain b1 rs1 where 1: "handle_event C ev b = (b1, rs1)" by (cases "handle_event C ev b")
    have "find_partition (br_topics b1) t q = Ok part" "acks_of t q rs1 = []"
      using event_keeps [OF Cons.prems(1) False, of C] acks_other [OF False, of C b] 1 by simp_all
    then show ?thesis
      using Cons.IH [of b1 part recs] Cons.prems(2,3) 1 by (auto simp: produced_other [OF False])
  qed
qed

end
