(* ===== verification/Concurrent_Produce.thy ===== *)
theory Concurrent_Produce
  imports Broker_Runs
begin

text \<open>
  Produce requests on several connections at once. The handler of \<open>Produce\<close> in
  \<open>broker/src/server.rs\<close> works in two steps, each under a lock of its own: it appends to the partition,
  and then it reports the new end of the log to the cluster metadata. Steps of different handlers
  may come in any order.
\<close>

text \<open>A batch that was appended: what a handler holds between its two steps.\<close>

record append_entry =
  ap_topic :: string
  ap_partition :: u32
  ap_base :: u64
  ap_messages :: "message list"

text \<open>
  \<open>pu_pending\<close> holds the handlers between their steps. \<open>pu_appended\<close> and \<open>pu_acked\<close> record the appended and the
  answered batches in their order.
\<close>

record produce_run =
  pu_broker :: broker
  pu_pending :: "(nat, append_entry) hashmap"
  pu_appended :: "append_entry list"
  pu_acked :: "append_entry list"

definition run_start :: "broker \<Rightarrow> produce_run" where
  "run_start b = \<lparr>pu_broker = b, pu_pending = [], pu_appended = [], pu_acked = []\<rparr>"

definition final_offset :: "append_entry \<Rightarrow> u64" where
  "final_offset e = ap_base e + ucast (of_nat (length (ap_messages e)) :: u32)"

section \<open>The steps of a handler\<close>

definition produce_append :: "codecs \<Rightarrow> nat \<Rightarrow> string \<Rightarrow> u32 \<Rightarrow> message list \<Rightarrow> produce_run \<Rightarrow> produce_run" where
  "produce_append C i topic p messages s =
     (let b = pu_broker s in
      case tm_append C topic p messages (br_topics b) of
        (tm, Ok base_offset) \<Rightarrow>
          (let e = \<lparr>ap_topic = topic, ap_partition = p, ap_base = base_offset, ap_messages = messages\<rparr> in
           s\<lparr>pu_broker := b\<lparr>br_topics := tm\<rparr>, pu_pending := hm_insert i e (pu_pending s),
             pu_appended := pu_appended s @ [e]\<rparr>)
      | (tm, _) \<Rightarrow> s\<lparr>pu_broker := b\<lparr>br_topics := tm\<rparr>\<rparr>)"

definition produce_report :: "nat \<Rightarrow> produce_run \<Rightarrow> produce_run" where
  "produce_report i s =
     (case hm_get (pu_pending s) i of
        None \<Rightarrow> s
      | Some e \<Rightarrow>
          s\<lparr>pu_broker := (pu_broker s)\<lparr>br_cluster := update_leader_offset (ap_topic e) (ap_partition e)
                (final_offset e) (br_cluster (pu_broker s))\<rparr>,
            pu_pending := hm_remove i (pu_pending s), pu_acked := pu_acked s @ [e]\<rparr>)"

text \<open>One handler alone does what the handler of the request does in one piece.\<close>

lemma produce_steps_sequential:
  assumes "hm_get (pu_pending s) i = None"
  shows "pu_broker (produce_report i (produce_append C i t p ms s)) =
           fst (handle_produce C t p ms (pu_broker s))"
  using assms
  by (auto simp: produce_append_def produce_report_def handle_produce_def final_offset_def Let_def hashmap_simps
      split: prod.split outcome.split)

text \<open>The steps on batches that the partition accepts, or that it refuses because they are empty.\<close>

inductive produce_step :: "codecs \<Rightarrow> produce_run \<Rightarrow> produce_run \<Rightarrow> bool" for C where
  Append: "hm_get (pu_pending s) i = None \<Longrightarrow>
     (\<forall>part. find_partition (br_topics (pu_broker s)) t p = Ok part \<longrightarrow> ms = [] \<or> part_accepts C part ms) \<Longrightarrow>
     produce_step C s (produce_append C i t p ms s)"
| Report: "hm_get (pu_pending s) i = Some e \<Longrightarrow> produce_step C s (produce_report i s)"

inductive_cases produce_stepE: "produce_step C s s'"

section \<open>The log under interleaving\<close>

definition entries_of :: "string \<Rightarrow> u32 \<Rightarrow> append_entry list \<Rightarrow> append_entry list" where
  "entries_of t q es = filter (\<lambda>e. ap_topic e = t \<and> ap_partition e = q) es"

text \<open>
  The log of a partition that held \<open>recs0\<close> at first: the batches in the order of their appends, each at the
  offset its handler was given.
\<close>

definition log_of_run :: "codecs \<Rightarrow> string \<Rightarrow> u32 \<Rightarrow> stored_record list \<Rightarrow> produce_run \<Rightarrow> bool" where
  "log_of_run C t q recs0 s \<longleftrightarrow>
     (let es = entries_of t q (pu_appended s) in
      \<exists>part new. find_partition (br_topics (pu_broker s)) t q = Ok part \<and> part_log C part (recs0 @ new) \<and>
        map rec_message new = concat (map ap_messages es) \<and>
        map ap_base es =
          map (\<lambda>k. of_nat (length recs0 + length (concat (map ap_messages (take k es))))) [0..<length es])"

definition batches_accounted :: "produce_run \<Rightarrow> bool" where
  "batches_accounted s \<longleftrightarrow>
     hm_ok (pu_pending s) \<and> mset (pu_acked s) + mset (map snd (pu_pending s)) = mset (pu_appended s)"

lemma mset_snd_insert:
  "hm_get m k = None \<Longrightarrow> image_mset snd (mset (hm_insert k v m)) = add_mset v (image_mset snd (mset m))"
  by (induction m) (auto split: if_splits)

lemma mset_snd_remove:
  "hm_ok m \<Longrightarrow> hm_get m k = Some v \<Longrightarrow>
     image_mset snd (mset m) = add_mset v (image_mset snd (mset (hm_remove k m)))"
proof (induction m)
  case (Cons x m)
  have "hm_remove k m = m" if "k \<notin> fst ` set m"
    using that by (rule delete_id)
  then show ?case using Cons by (cases x) (auto simp: hm_ok_def split: if_splits)
qed simp

lemma accounted_append:
  assumes "batches_accounted s" and "hm_get (pu_pending s) i = None"
  shows "batches_accounted (produce_append C i t p ms s)"
  using assms
  by (auto simp: batches_accounted_def produce_append_def Let_def mset_snd_insert hashmap_simps
      split: prod.split outcome.split)

lemma accounted_report:
  assumes "batches_accounted s" and "hm_get (pu_pending s) i = Some e"
  shows "batches_accounted (produce_report i s)"
proof -
  have "image_mset snd (mset (pu_pending s)) = add_mset e (image_mset snd (mset (hm_remove i (pu_pending s))))"
    using assms by (intro mset_snd_remove) (simp_all add: batches_accounted_def)
  then show ?thesis
    using assms by (simp add: batches_accounted_def produce_report_def hashmap_simps)
qed

lemma produce_append_ok:
  assumes "find_partition (br_topics (pu_broker s)) t q = Ok part" and "part_log C part recs" and "part_accepts C part ms"
  obtains tm part' new where
    "produce_append C i t q ms s =
       (let e = \<lparr>ap_topic = t, ap_partition = q, ap_base = of_nat (length recs), ap_messages = ms\<rparr> in
        s\<lparr>pu_broker := (pu_broker s)\<lparr>br_topics := tm\<rparr>, pu_pending := hm_insert i e (pu_pending s),
          pu_appended := pu_appended s @ [e]\<rparr>)"
    and "find_partition tm t q = Ok part'" and "part_log C part' (recs @ new)" and "map rec_message new = ms"
    and "part' = fst (partition_append C ms part)"
proof -
  obtain part' new where a: "partition_append C ms part = (part', Ok (0 + of_nat (length recs)))"
      "part_log C part' (recs @ new)" "map rec_message new = ms"
    by (rule partlog.append_okE [OF assms(2,3)])
  obtain tm where tm: "tm_append C t q ms (br_topics (pu_broker s)) = (tm, Ok (0 + of_nat (length recs)))"
      "\<And>name q'. find_partition tm name q' =
         (if name = t \<and> q' = q then Ok part' else find_partition (br_topics (pu_broker s)) name q')"
    by (rule tm_append_find [OF assms(1) a(1)]) (rule that)
  show thesis
    by (rule that [of tm part' new]) (use a tm in \<open>simp_all add: produce_append_def Let_def\<close>)
qed

lemma append_entry_log:
  assumes "log_of_run C t q recs0 s"
    and "\<forall>part. find_partition (br_topics (pu_broker s)) t' q' = Ok part \<longrightarrow> ms = [] \<or> part_accepts C part ms"
  shows "log_of_run C t q recs0 (produce_append C i t' q' ms s)"
proof -
  let ?es = "entries_of t q (pu_appended s)"
  obtain part new where log: "find_partition (br_topics (pu_broker s)) t q = Ok part" "part_log C part (recs0 @ new)"
      "map rec_message new = concat (map ap_messages ?es)"
      "map ap_base ?es = map (\<lambda>k. of_nat (length recs0 + length (concat (map ap_messages (take k ?es))))) [0..<length ?es]"
    using assms(1) by (auto simp: log_of_run_def Let_def)
  show ?thesis
  proof (cases "(t', q') = (t, q)")
    case False
    from tm_append_keeps [OF log(1) False, of C ms] show ?thesis
      using log(2-) False unfolding log_of_run_def Let_def
      by (auto simp: produce_append_def Let_def entries_of_def split: prod.split outcome.split intro!: exI [of _ part])
  next
    case True
    show ?thesis
    proof (cases "ms = []")
      case True
      have "partition_append C [] part = (part, Err (InvalidMessage ''No messages to append''))"
        by (simp add: partition_append_def)
      note empty = tm_append_find [OF log(1) this]
      obtain tm' where "tm_append C t q [] (br_topics (pu_broker s)) = (tm', Err (InvalidMessage ''No messages to append''))"
          "\<And>name q'. find_partition tm' name q' =
             (if name = t \<and> q' = q then Ok part else find_partition (br_topics (pu_broker s)) name q')"
        by (rule empty) (rule that)
      then show ?thesis
        using log True \<open>(t', q') = (t, q)\<close> unfolding log_of_run_def Let_def
        by (auto simp: produce_append_def intro!: exI [of _ part])
    next
      case False
      then have acc: "part_accepts C part ms" using assms(2) log(1) True by auto
      let ?s = "produce_append C i t q ms s"
        and ?e = "\<lparr>ap_topic = t, ap_partition = q, ap_base = of_nat (length (recs0 @ new)), ap_messages = ms\<rparr>"
      obtain tm' part' new' where a: "?s = (let e = ?e in s\<lparr>pu_broker := (pu_broker s)\<lparr>br_topics := tm'\<rparr>,
            pu_pending := hm_insert i e (pu_pending s), pu_appended := pu_appended s @ [e]\<rparr>)"
          "find_partition tm' t q = Ok part'" "part_log C part' ((recs0 @ new) @ new')" "map rec_message new' = ms"
        by (rule produce_append_ok [OF log(1,2) acc]) (rule that)
      have s: "br_topics (pu_broker ?s) = tm'" "pu_appended ?s = pu_appended s @ [?e]"
        by (simp_all add: a(1) Let_def)
      have es: "entries_of t q (pu_appended ?s) = ?es @ [?e]" unfolding s by (simp add: entries_of_def)
      have "length new = length (concat (map ap_messages ?es))" using log(3) by (metis length_map)
      then have "map ap_base (?es @ [?e]) = map (\<lambda>k. of_nat (length recs0 +
          length (concat (map ap_messages (take k (?es @ [?e])))))) [0..<length (?es @ [?e])]"
        using log(4) by simp
      moreover have "map rec_message (new @ new') = concat (map ap_messages (?es @ [?e]))"
        using a(4) log(3) by simp
      moreover have "find_partition (br_topics (pu_broker ?s)) t q = Ok part'" using a(2) s(1) by simp
      ultimately have "log_of_run C t q recs0 ?s"
        using a(3) unfolding log_of_run_def Let_def es by (metis append.assoc)
      then show ?thesis using True by simp
    qed
  qed
qed

lemma report_log: "log_of_run C t q recs0 s \<Longrightarrow> log_of_run C t q recs0 (produce_report i s)"
  by (simp add: log_of_run_def produce_report_def split: option.split)

lemma produce_steps_log:
  assumes "(produce_step C)\<^sup>*\<^sup>* s s'" and "log_of_run C t q recs0 s" and "batches_accounted s"
  shows "log_of_run C t q recs0 s' \<and> batches_accounted s'"
  using assms
proof (induction rule: rtranclp_induct)
  case (step s1 s2)
  then show ?case
    by (auto elim!: produce_stepE intro: append_entry_log accounted_append report_log accounted_report)
qed simp

end
