(* ===== verification/Concurrent_Properties.thy ===== *)
theory Concurrent_Properties
  imports Concurrent_Produce Client_Properties
begin

text \<open>
  The properties of produce requests that are handled at the same time: the log keeps every batch
  whole and where its sender was told it is, the high watermark does not.
\<close>

section \<open>The log\<close>

text \<open>
  C15. Produce handlers on any number of connections, with their steps interleaved in any way: the log of a
  partition grows by the batches appended to it, each of them whole and none twice, in the order of their appends; every
  handler is given the offset of its first message in that log; and the answered batches and
  those whose handlers are between their steps are exactly the appended ones.
\<close>

theorem interleaved_produces_linearize:
  assumes "find_partition (br_topics b) t q = Ok part" and "part_log C part recs0"
    and "(produce_step C)\<^sup>*\<^sup>* (run_start b) s"
  shows "let es = entries_of t q (pu_appended s) in
         \<exists>new. map rec_message new = concat (map ap_messages es) \<and>
           map ap_base es =
             map (\<lambda>k. of_nat (length recs0 + length (concat (map ap_messages (take k es))))) [0..<length es] \<and>
           (\<forall>e off n. process_request C e (Fetch t q off n) (pu_broker s) =
              (pu_broker s, Ok (FetchSuccess t q (take (unat n) (drop (unat off) (recs0 @ new)))))) \<and>
           mset (pu_acked s) + mset (map snd (pu_pending s)) = mset (pu_appended s)"
proof -
  have start: "log_of_run C t q recs0 (run_start b)" "batches_accounted (run_start b)"
    using assms(1,2) by (auto simp: log_of_run_def run_start_def entries_of_def batches_accounted_def
        intro!: exI [of _ "[] :: stored_record list"])
  from produce_steps_log [OF assms(3) start] obtain part' new where
    log: "find_partition (br_topics (pu_broker s)) t q = Ok part'" "part_log C part' (recs0 @ new)"
      "map rec_message new = concat (map ap_messages (entries_of t q (pu_appended s)))"
      "map ap_base (entries_of t q (pu_appended s)) =
         map (\<lambda>k. of_nat (length recs0 + length (concat (map ap_messages (take k (entries_of t q (pu_appended s)))))))
           [0..<length (entries_of t q (pu_appended s))]"
    and all: "mset (pu_acked s) + mset (map snd (pu_pending s)) = mset (pu_appended s)"
    unfolding log_of_run_def batches_accounted_def Let_def by (elim exE conjE)
  have "process_request C e (Fetch t q off n) (pu_broker s) =
      (pu_broker s, Ok (FetchSuccess t q (take (unat n) (drop (unat off) (recs0 @ new)))))" for e off n
    using log(1) part_log_fetch [OF log(2), of off n] by (simp add: handle_fetch_def tm_fetch_find)
  then show ?thesis unfolding Let_def using log(3,4) all by (intro exI [of _ new]) blast
qed

text \<open>Two batches on the first partition of the sample topic.\<close>

lemma topic_broker_part:
  "part_log demo_codecs (partition_new ''t'' 0 d []) []"
  "accepted (partition_append demo_codecs) (part_accepts demo_codecs)
     [[sample_message], [sample_message, sample_message]] (partition_new ''t'' 0 d [])"
proof -
  show "part_log demo_codecs (partition_new ''t'' 0 d []) []"
    unfolding partition_new_def
    by (rule partition_with_config_log [OF demo_codecs_ok no_files])
      (simp add: segment_config_default_def DEFAULT_MAX_SEGMENT_SIZE_def)
  show "accepted (partition_append demo_codecs) (part_accepts demo_codecs)
     [[sample_message], [sample_message, sample_message]] (partition_new ''t'' 0 d [])"
    unfolding partition_new_def
    by (rule accepted_fresh [OF no_files])
      (use sample_small in \<open>simp_all add: segment_config_default_def DEFAULT_MAX_SEGMENT_SIZE_def batch_bytes_def
        sample_message_def\<close>)
qed

lemma topic_broker_found:
  "find_partition (br_topics topic_broker) ''t'' 0 = Ok (partition_new ''t'' 0 (cfg_data_dir broker_config_default) [])"
  by (rule topic_broker_find) simp

theorem interleaved_produces_linearize_witness:
  "let s = produce_append demo_codecs 0 ''t'' 0 [sample_message] (run_start topic_broker) in
   \<exists>new. map rec_message new = concat (map ap_messages (entries_of ''t'' 0 (pu_appended s))) \<and>
     process_request demo_codecs sample_env (Fetch ''t'' 0 0 9) (pu_broker s) =
       (pu_broker s, Ok (FetchSuccess ''t'' 0 (take 9 new)))"
proof -
  let ?s = "produce_append demo_codecs 0 ''t'' 0 [sample_message] (run_start topic_broker)"
  have "part_accepts demo_codecs (partition_new ''t'' 0 d []) [sample_message]" for d
    using topic_broker_part(2) by simp
  then have "produce_step demo_codecs (run_start topic_broker) ?s"
    by (intro produce_step.Append) (simp_all add: run_start_def topic_broker_found)
  then have run: "(produce_step demo_codecs)\<^sup>*\<^sup>* (run_start topic_broker) ?s" by (rule r_into_rtranclp)
  from interleaved_produces_linearize [OF topic_broker_found topic_broker_part(1) run] obtain new where
    "map rec_message new = concat (map ap_messages (entries_of ''t'' 0 (pu_appended ?s)))"
    "\<forall>e off n. process_request demo_codecs e (Fetch ''t'' 0 off n) (pu_broker ?s) =
       (pu_broker ?s, Ok (FetchSuccess ''t'' 0 (take (unat n) (drop (unat off) ([] @ new)))))"
    unfolding Let_def by (elim exE conjE)
  then show ?thesis unfolding Let_def by (intro exI [of _ new]) (simp del: process_request.simps)
qed

section \<open>The high watermark\<close>

definition leads_alone :: "string \<Rightarrow> u32 \<Rightarrow> cluster_metadata \<Rightarrow> bool" where
  "leads_alone t q cm \<longleftrightarrow>
     (\<exists>s. hm_get (cm_partition_states cm) (t, q) = Some s \<and> prs_isr s = [cm_broker_id cm] \<and>
        prs_leader s = cm_broker_id cm)"

lemma leads_alone_report:
  assumes "leads_alone t q cm" and "unat off + unat (cm_isr_lag_threshold cm) < 2 ^ 64"
  shows "leads_alone t q (update_leader_offset t q off cm)"
    and "get_high_watermark (update_leader_offset t q off cm) t q = off"
proof -
  obtain s where s: "hm_get (cm_partition_states cm) (t, q) = Some s" "prs_isr s = [cm_broker_id cm]"
      "prs_leader s = cm_broker_id cm"
    using assms(1) by (auto simp: leads_alone_def)
  have "off \<le> off + cm_isr_lag_threshold cm"
    using assms(2) by (simp add: word_le_nat_alt unat_add_lem [THEN iffD1])
  then show "leads_alone t q (update_leader_offset t q off cm)"
      "get_high_watermark (update_leader_offset t q off cm) t q = off"
    using s by (simp_all add: leads_alone_def update_leader_offset_def cm_update_replica_offset_def hashmap_simps
        prs_update_replica_offset_def update_high_watermark_def isr_offsets_def get_high_watermark_def Let_def
        List.map_filter_simps)
qed

lemma final_offset_nat:
  assumes "length ms < 2 ^ 32"
  shows "final_offset \<lparr>ap_topic = t, ap_partition = q, ap_base = of_nat n, ap_messages = ms\<rparr> = of_nat (n + length ms)"
proof -
  have "ucast (of_nat (length ms) :: u32) = (of_nat (length ms) :: u64)"
    using assms by (simp add: unsigned_of_nat take_bit_nat_eq_self)
  then show ?thesis by (simp add: final_offset_def)
qed

text \<open>
  C33. The high watermark of a partition can go back and stay behind. On a broker that is the only in-sync
  replica, two batches are appended and the handler of the second one reports first: the watermark
  is then at the end of the log, and when the first handler reports it falls back to the end of the first batch, although both
  batches are stored and acknowledged.
\<close>

theorem late_report_lowers_watermark:
  assumes "find_partition (br_topics b) t q = Ok part" and "part_log C part recs"
    and "part_accepts C part ms" and "part_accepts C (fst (partition_append C ms part)) ms'"
    and "leads_alone t q (br_cluster b)" and "length ms < 2 ^ 32" and "length ms' < 2 ^ 32"
    and "length recs + length ms + length ms' + unat (cm_isr_lag_threshold (br_cluster b)) < 2 ^ 64"
    and "s3 = produce_report 1 (produce_append C 1 t q ms' (produce_append C 0 t q ms (run_start b)))"
    and "s4 = produce_report 0 s3"
  shows "(produce_step C)\<^sup>*\<^sup>* (run_start b) s3 \<and> produce_step C s3 s4 \<and> pu_pending s4 = [] \<and>
         get_high_watermark (br_cluster (pu_broker s3)) t q = of_nat (length recs + length ms + length ms') \<and>
         get_high_watermark (br_cluster (pu_broker s4)) t q = of_nat (length recs + length ms)"
proof -
  let ?e = "\<lparr>ap_topic = t, ap_partition = q, ap_base = of_nat (length recs), ap_messages = ms\<rparr>"
  let ?f = "\<lparr>ap_topic = t, ap_partition = q, ap_base = of_nat (length recs + length ms), ap_messages = ms'\<rparr>"
  let ?s1 = "produce_append C 0 t q ms (run_start b)" and ?cm = "br_cluster b"
  let ?s2 = "produce_append C 1 t q ms' ?s1"
  have b: "find_partition (br_topics (pu_broker (run_start b))) t q = Ok part" using assms(1) by (simp add: run_start_def)
  obtain tm1 part1 new1 where 1: "?s1 = (let e = ?e in (run_start b)\<lparr>pu_broker := (pu_broker (run_start b))\<lparr>br_topics := tm1\<rparr>,
        pu_pending := hm_insert 0 e (pu_pending (run_start b)), pu_appended := pu_appended (run_start b) @ [e]\<rparr>)"
      "find_partition tm1 t q = Ok part1" "part_log C part1 (recs @ new1)" "map rec_message new1 = ms"
      "part1 = fst (partition_append C ms part)"
    by (rule produce_append_ok [OF b assms(2,3)]) (rule that)
  have len: "length new1 = length ms" using 1(4) by (metis length_map)
  have s1: "br_topics (pu_broker ?s1) = tm1" "br_cluster (pu_broker ?s1) = ?cm" "pu_pending ?s1 = [(0, ?e)]"
    unfolding 1(1) by (simp_all add: Let_def run_start_def)
  have found1: "find_partition (br_topics (pu_broker ?s1)) t q = Ok part1" using 1(2) s1(1) by simp
  have acc1: "part_accepts C part1 ms'" using assms(4) 1(5) by simp
  have grown: "length (recs @ new1) = length recs + length ms" using len by simp
  obtain tm2 where "?s2 = (let e = \<lparr>ap_topic = t, ap_partition = q, ap_base = of_nat (length (recs @ new1)),
        ap_messages = ms'\<rparr> in ?s1\<lparr>pu_broker := (pu_broker ?s1)\<lparr>br_topics := tm2\<rparr>,
        pu_pending := hm_insert 1 e (pu_pending ?s1), pu_appended := pu_appended ?s1 @ [e]\<rparr>)"
    by (rule produce_append_ok [OF found1 1(3) acc1, of 1]) (rule that)
  note 2 = this [unfolded grown]
  have s2: "br_cluster (pu_broker ?s2) = ?cm" "pu_pending ?s2 = [(0, ?e), (1, ?f)]"
    unfolding 2 using s1 by (simp_all add: Let_def)
  let ?x = "of_nat (length recs + length ms) :: u64" and ?y = "of_nat (length recs + length ms + length ms') :: u64"
  have s3: "br_cluster (pu_broker s3) = update_leader_offset t q ?y ?cm" "pu_pending s3 = [(0, ?e)]"
    unfolding assms(9) using s2 final_offset_nat [OF assms(7), of t q "length recs + length ms"]
    by (simp_all add: produce_report_def)
  have s4: "br_cluster (pu_broker s4) = update_leader_offset t q ?x (update_leader_offset t q ?y ?cm)" "pu_pending s4 = []"
    unfolding assms(10) using s3 final_offset_nat [OF assms(6), of t q "length recs"]
    by (simp_all add: produce_report_def)
  have lag: "cm_isr_lag_threshold (update_leader_offset t q ?y ?cm) = cm_isr_lag_threshold ?cm"
    by (simp add: update_leader_offset_def cm_update_replica_offset_def split: option.split)
  have room: "unat ?x + unat (cm_isr_lag_threshold ?cm) < 2 ^ 64" "unat ?y + unat (cm_isr_lag_threshold ?cm) < 2 ^ 64"
    using assms(8) by (simp_all only: unat_of_nat_u64)
  have "produce_step C (run_start b) ?s1"
    by (rule produce_step.Append) (use assms(3) b in \<open>simp_all add: run_start_def\<close>)
  moreover have "produce_step C ?s1 ?s2"
    by (rule produce_step.Append) (use acc1 found1 s1(3) in simp_all)
  moreover have "produce_step C ?s2 s3"
    unfolding assms(9) by (rule produce_step.Report) (use s2(2) in simp)
  moreover have "produce_step C s3 s4"
    unfolding assms(10) by (rule produce_step.Report) (use s3(2) in simp)
  ultimately show ?thesis
    using s3(1) s4 leads_alone_report [OF assms(5) room(2)] leads_alone_report(2) [of t q "update_leader_offset t q ?y ?cm" ?x]
      room(1) lag by (auto intro: rtranclp.rtrancl_into_rtrancl)
qed

lemma topic_broker_created:
  "process_request demo_codecs sample_env (CreateTopic ''t'' 2) sample_broker =
     (topic_broker, Ok (CreateTopicSuccess ''t'' 2))"
  "br_cluster topic_broker = (br_cluster sample_broker)\<lparr>cm_partition_states :=
     [((''t'', 0), prs_new ''t'' 0 0 [0]), ((''t'', 1), prs_new ''t'' 1 0 [0])]\<rparr>"
  using sample_assign [of 0 1] sample_assign [of 1 2]
  by (simp_all add: topic_broker_def handle_create_topic_def create_topic_def sample_broker_def tm_new_def Let_def
        u32_range_2 sample_env_def)
    (simp add: set_partition_replicas_def register_broker_def cluster_metadata_new_def)

theorem late_report_lowers_watermark_witness:
  "let s3 = produce_report 1 (produce_append demo_codecs 1 ''t'' 0 [sample_message, sample_message]
         (produce_append demo_codecs 0 ''t'' 0 [sample_message] (run_start topic_broker))) in
   get_high_watermark (br_cluster (pu_broker s3)) ''t'' 0 = 3 \<and>
   get_high_watermark (br_cluster (pu_broker (produce_report 0 s3))) ''t'' 0 = 1"
proof -
  let ?p = "partition_new ''t'' 0 (cfg_data_dir broker_config_default) []"
  have acc: "part_accepts demo_codecs ?p [sample_message]"
      "part_accepts demo_codecs (fst (partition_append demo_codecs [sample_message] ?p)) [sample_message, sample_message]"
    using topic_broker_part(2) by simp_all
  have alone: "leads_alone ''t'' 0 (br_cluster topic_broker)" and lag: "cm_isr_lag_threshold (br_cluster topic_broker) = 1000"
    unfolding topic_broker_created(2)
    by (simp_all add: leads_alone_def prs_new_def sample_broker_def register_broker_def cluster_metadata_new_def)
  from late_report_lowers_watermark [OF topic_broker_found topic_broker_part(1) acc alone _ _ _ refl refl]
  show ?thesis by (simp add: lag)
qed

end
