(* ===== verification/Queue_Spec.thy ===== *)
theory Queue_Spec
  imports Broker_Runs
begin

text \<open>
  What a broker promises to its clients, without segments, files, hash maps and rebalances: a
  queue is a set of topics, a list of messages for every partition, a table of committed offsets,
  and the members and brokers that are registered. Each request has an effect on that state
  and a set of right answers; what the code leaves to hash maps (the order of listings, who
  of a group reads which partition) is left open here.
\<close>

record queue =
  qu_topics :: "string \<rightharpoonup> u32"
  qu_log :: "string \<times> u32 \<Rightarrow> message list"
  qu_offsets :: "offset_key \<rightharpoonup> u64"
  qu_members :: "string \<Rightarrow> string \<rightharpoonup> string list \<times> nat"
  qu_brokers :: "u32 \<rightharpoonup> string \<times> u16 \<times> nat"

text \<open>A member is there with its topics and the time of its last sign of life, a broker with its address and the time of its registration.\<close>

definition queue_new :: "nat \<Rightarrow> broker_config \<Rightarrow> queue" where
  "queue_new now config =
     \<lparr>qu_topics = Map.empty, qu_log = (\<lambda>_. []), qu_offsets = Map.empty, qu_members = (\<lambda>_. Map.empty),
      qu_brokers = [cfg_broker_id config \<mapsto> (cfg_host config, cfg_port config, now)]\<rparr>"

section \<open>Lookups\<close>

definition queue_find :: "queue \<Rightarrow> string \<Rightarrow> u32 \<Rightarrow> message list outcome" where
  "queue_find \<sigma> t q =
     (case qu_topics \<sigma> t of
        None \<Rightarrow> Err (TopicNotFound t)
      | Some n \<Rightarrow> if q < n then Ok (qu_log \<sigma> (t, q)) else Err (PartitionNotFound t q))"

definition queue_slice :: "queue \<Rightarrow> string \<Rightarrow> u32 \<Rightarrow> u64 \<Rightarrow> u32 \<Rightarrow> stored_record list outcome" where
  "queue_slice \<sigma> t q off n =
     and_then (queue_find \<sigma> t q) (\<lambda>ms. Ok (take (unat n) (drop (unat off) (history t q ms))))"

definition queue_metadata :: "queue \<Rightarrow> string list \<Rightarrow> topic_metadata list" where
  "queue_metadata \<sigma> ts = List.map_filter (\<lambda>t. map_option (topic_metadata_new t) (qu_topics \<sigma> t)) ts"

definition member_name :: "environment \<Rightarrow> string \<Rightarrow> string option \<Rightarrow> string" where
  "member_name e g mid = (case mid of Some m \<Rightarrow> m | None \<Rightarrow> g @ ''-'' @ take 8 (env_uuid e))"

definition find_member :: "queue \<Rightarrow> string \<Rightarrow> string \<Rightarrow> (string list \<times> nat) outcome" where
  "find_member \<sigma> g m =
     (if qu_members \<sigma> g = Map.empty then Err (GroupNotFound g)
      else ok_or (qu_members \<sigma> g m) (ConsumerNotFound m))"

section \<open>Effects\<close>

fun queue_next :: "environment \<Rightarrow> request \<Rightarrow> queue \<Rightarrow> queue" where
  "queue_next e (CreateTopic t n) \<sigma> =
     (if qu_topics \<sigma> t = None then
        \<sigma>\<lparr>qu_topics := (qu_topics \<sigma>)(t \<mapsto> n), qu_log := (\<lambda>(t', q). if t' = t then [] else qu_log \<sigma> (t', q))\<rparr>
      else \<sigma>)"
| "queue_next e (Produce t q ms) \<sigma> =
     (if is_ok (queue_find \<sigma> t q) then \<sigma>\<lparr>qu_log := (qu_log \<sigma>)((t, q) := qu_log \<sigma> (t, q) @ ms)\<rparr> else \<sigma>)"
| "queue_next e (JoinGroup g mid ts) \<sigma> =
     \<sigma>\<lparr>qu_members := (qu_members \<sigma>)(g := (qu_members \<sigma> g)(member_name e g mid \<mapsto> (ts, env_now e)))\<rparr>"
| "queue_next e (LeaveGroup g m) \<sigma> =
     \<sigma>\<lparr>qu_members := (qu_members \<sigma>)(g := (qu_members \<sigma> g)(m := None))\<rparr>"
| "queue_next e (Heartbeat g m) \<sigma> =
     \<sigma>\<lparr>qu_members := (qu_members \<sigma>)(g := (qu_members \<sigma> g)
         (m := map_option (\<lambda>(ts, _). (ts, env_now e)) (qu_members \<sigma> g m)))\<rparr>"
| "queue_next e (CommitOffset g t p off) \<sigma> = \<sigma>\<lparr>qu_offsets := (qu_offsets \<sigma>)((g, t, p) \<mapsto> off)\<rparr>"
| "queue_next e (RegisterBroker i host port) \<sigma> =
     \<sigma>\<lparr>qu_brokers := (qu_brokers \<sigma>)(i \<mapsto> (host, port, env_now e))\<rparr>"
| "queue_next e _ \<sigma> = \<sigma>"

text \<open>A turn of the heartbeat check forgets the members that were silent for more than 30 seconds.\<close>

definition queue_expire :: "environment \<Rightarrow> queue \<Rightarrow> queue" where
  "queue_expire e \<sigma> =
     \<sigma>\<lparr>qu_members := (\<lambda>g k. case qu_members \<sigma> g k of
          None \<Rightarrow> None | Some (ts, h) \<Rightarrow> if env_clock e g - h > 30000 then None else Some (ts, h))\<rparr>"

section \<open>Answers\<close>

text \<open>Whether an answer is the right one to a request in a state before it.\<close>

fun queue_answers :: "environment \<Rightarrow> queue \<Rightarrow> request \<Rightarrow> response \<Rightarrow> bool" where
  "queue_answers e \<sigma> (CreateTopic t n) r \<longleftrightarrow>
     r = (if qu_topics \<sigma> t = None then CreateTopicSuccess t n
          else CreateTopicError (error_to_string
            (InvalidMessage (''Topic '' @ [CHR 0x27] @ t @ [CHR 0x27] @ '' already exists''))))"
| "queue_answers e \<sigma> (Produce t q ms) r \<longleftrightarrow>
     r = (case queue_find \<sigma> t q of
            Ok log \<Rightarrow>
              if ms = [] then ProduceError (error_to_string (InvalidMessage ''No messages to append''))
              else ProduceSuccess t q (of_nat (length log)) (of_nat (length ms))
          | Err er \<Rightarrow> ProduceError (error_to_string er)
          | Panic \<Rightarrow> ProduceError [])"
| "queue_answers e \<sigma> (Fetch t q off n) r \<longleftrightarrow>
     r = (case queue_slice \<sigma> t q off n of
            Ok recs \<Rightarrow> FetchSuccess t q recs
          | Err er \<Rightarrow> FetchError (error_to_string er)
          | Panic \<Rightarrow> FetchError [])"
| "queue_answers e \<sigma> (GetMetadata ts) r \<longleftrightarrow>
     (if ts \<noteq> [] then r = Metadata (queue_metadata \<sigma> ts)
      else \<exists>names. distinct names \<and> set names = dom (qu_topics \<sigma>) \<and> r = Metadata (queue_metadata \<sigma> names))"
| "queue_answers e \<sigma> (GetPartitions t) r \<longleftrightarrow>
     r = (case qu_topics \<sigma> t of
            Some n \<Rightarrow> Partitions t n | None \<Rightarrow> PartitionsError (error_to_string (TopicNotFound t)))"
| "queue_answers e \<sigma> ListTopics r \<longleftrightarrow>
     (\<exists>names. distinct names \<and> set names = dom (qu_topics \<sigma>) \<and> r = Topics names)"
| "queue_answers e \<sigma> (JoinGroup g mid ts) r \<longleftrightarrow>
     (\<exists>asg. r = JoinGroupSuccess g (member_name e g mid) asg \<and> distinct asg \<and>
        (\<forall>a \<in> set asg. is_ok (queue_find \<sigma> (pa_topic a) (pa_partition a)) \<and>
           (\<exists>k ts' h. qu_members (queue_next e (JoinGroup g mid ts) \<sigma>) g k = Some (ts', h) \<and>
              pa_topic a \<in> set ts')))"
| "queue_answers e \<sigma> (LeaveGroup g m) r \<longleftrightarrow>
     r = (case find_member \<sigma> g m of
            Ok _ \<Rightarrow> LeaveGroupSuccess g
          | Err er \<Rightarrow> LeaveGroupError (error_to_string er)
          | Panic \<Rightarrow> LeaveGroupError [])"
| "queue_answers e \<sigma> (Heartbeat g m) r \<longleftrightarrow>
     r = (case find_member \<sigma> g m of
            Ok _ \<Rightarrow> HeartbeatSuccess
          | Err er \<Rightarrow> HeartbeatError (error_to_string er) False
          | Panic \<Rightarrow> HeartbeatError [] False)"
| "queue_answers e \<sigma> (CommitOffset g t p off) r \<longleftrightarrow> r = CommitOffsetSuccess g t p off"
| "queue_answers e \<sigma> (FetchOffset g t p) r \<longleftrightarrow>
     r = FetchOffsetSuccess g t p (case qu_offsets \<sigma> (g, t, p) of Some off \<Rightarrow> off | None \<Rightarrow> 0)"
| "queue_answers e \<sigma> (RegisterBroker i host port) r \<longleftrightarrow> r = RegisterBrokerSuccess i"
| "queue_answers e \<sigma> GetClusterMetadata r \<longleftrightarrow>
     (\<exists>bs ps. r = ClusterMetadataResponse bs ps \<and> distinct (map bm_id bs) \<and>
        set bs = {\<lparr>bm_id = i, bm_host = host, bm_port = port\<rparr> | i host port h.
                    qu_brokers \<sigma> i = Some (host, port, h) \<and> env_now e - h < 30000} \<and>
        distinct (map (\<lambda>m. (tpm_topic m, tpm_partition m)) ps) \<and>
        (\<lambda>m. (tpm_topic m, tpm_partition m)) ` set ps = {(t, q). is_ok (queue_find \<sigma> t q)})"
| "queue_answers e \<sigma> (ReplicationFetch i t q off) r \<longleftrightarrow>
     r = ReplicationFetchError ''Not the leader for this partition'' \<or>
     (\<exists>hw ep. r = ReplicationFetchSuccess
        (case queue_slice \<sigma> t q off 1000 of Ok recs \<Rightarrow> recs | _ \<Rightarrow> []) hw ep)"

text \<open>A request that the model of the disk has room for: only batches can be too large.\<close>

fun queue_admits :: "queue \<Rightarrow> request \<Rightarrow> bool" where
  "queue_admits \<sigma> (Produce t q ms) \<longleftrightarrow>
     list_all small_message ms \<and> length (qu_log \<sigma> (t, q) @ ms) < 2 ^ 64 \<and>
     batch_bytes (qu_log \<sigma> (t, q) @ ms) < 2 ^ 64"
| "queue_admits \<sigma> _ \<longleftrightarrow> True"

section \<open>Runs\<close>

fun queue_step :: "event \<Rightarrow> queue \<Rightarrow> queue" where
  "queue_step (Handle e req) \<sigma> = queue_next e req \<sigma>"
| "queue_step (GroupTick e) \<sigma> = queue_expire e \<sigma>"
| "queue_step (HealthTick e) \<sigma> = \<sigma>"

fun event_env :: "event \<Rightarrow> environment" where
  "event_env (Handle e _) = e"
| "event_env (GroupTick e) = e"
| "event_env (HealthTick e) = e"

fun event_admitted :: "queue \<Rightarrow> event \<Rightarrow> bool" where
  "event_admitted \<sigma> (Handle e req) \<longleftrightarrow> env_ok e \<and> queue_admits \<sigma> req"
| "event_admitted \<sigma> ev \<longleftrightarrow> env_ok (event_env ev)"

fun run_admitted :: "queue \<Rightarrow> event list \<Rightarrow> bool" where
  "run_admitted \<sigma> [] \<longleftrightarrow> True"
| "run_admitted \<sigma> (ev # evs) \<longleftrightarrow> event_admitted \<sigma> ev \<and> run_admitted (queue_step ev \<sigma>) evs"

text \<open>The answers of a run, one for every request, are right answers in the states of the queue.\<close>

fun queue_trace :: "queue \<Rightarrow> event list \<Rightarrow> (request \<times> response outcome) list \<Rightarrow> bool" where
  "queue_trace \<sigma> [] rs \<longleftrightarrow> rs = []"
| "queue_trace \<sigma> (Handle e req # evs) rs \<longleftrightarrow>
     (case rs of
        (req', Ok r) # rest \<Rightarrow> req' = req \<and> queue_answers e \<sigma> req r \<and> queue_trace (queue_next e req \<sigma>) evs rest
      | _ \<Rightarrow> False)"
| "queue_trace \<sigma> (ev # evs) rs \<longleftrightarrow> queue_trace (queue_step ev \<sigma>) evs rs"

lemma queue_trace_Handle:
  "queue_trace \<sigma> (Handle e req # evs) rs \<longleftrightarrow>
     (\<exists>r rest. rs = (req, Ok r) # rest \<and> queue_answers e \<sigma> req r \<and> queue_trace (queue_next e req \<sigma>) evs rest)"
  by (auto split: list.splits outcome.splits)

lemma queue_find_simps [simp]:
  "queue_find (\<sigma>\<lparr>qu_offsets := f\<rparr>) t q = queue_find \<sigma> t q"
  "queue_find (\<sigma>\<lparr>qu_members := ms\<rparr>) t q = queue_find \<sigma> t q"
  "queue_find (\<sigma>\<lparr>qu_brokers := bs\<rparr>) t q = queue_find \<sigma> t q"
  by (simp_all add: queue_find_def split: option.split)

lemma queue_find_not_Panic [simp]: "queue_find \<sigma> t q \<noteq> Panic"
  by (simp add: queue_find_def split: option.split)

lemma queue_find_ok: "queue_find \<sigma> t q = Ok ms \<longleftrightarrow> (\<exists>n. qu_topics \<sigma> t = Some n \<and> q < n \<and> ms = qu_log \<sigma> (t, q))"
  by (auto simp: queue_find_def split: option.splits)

lemma is_ok_queue_find: "is_ok (queue_find \<sigma> t q) \<longleftrightarrow> (\<exists>n. qu_topics \<sigma> t = Some n \<and> q < n)"
  by (auto simp: queue_find_def split: option.splits)

lemma find_member_not_Panic [simp]: "find_member \<sigma> g m \<noteq> Panic"
  by (cases "qu_members \<sigma> g m") (simp_all add: find_member_def)

end
