(* ===== verification/Queue_Relations.thy ===== *)
theory Queue_Relations
  imports Queue_Spec
begin

text \<open>
  When a state of the broker stands for a state of the queue, component by component: the topic
  manager with its partitions, the group coordinator and the cluster metadata; and that every
  operation of a component does to the state of the queue what the request asks for.
\<close>

section \<open>Partitions\<close>

text \<open>A partition with a list of messages, uncompressed as the broker writes it, that takes further ones.\<close>

definition queue_log :: "codecs \<Rightarrow> partition \<Rightarrow> string \<Rightarrow> u32 \<Rightarrow> message list \<Rightarrow> bool" where
  "queue_log C p t q ms \<longleftrightarrow>
     codecs_ok C \<and> part_writable p \<and> sc_compression (p_config p) = CNone \<and>
     p_topic_name p = t \<and> p_partition_id p = q \<and>
     (\<exists>rss. part_rep C p rss \<and> map to_message (concat rss) = ms \<and>
        length (encode_all C (concat rss)) = batch_bytes ms)"

lemma queue_logE:
  assumes "queue_log C p t q ms"
  obtains rss where "codecs_ok C" and "part_writable p" and "sc_compression (p_config p) = CNone"
    and "p_topic_name p = t" and "p_partition_id p = q" and "part_rep C p rss"
    and "map to_message (concat rss) = ms" and "length (encode_all C (concat rss)) = batch_bytes ms"
  using assms by (auto simp: queue_log_def)

lemma queue_log_new:
  assumes "codecs_ok C" and "no_segment_files files"
  shows "queue_log C (partition_new t q d files) t q []"
proof -
  have pos: "0 < sc_max_size segment_config_default"
    by (simp add: segment_config_default_def DEFAULT_MAX_SEGMENT_SIZE_def)
  note new = partition_with_config_rep(1) [OF assms(2) pos, of C t q d] partition_with_config_rep(2) [OF assms(2) pos, of t q d]
  show ?thesis
    unfolding queue_log_def partition_new_def
    using assms(1) new
    by (intro conjI exI [of _ "[[]]"])
      (simp_all add: partition_with_config_def segment_config_default_def batch_bytes_def)
qed

lemma batch_bytes_append [simp]: "batch_bytes (ms @ ms') = batch_bytes ms + batch_bytes ms'"
  by (simp add: batch_bytes_def)

lemma queue_log_append:
  assumes log: "queue_log C p t q ms0" and ms: "ms \<noteq> []" "list_all small_message ms"
    and room: "length (ms0 @ ms) < 2 ^ 64" "batch_bytes (ms0 @ ms) < 2 ^ 64"
  obtains p' where "partition_append C ms p = (p', Ok (of_nat (length ms0)))" and "queue_log C p' t q (ms0 @ ms)"
proof -
  obtain rss where r: "codecs_ok C" "part_writable p" "sc_compression (p_config p) = CNone"
      "p_topic_name p = t" "p_partition_id p = q" "part_rep C p rss"
      "map to_message (concat rss) = ms0" "length (encode_all C (concat rss)) = batch_bytes ms0"
    using log by (rule queue_logE)
  have len: "length (concat rss) = length ms0" using r(7) by (metis length_map)
  have acc: "part_accepts C p ms"
    using room len r(8) by (intro part_accepts_plain [OF r(6,2,3) ms]) simp_all
  obtain p' rss' new where p': "partition_append C ms p = (p', Ok (of_nat (length (concat rss))))"
      "part_rep C p' rss'" "part_writable p'" "concat rss' = concat rss @ new"
      "map to_message new = ms" "p_topic_name p' = p_topic_name p"
      "p_partition_id p' = p_partition_id p" "p_config p' = p_config p"
      "new = records_for (p_config p) (of_nat (length (concat rss))) ms"
    by (rule partition_append_correct [OF r(6,2) acc])
  have "length (encode_all C new) = batch_bytes ms"
    unfolding p'(9) by (rule plain_records(2) [OF r(3) ms(2)])
  then have "queue_log C p' t q (ms0 @ ms)"
    unfolding queue_log_def using r p'(2-8) by (intro conjI exI [of _ rss']) simp_all
  then show thesis using p'(1) len by (intro that) simp_all
qed

lemma queue_log_empty_batch:
  "partition_append C [] p = (p, Err (InvalidMessage ''No messages to append''))"
  by (simp add: partition_append_def)

lemma queue_log_part_log: "queue_log C p t q ms \<Longrightarrow> part_log C p (history t q ms)"
  by (erule queue_logE) (auto simp: part_log_def to_record_history)

section \<open>Topics\<close>

definition stored :: "codecs \<Rightarrow> string \<Rightarrow> u32 \<Rightarrow> message list outcome \<Rightarrow> partition outcome \<Rightarrow> bool" where
  "stored C t q log part \<longleftrightarrow>
     (case log of Ok ms \<Rightarrow> (\<exists>p. part = Ok p \<and> queue_log C p t q ms) | Err e \<Rightarrow> part = Err e | Panic \<Rightarrow> False)"

text \<open>The directories of names that are not topics have no log files.\<close>

definition disk_unused :: "topic_manager \<Rightarrow> string \<Rightarrow> bool" where
  "disk_unused tm t \<longleftrightarrow>
     (\<forall>q. no_segment_files (dir_of (case hm_get (tm_disk tm) t of None \<Rightarrow> [] | Some dirs \<Rightarrow> dirs) q))"

definition topics_rel :: "codecs \<Rightarrow> topic_manager \<Rightarrow> queue \<Rightarrow> bool" where
  "topics_rel C tm \<sigma> \<longleftrightarrow>
     codecs_ok C \<and> hm_ok (tm_topics tm) \<and>
     (\<forall>t. qu_topics \<sigma> t = map_option num_partitions (hm_get (tm_topics tm) t)) \<and>
     (\<forall>t q. stored C t q (queue_find \<sigma> t q) (find_partition tm t q)) \<and>
     (\<forall>t. qu_topics \<sigma> t = None \<longrightarrow> disk_unused tm t)"

lemma topics_relD:
  assumes "topics_rel C tm \<sigma>"
  shows "codecs_ok C" and "hm_ok (tm_topics tm)"
    and "qu_topics \<sigma> t = map_option num_partitions (hm_get (tm_topics tm) t)"
    and "stored C t q (queue_find \<sigma> t q) (find_partition tm t q)"
    and "qu_topics \<sigma> t = None \<Longrightarrow> disk_unused tm t"
  using assms by (simp_all add: topics_rel_def)

lemma topics_rel_found:
  assumes "topics_rel C tm \<sigma>" and "queue_find \<sigma> t q = Ok ms"
  obtains p where "find_partition tm t q = Ok p" and "queue_log C p t q ms"
  using topics_relD(4) [OF assms(1), of t q] assms(2) by (auto simp: stored_def)

lemma topics_rel_missing:
  assumes "topics_rel C tm \<sigma>" and "queue_find \<sigma> t q = Err e"
  shows "find_partition tm t q = Err e"
  using topics_relD(4) [OF assms(1), of t q] assms(2) by (simp add: stored_def)

lemma topics_rel_cong:
  "qu_topics \<sigma>' = qu_topics \<sigma> \<Longrightarrow> qu_log \<sigma>' = qu_log \<sigma> \<Longrightarrow> topics_rel C tm \<sigma>' = topics_rel C tm \<sigma>"
  by (simp add: topics_rel_def queue_find_def cong: option.case_cong if_cong)

lemma topics_create_old:
  assumes "topics_rel C tm \<sigma>" and "qu_topics \<sigma> t \<noteq> None"
  shows "create_topic t n tm = (tm, Err (InvalidMessage (''Topic '' @ [CHR 0x27] @ t @ [CHR 0x27] @ '' already exists'')))"
  using topics_relD(3) [OF assms(1), of t] assms(2) by (simp add: create_topic_def)

lemma topics_create_new:
  assumes rel: "topics_rel C tm \<sigma>" and new: "qu_topics \<sigma> t = None"
  obtains tm' to where "create_topic t n tm = (tm', Ok to)"
    and "topics_rel C tm' (queue_next e (CreateTopic t n) \<sigma>)"
proof -
  have none: "hm_get (tm_topics tm) t = None" using topics_relD(3) [OF rel, of t] new by simp
  let ?dirs = "case hm_get (tm_disk tm) t of None \<Rightarrow> [] | Some dirs \<Rightarrow> dirs"
  obtain tm' to where c: "create_topic t n tm = (tm', Ok to)" "num_partitions to = n"
      "\<And>t' q. t' \<noteq> t \<Longrightarrow> find_partition tm' t' q = find_partition tm t' q"
      "\<And>q. q < n \<Longrightarrow> find_partition tm' t q = Ok (partition_new t q (tm_data_dir tm) (dir_of ?dirs q))"
      "\<And>q. \<not> q < n \<Longrightarrow> find_partition tm' t q = Err (PartitionNotFound t q)"
    by (rule create_topic_find [OF none, of n]) (rule that)
  have tm': "tm_topics tm' = hm_insert t to (tm_topics tm)" "tm_disk tm' = hm_remove t (tm_disk tm)"
    using c(1) none by (auto simp: create_topic_def Let_def)
  have log: "queue_log C (partition_new t q (tm_data_dir tm) (dir_of ?dirs q)) t q []" for q
    using topics_relD(1,5) [OF rel] new by (intro queue_log_new) (simp_all add: disk_unused_def)
  let ?\<sigma> = "queue_next e (CreateTopic t n) \<sigma>"
  have "stored C t' q (queue_find ?\<sigma> t' q) (find_partition tm' t' q)" for t' q
  proof (cases "t' = t")
    case True
    then show ?thesis
      using c(4,5) log new by (cases "q < n") (auto simp: stored_def queue_find_def)
  next
    case False
    then have "queue_find ?\<sigma> t' q = queue_find \<sigma> t' q" using new by (simp add: queue_find_def split: option.split)
    then show ?thesis using topics_relD(4) [OF rel] c(3) [OF False] by simp
  qed
  moreover have "qu_topics ?\<sigma> t' = map_option num_partitions (hm_get (tm_topics tm') t')" for t'
    using new c(2) topics_relD(3) [OF rel, of t'] by (simp add: tm'(1) hashmap_simps)
  moreover have "qu_topics ?\<sigma> t' = None \<Longrightarrow> disk_unused tm' t'" for t'
    using new topics_relD(5) [OF rel, of t'] by (auto simp: disk_unused_def tm'(2) hashmap_simps)
  ultimately have "topics_rel C tm' ?\<sigma>"
    using topics_relD(1,2) [OF rel] by (simp add: topics_rel_def tm'(1))
  with c(1) show thesis by (rule that)
qed

lemma tm_append_frame:
  shows "tm_disk (fst (tm_append C t q ms tm)) = tm_disk tm"
    and "map_option num_partitions (hm_get (tm_topics (fst (tm_append C t q ms tm))) t') =
         map_option num_partitions (hm_get (tm_topics tm) t')"
    and "hm_ok (tm_topics tm) \<Longrightarrow> hm_ok (tm_topics (fst (tm_append C t q ms tm)))"
proof -
  have "num_partitions (fst (topic_append C q ms to)) = num_partitions to" for to
    by (simp add: topic_append_def num_partitions_def split: outcome.split prod.split)
  then show "map_option num_partitions (hm_get (tm_topics (fst (tm_append C t q ms tm))) t') =
      map_option num_partitions (hm_get (tm_topics tm) t')"
    by (cases "hm_get (tm_topics tm) t")
      (auto simp: tm_append_def get_topic_def put_topic_def hashmap_simps case_prod_beta Let_def)
qed (cases "hm_get (tm_topics tm) t"; simp add: tm_append_def get_topic_def put_topic_def case_prod_beta Let_def)+

text \<open>A produce request extends the log of its partition or reports why it cannot.\<close>

lemma topics_append:
  assumes rel: "topics_rel C tm \<sigma>" and room: "queue_admits \<sigma> (Produce t q ms)"
  shows "topics_rel C (fst (tm_append C t q ms tm)) (queue_next e (Produce t q ms) \<sigma>)"
    and "snd (tm_append C t q ms tm) =
           (case queue_find \<sigma> t q of
              Ok log \<Rightarrow> if ms = [] then Err (InvalidMessage ''No messages to append'') else Ok (of_nat (length log))
            | Err er \<Rightarrow> Err er | Panic \<Rightarrow> Panic)"
proof -
  let ?\<sigma> = "queue_next e (Produce t q ms) \<sigma>" and ?tm = "fst (tm_append C t q ms tm)"
  have frame: "topics_rel C ?tm ?\<sigma>"
    if "\<And>t' q'. stored C t' q' (queue_find ?\<sigma> t' q') (find_partition ?tm t' q')"
    using that topics_relD(1-3,5) [OF rel] tm_append_frame
    by (simp add: topics_rel_def disk_unused_def)
  have "topics_rel C ?tm ?\<sigma> \<and> snd (tm_append C t q ms tm) =
      (case queue_find \<sigma> t q of
         Ok log \<Rightarrow> if ms = [] then Err (InvalidMessage ''No messages to append'') else Ok (of_nat (length log))
       | Err er \<Rightarrow> Err er | Panic \<Rightarrow> Panic)"
  proof (cases "queue_find \<sigma> t q")
    case (Ok log)
    obtain p where p: "find_partition tm t q = Ok p" "queue_log C p t q log"
      by (rule topics_rel_found [OF rel Ok])
    obtain p' r where app: "partition_append C ms p = (p', r)" "queue_log C p' t q (log @ ms)"
        "r = (if ms = [] then Err (InvalidMessage ''No messages to append'') else Ok (of_nat (length log)))"
    proof (cases "ms = []")
      case True
      then show thesis using p(2) by (intro that [OF queue_log_empty_batch [of C p, folded True]]) simp_all
    next
      case False
      have "log = qu_log \<sigma> (t, q)" using Ok by (auto simp: queue_find_ok)
      then obtain p' where "partition_append C ms p = (p', Ok (of_nat (length log)))" "queue_log C p' t q (log @ ms)"
        using queue_log_append [OF p(2) False] room by auto
      then show thesis using False by (intro that) simp_all
    qed
    obtain tm' where tm': "tm_append C t q ms tm = (tm', r)"
        "\<And>t' q'. find_partition tm' t' q' = (if t' = t \<and> q' = q then Ok p' else find_partition tm t' q')"
      by (rule tm_append_find [OF p(1) app(1)]) (rule that)
    have "queue_find ?\<sigma> t' q' = (if t' = t \<and> q' = q then Ok (log @ ms) else queue_find \<sigma> t' q')" for t' q'
      using Ok by (auto simp: queue_find_def split: option.splits if_splits)
    then have "stored C t' q' (queue_find ?\<sigma> t' q') (find_partition ?tm t' q')" for t' q'
      using topics_relD(4) [OF rel, of t' q'] tm' app(2) by (simp add: stored_def)
    then show ?thesis using frame tm'(1) app(3) Ok by simp
  next
    case (Err er)
    have miss: "find_partition tm t q = Err er" by (rule topics_rel_missing [OF rel Err])
    have app: "snd (tm_append C t q ms tm) = Err er"
      using miss by (cases "hm_get (tm_topics tm) t")
        (auto simp: tm_append_def find_partition_def get_topic_def topic_append_def case_prod_beta Let_def)
    have "find_partition ?tm t' q' = find_partition tm t' q'" for t' q'
    proof (cases "hm_get (tm_topics tm) t")
      case None
      then show ?thesis by (simp add: tm_append_def get_topic_def)
    next
      case (Some to)
      then have "topic_append C q ms to = (to, Err er)"
        using miss by (auto simp: find_partition_def get_topic_def topic_append_def)
      then show ?thesis
        using Some by (simp add: tm_append_def get_topic_def put_topic_def find_partition_def hashmap_simps)
    qed
    moreover have "?\<sigma> = \<sigma>" using Err by simp
    ultimately have "topics_rel C ?tm ?\<sigma>" using topics_relD(4) [OF rel] by (intro frame) simp
    then show ?thesis using app Err by simp
  qed simp
  then show "topics_rel C ?tm ?\<sigma>" and "snd (tm_append C t q ms tm) =
      (case queue_find \<sigma> t q of
         Ok log \<Rightarrow> if ms = [] then Err (InvalidMessage ''No messages to append'') else Ok (of_nat (length log))
       | Err er \<Rightarrow> Err er | Panic \<Rightarrow> Panic)"
    by blast+
qed

lemma topics_fetch:
  assumes "topics_rel C tm \<sigma>"
  shows "tm_fetch C tm t q off n = queue_slice \<sigma> t q off n"
proof (cases "queue_find \<sigma> t q")
  case (Ok ms)
  obtain p where "find_partition tm t q = Ok p" "queue_log C p t q ms"
    by (rule topics_rel_found [OF assms Ok])
  then show ?thesis
    using Ok part_log_fetch [OF queue_log_part_log] by (simp add: tm_fetch_find queue_slice_def)
next
  case (Err er)
  then show ?thesis
    using topics_rel_missing [OF assms Err] by (simp add: tm_fetch_find queue_slice_def)
qed simp

lemma topics_get:
  assumes "topics_rel C tm \<sigma>"
  shows "get_topic tm t = Ok to \<Longrightarrow> qu_topics \<sigma> t = Some (num_partitions to)"
    and "qu_topics \<sigma> t = None \<longleftrightarrow> get_topic tm t = Err (TopicNotFound t)"
  using topics_relD(3) [OF assms, of t] by (cases "hm_get (tm_topics tm) t"; simp add: get_topic_def)+

section \<open>Groups\<close>

text \<open>What a group tells of its members: their topics and their last sign of life.\<close>

definition group_info :: "consumer_group \<Rightarrow> string \<rightharpoonup> string list \<times> nat" where
  "group_info g k = map_option (\<lambda>m. (gm_topics m, gm_last_heartbeat m)) (hm_get (cg_members g) k)"

definition member_info :: "group_coordinator \<Rightarrow> string \<Rightarrow> string \<rightharpoonup> string list \<times> nat" where
  "member_info gc gid = (case hm_get (gc_groups gc) gid of None \<Rightarrow> Map.empty | Some g \<Rightarrow> group_info g)"

lemma group_info_rebalance:
  assumes "hm_ok (cg_members g)" and "is_order mord"
  shows "group_info (rebalance tord mord tps g) = group_info g"
proof
  fix k
  show "group_info (rebalance tord mord tps g) k = group_info g k"
  proof (cases "hm_get (cg_members (rebalance tord mord tps g)) k")
    case None
    then have "k \<notin> set (hm_keys (cg_members g))"
      using rebalance_members(1) [OF assms, of tord tps] by (metis hm_keys_def map_of_eq_None_iff set_map)
    then have "hm_get (cg_members g) k = None" by (auto simp: hm_keys_def map_of_eq_None_iff)
    with None show ?thesis by (simp add: group_info_def)
  next
    case (Some m)
    obtain m0 where "hm_get (cg_members g) k = Some m0"
        "gm_topics m = gm_topics m0 \<and> gm_last_heartbeat m = gm_last_heartbeat m0"
      by (rule rebalance_getE [OF assms Some]) simp
    then show ?thesis by (simp add: group_info_def Some)
  qed
qed

lemma group_info_empty: "cg_members g \<noteq> [] \<Longrightarrow> group_info g \<noteq> Map.empty"
  by (cases "cg_members g") (auto simp: group_info_def fun_eq_iff intro!: exI [of _ "fst (hd (cg_members g))"])

lemma member_info_put: "member_info (put_group gid g gc) gid' = (if gid' = gid then group_info g else member_info gc gid')"
  by (simp add: member_info_def put_group_def hashmap_simps)

lemma member_info_empty: "coord_ok gc \<Longrightarrow> member_info gc gid = Map.empty \<longleftrightarrow> hm_get (gc_groups gc) gid = None"
  by (cases "hm_get (gc_groups gc) gid") (auto simp: member_info_def coord_okD group_info_empty)

definition groups_rel :: "group_coordinator \<Rightarrow> queue \<Rightarrow> bool" where
  "groups_rel gc \<sigma> \<longleftrightarrow>
     coord_ok gc \<and> gc_heartbeat_timeout gc = 30000 \<and> (\<forall>gid. member_info gc gid = qu_members \<sigma> gid) \<and>
     (\<forall>t n. hm_get (gc_topic_partitions gc) t = Some n \<longrightarrow> qu_topics \<sigma> t = Some n)"

lemma groups_relD:
  assumes "groups_rel gc \<sigma>"
  shows "coord_ok gc" and "gc_heartbeat_timeout gc = 30000" and "qu_members \<sigma> gid = member_info gc gid"
    and "hm_get (gc_topic_partitions gc) t = Some n \<Longrightarrow> qu_topics \<sigma> t = Some n"
  using assms by (simp_all add: groups_rel_def)

lemma groups_rel_cong:
  "qu_members \<sigma>' = qu_members \<sigma> \<Longrightarrow> qu_topics \<sigma>' = qu_topics \<sigma> \<Longrightarrow> groups_rel gc \<sigma>' = groups_rel gc \<sigma>"
  by (simp add: groups_rel_def)

text \<open>A request looks a member up the way the queue does.\<close>

lemma find_member_groups:
  assumes "groups_rel gc \<sigma>"
  shows "find_member \<sigma> gid mid =
           (case hm_get (gc_groups gc) gid of
              None \<Rightarrow> Err (GroupNotFound gid)
            | Some g \<Rightarrow> ok_or (group_info g mid) (ConsumerNotFound mid))"
  using member_info_empty [OF groups_relD(1) [OF assms], of gid]
  by (auto simp: find_member_def groups_relD(3) [OF assms] member_info_def split: option.split)

lemma groups_heartbeat:
  assumes rel: "groups_rel gc \<sigma>"
  shows "groups_rel (fst (coordinator_heartbeat (env_now e) gid mid gc)) (queue_next e (Heartbeat gid mid) \<sigma>)"
    and "snd (coordinator_heartbeat (env_now e) gid mid gc) = and_then (find_member \<sigma> gid mid) (\<lambda>_. Ok False)"
proof -
  let ?gc = "fst (coordinator_heartbeat (env_now e) gid mid gc)"
  have fields: "gc_heartbeat_timeout ?gc = gc_heartbeat_timeout gc" "gc_topic_partitions ?gc = gc_topic_partitions gc"
    by (simp_all add: coordinator_heartbeat_def put_group_def split: option.split outcome.split prod.split)
  have "member_info ?gc g k = qu_members (queue_next e (Heartbeat gid mid) \<sigma>) g k" for g k
    by (auto simp: coordinator_heartbeat_def group_heartbeat_def groups_relD(3) [OF rel] put_group_def
        hashmap_simps member_info_def group_info_def split: option.split)
  then show "groups_rel ?gc (queue_next e (Heartbeat gid mid) \<sigma>)"
    using groups_relD(2,4) [OF rel] heartbeat_ok [OF groups_relD(1) [OF rel]] fields
    by (auto simp: groups_rel_def fun_eq_iff)
  show "snd (coordinator_heartbeat (env_now e) gid mid gc) = and_then (find_member \<sigma> gid mid) (\<lambda>_. Ok False)"
    by (auto simp: coordinator_heartbeat_def group_heartbeat_def find_member_groups [OF rel] group_info_def
        split: option.split)
qed

lemma groups_leave:
  assumes rel: "groups_rel gc \<sigma>" and ord: "is_order tord" "is_order mord"
  shows "groups_rel (fst (leave_group tord mord gid mid gc)) (queue_next e (LeaveGroup gid mid) \<sigma>)"
    and "snd (leave_group tord mord gid mid gc) = and_then (find_member \<sigma> gid mid) (\<lambda>_. Ok ())"
proof -
  let ?gc = "fst (leave_group tord mord gid mid gc)"
  have fields: "gc_heartbeat_timeout ?gc = gc_heartbeat_timeout gc" "gc_topic_partitions ?gc = gc_topic_partitions gc"
    by (simp_all add: leave_group_def put_group_def split: option.split outcome.split prod.split)
  have "member_info ?gc g k = qu_members (queue_next e (LeaveGroup gid mid) \<sigma>) g k" for g k
  proof (cases "hm_get (gc_groups gc) gid")
    case None
    then show ?thesis by (simp add: leave_group_def groups_relD(3) [OF rel]) (simp add: member_info_def)
  next
    case (Some c)
    let ?c = "c\<lparr>cg_members := hm_remove mid (cg_members c)\<rparr>"
    have ok: "hm_ok (cg_members ?c)" using coord_okD(1) [OF groups_relD(1) [OF rel] Some] by simp
    have info: "group_info ?c k = (if k = mid then None else group_info c k)" for k
      by (simp add: group_info_def hashmap_simps)
    have left: "member_info ?gc g = (if g = gid then group_info ?c else member_info gc g)"
    proof (cases "hm_get (cg_members c) mid")
      case None
      then have "group_info ?c = group_info c" by (simp add: delete_id map_of_eq_None_iff)
      then show ?thesis using None Some by (simp add: leave_group_def remove_member_def) (simp add: member_info_def)
    next
      case (Some m)
      show ?thesis
      proof (cases "cg_members ?c = []")
        case True
        then have "group_info ?c = Map.empty" by (simp add: group_info_def fun_eq_iff)
        then show ?thesis
          using True Some \<open>hm_get (gc_groups gc) gid = Some c\<close>
          by (simp add: leave_group_def remove_member_def member_info_def hashmap_simps)
      next
        case False
        then show ?thesis
          using Some \<open>hm_get (gc_groups gc) gid = Some c\<close> group_info_rebalance [OF ok ord(2)]
          by (simp add: leave_group_def remove_member_def member_info_put)
      qed
    qed
    show ?thesis
      using Some by (simp add: left info groups_relD(3) [OF rel]) (simp add: member_info_def)
  qed
  then show "groups_rel ?gc (queue_next e (LeaveGroup gid mid) \<sigma>)"
    using groups_relD(2,4) [OF rel] leave_group_ok [OF groups_relD(1) [OF rel] ord] fields
    by (auto simp: groups_rel_def fun_eq_iff)
  show "snd (leave_group tord mord gid mid gc) = and_then (find_member \<sigma> gid mid) (\<lambda>_. Ok ())"
    by (auto simp: leave_group_def remove_member_def find_member_groups [OF rel] group_info_def
        split: option.split)
qed

lemma groups_expire:
  assumes rel: "groups_rel gc \<sigma>" and ord: "is_order gord" "is_order tord" "is_order mord"
  shows "groups_rel (check_heartbeats gord tord mord (env_clock e) gc) (queue_expire e \<sigma>)"
proof -
  let ?gc = "check_heartbeats gord tord mord (env_clock e) gc"
  have ok: "coord_ok gc" by (rule groups_relD(1) [OF rel])
  have fields: "gc_heartbeat_timeout ?gc = gc_heartbeat_timeout gc" "gc_topic_partitions ?gc = gc_topic_partitions gc"
    by (simp_all add: check_heartbeats_def Let_def)
  have "member_info ?gc g k = qu_members (queue_expire e \<sigma>) g k" for g k
  proof (cases "hm_get (gc_groups gc) g")
    case None
    then have "hm_get (gc_groups ?gc) g = None"
      using check_heartbeats_get [OF _ _ ord(1,3), of gc tord] ok by (simp add: coord_ok_def)
    then show ?thesis using None groups_relD(3) [OF rel] by (simp add: queue_expire_def member_info_def)
  next
    case (Some c)
    let ?d = "drop_dead (env_clock e g) 30000 c"
    have c: "hm_ok (cg_members c)" by (rule coord_okD(1) [OF ok Some])
    have get: "hm_get (gc_groups ?gc) g =
        checked_group tord mord (gc_topic_partitions gc) (env_clock e g) 30000 c"
      using check_heartbeats_get [OF _ _ ord(1,3), of gc tord "env_clock e" g] ok Some groups_relD(2) [OF rel]
      by (simp add: coord_ok_def)
    have d: "group_info ?d k = (case group_info c k of
        None \<Rightarrow> None | Some (ts, h) \<Rightarrow> if env_clock e g - h > 30000 then None else Some (ts, h))"
      using drop_dead_get [OF c] by (auto simp: group_info_def split: option.split)
    have "member_info ?gc g k = group_info ?d k"
      using group_info_rebalance [OF drop_dead_ok [OF c] ord(3), of tord "gc_topic_partitions gc" "env_clock e g" 30000]
      by (auto simp: member_info_def get checked_group_def Let_def drop_dead_none group_info_def)
    then show ?thesis
      using d Some groups_relD(3) [OF rel] by (simp add: queue_expire_def member_info_def split: option.split prod.split)
  qed
  moreover have "coord_ok ?gc" using check_heartbeats_ok [OF ok ord] .
  moreover have "qu_topics (queue_expire e \<sigma>) = qu_topics \<sigma>" by (simp add: queue_expire_def)
  ultimately show ?thesis
    using groups_relD(2,4) [OF rel] fields by (auto simp: groups_rel_def fun_eq_iff)
qed

lemma groups_learn:
  assumes "topics_rel C tm \<sigma>" and "groups_rel gc \<sigma>"
  shows "groups_rel (learn_partitions tm ts gc) \<sigma>"
  using assms(2)
proof (induction ts arbitrary: gc)
  case (Cons t ts)
  have "groups_rel (case get_topic tm t of Ok to \<Rightarrow> update_topic_partitions t (num_partitions to) gc | _ \<Rightarrow> gc) \<sigma>"
    using Cons.prems topics_get(1) [OF assms(1), of t]
    by (auto simp: groups_rel_def update_topic_partitions_ok member_info_def hashmap_simps
        split: outcome.split) (auto simp: update_topic_partitions_def hashmap_simps member_info_def split: if_splits)
  then show ?case by (simp add: Cons.IH)
qed simp

text \<open>Who joins is told partitions that exist, of topics that its group asks for, none twice.\<close>

lemma groups_join:
  assumes rel: "groups_rel gc \<sigma>" and ord: "is_order tord" "is_order mord"
  obtains gc' asg where
    "join_group tord mord (env_now e) (env_uuid e) gid mid ts gc = (gc', Ok (member_name e gid mid, asg))"
    and "groups_rel gc' (queue_next e (JoinGroup gid mid ts) \<sigma>)" and "distinct asg"
    and "\<forall>a \<in> set asg. is_ok (queue_find \<sigma> (pa_topic a) (pa_partition a)) \<and>
           (\<exists>k ts' h. qu_members (queue_next e (JoinGroup gid mid ts) \<sigma>) gid k = Some (ts', h) \<and> pa_topic a \<in> set ts')"
proof -
  let ?m = "member_name e gid mid" and ?\<sigma> = "queue_next e (JoinGroup gid mid ts) \<sigma>"
  let ?old = "case hm_get (gc_groups gc) gid of Some g \<Rightarrow> g | None \<Rightarrow> consumer_group_new gid"
  let ?g = "add_member \<lparr>gm_member_id = ?m, gm_topics = ts, gm_last_heartbeat = env_now e, gm_assignments = []\<rparr> ?old"
  let ?g' = "rebalance tord mord (gc_topic_partitions gc) ?g"
  let ?gc = "put_group gid ?g' gc"
  let ?asg = "case hm_get (cg_members ?g') ?m of Some x \<Rightarrow> gm_assignments x | None \<Rightarrow> []"
  have join: "join_group tord mord (env_now e) (env_uuid e) gid mid ts gc = (?gc, Ok (?m, ?asg))"
    by (simp add: join_group_def member_name_def Let_def)
  have "hm_ok (cg_members ?old)"
    using coord_okD(1) [OF groups_relD(1) [OF rel]] by (simp add: consumer_group_new_def split: option.split)
  then have g: "hm_ok (cg_members ?g)" by (simp add: add_member_def)
  have info: "group_info ?g = (qu_members \<sigma> gid)(?m \<mapsto> (ts, env_now e))"
    by (auto simp: fun_eq_iff group_info_def add_member_def hashmap_simps groups_relD(3) [OF rel] member_info_def
        consumer_group_new_def split: option.split)
  have "member_info ?gc g' = qu_members ?\<sigma> g'" for g'
    using group_info_rebalance [OF g ord(2)] by (simp add: member_info_put info groups_relD(3) [OF rel])
  moreover have "coord_ok ?gc"
    using join_group_ok [OF groups_relD(1) [OF rel] ord, of "env_now e" "env_uuid e" gid mid ts] by (simp add: join)
  ultimately have rel': "groups_rel ?gc ?\<sigma>"
    using groups_relD(2,4) [OF rel] by (simp add: groups_rel_def) (simp add: put_group_def)
  have dist: "distinct ?asg"
    using rebalance_exclusive [OF g ord] by (auto simp: exclusive_def split: option.split)
  have told: "is_ok (queue_find \<sigma> (pa_topic a) (pa_partition a)) \<and>
      (\<exists>k ts' h. qu_members ?\<sigma> gid k = Some (ts', h) \<and> pa_topic a \<in> set ts')" if a: "a \<in> set ?asg" for a
  proof -
    obtain x where x: "hm_get (cg_members ?g') ?m = Some x" "a \<in> set (gm_assignments x)"
      by (cases "hm_get (cg_members ?g') ?m") (use a in auto)
    obtain k where "gm_assignments x =
        share (length (cg_members ?g)) 0 k (all_partitions tord (gc_topic_partitions gc) (cg_members ?g))"
      by (rule rebalance_share [OF g ord(2) x(1)])
    then have "a \<in> set (all_partitions tord (gc_topic_partitions gc) (cg_members ?g))"
      using x(2) by (auto simp: in_share_iff)
    then obtain k y n where "(k, y) \<in> set (cg_members ?g)" "pa_topic a \<in> set (gm_topics y)"
        "hm_get (gc_topic_partitions gc) (pa_topic a) = Some n" "pa_partition a < n"
      by (auto simp: in_all_partitions_iff [OF ord(1)])
    moreover have info_k: "group_info ?g k = Some (gm_topics y, gm_last_heartbeat y)"
      using hm_get_eq_Some [OF g, of k y] calculation(1) by (simp add: group_info_def)
    moreover have "qu_members ?\<sigma> gid k = Some (gm_topics y, gm_last_heartbeat y)"
      using info_k unfolding info by simp
    ultimately show ?thesis using groups_relD(4) [OF rel] unfolding is_ok_queue_find by blast
  qed
  show thesis by (rule that [OF join rel' dist]) (use told in blast)
qed

section \<open>The cluster\<close>

definition states_named :: "cluster_metadata \<Rightarrow> bool" where
  "states_named cm \<longleftrightarrow>
     hm_ok (cm_partition_states cm) \<and>
     (\<forall>k s. hm_get (cm_partition_states cm) k = Some s \<longrightarrow> (prs_topic s, prs_partition s) = k)"

definition has_state :: "cluster_metadata \<Rightarrow> string \<times> u32 \<Rightarrow> bool" where
  "has_state cm k \<longleftrightarrow> hm_get (cm_partition_states cm) k \<noteq> None"

definition broker_entry :: "u32 \<Rightarrow> string \<times> u16 \<times> nat \<Rightarrow> broker_info" where
  "broker_entry i x = (case x of (host, port, h) \<Rightarrow> broker_info_new h i host port)"

definition cluster_rel :: "cluster_metadata \<Rightarrow> queue \<Rightarrow> bool" where
  "cluster_rel cm \<sigma> \<longleftrightarrow>
     states_named cm \<and> (\<forall>t q. has_state cm (t, q) = is_ok (queue_find \<sigma> t q)) \<and>
     hm_ok (cm_brokers cm) \<and> cm_broker_timeout cm = 30000 \<and>
     (\<forall>i. hm_get (cm_brokers cm) i = map_option (broker_entry i) (qu_brokers \<sigma> i))"

lemma cluster_relD:
  assumes "cluster_rel cm \<sigma>"
  shows "states_named cm" and "has_state cm (t, q) = is_ok (queue_find \<sigma> t q)" and "hm_ok (cm_brokers cm)"
    and "cm_broker_timeout cm = 30000" and "hm_get (cm_brokers cm) i = map_option (broker_entry i) (qu_brokers \<sigma> i)"
  using assms by (simp_all add: cluster_rel_def)

text \<open>Progress reports and failures change the state of a partition, not which partitions have one.\<close>

definition same_places :: "cluster_metadata \<Rightarrow> cluster_metadata \<Rightarrow> bool" where
  "same_places cm cm' \<longleftrightarrow>
     states_named cm' \<and> (\<forall>k. has_state cm' k = has_state cm k) \<and> cm_brokers cm' = cm_brokers cm \<and>
     cm_broker_timeout cm' = cm_broker_timeout cm"

lemma same_places_trans: "same_places cm cm' \<Longrightarrow> same_places cm' cm'' \<Longrightarrow> same_places cm cm''"
  by (simp add: same_places_def)

lemma same_places_refl: "states_named cm \<Longrightarrow> same_places cm cm"
  by (simp add: same_places_def)

lemma cluster_rel_same: "cluster_rel cm \<sigma> \<Longrightarrow> same_places cm cm' \<Longrightarrow> cluster_rel cm' \<sigma>"
  by (simp add: cluster_rel_def same_places_def)

lemma cluster_rel_cong:
  "qu_topics \<sigma>' = qu_topics \<sigma> \<Longrightarrow> qu_brokers \<sigma>' = qu_brokers \<sigma> \<Longrightarrow> cluster_rel cm \<sigma>' = cluster_rel cm \<sigma>"
  by (simp add: cluster_rel_def is_ok_queue_find)

lemma progress_same_places: "states_named cm \<Longrightarrow> same_places cm (cm_update_replica_offset t p b off cm)"
  by (auto simp: same_places_def states_named_def has_state_def cm_update_replica_offset_def hashmap_simps frame_simps
      split: option.split)

lemma failure_same_places: "states_named cm \<Longrightarrow> same_places cm (fst (handle_broker_failure pord iord b cm))"
  by (auto simp: same_places_def states_named_def has_state_def handle_broker_failure_def Let_def hm_get_map frame_simps)

lemma health_loop_same_places: "states_named cm \<Longrightarrow> same_places cm (health_loop pord iord ids ss cm)"
proof (induction ss arbitrary: cm)
  case (Cons s ss)
  let ?cm = "if prs_leader s \<notin> set ids then fst (handle_broker_failure pord iord (prs_leader s) cm) else cm"
  have "same_places cm ?cm" using failure_same_places [OF Cons.prems] same_places_refl [OF Cons.prems] by simp
  moreover have "same_places ?cm (health_loop pord iord ids ss ?cm)"
    using calculation by (intro Cons.IH) (simp add: same_places_def)
  ultimately show ?case unfolding health_loop.simps by (rule same_places_trans)
qed (simp add: same_places_refl)

lemma cluster_health:
  assumes "cluster_rel cm \<sigma>"
  shows "cluster_rel (check_broker_health bord pord iord now cm) \<sigma>"
  unfolding check_broker_health_def
  by (rule cluster_rel_same [OF assms]) (rule health_loop_same_places [OF cluster_relD(1) [OF assms]])

lemma cluster_register:
  assumes "cluster_rel cm \<sigma>"
  shows "cluster_rel (register_broker (broker_info_new (env_now e) i host port) cm)
           (queue_next e (RegisterBroker i host port) \<sigma>)"
  using assms
  by (auto simp: cluster_rel_def register_broker_def states_named_def has_state_def hashmap_simps broker_info_new_def
      broker_entry_def)

text \<open>Placement never fails with a positive replication factor, and gives every new partition a state.\<close>

lemma set_replicas_states:
  assumes "states_named cm"
  shows "states_named (set_partition_replicas t p l rs cm)"
    and "has_state (set_partition_replicas t p l rs cm) k \<longleftrightarrow> k = (t, p) \<or> has_state cm k"
    and "cm_brokers (set_partition_replicas t p l rs cm) = cm_brokers cm"
    and "cm_broker_timeout (set_partition_replicas t p l rs cm) = cm_broker_timeout cm"
  using assms
  by (auto simp: states_named_def has_state_def set_partition_replicas_def hashmap_simps prs_new_def
      split: option.split)

lemma assign_replicas_total:
  assumes "states_named cm" and "0 < rm_replication_factor rm" and "is_order (env_brokers e)"
  obtains cm' where "assign_replicas e rm t ps cm = Ok cm'" and "states_named cm'"
    and "\<forall>k. has_state cm' k \<longleftrightarrow> (fst k = t \<and> snd k \<in> set ps) \<or> has_state cm k"
    and "cm_brokers cm' = cm_brokers cm" and "cm_broker_timeout cm' = cm_broker_timeout cm"
proof -
  have "\<exists>cm'. assign_replicas e rm t ps cm = Ok cm' \<and> states_named cm' \<and>
      (\<forall>k. has_state cm' k \<longleftrightarrow> (fst k = t \<and> snd k \<in> set ps) \<or> has_state cm k) \<and>
      cm_brokers cm' = cm_brokers cm \<and> cm_broker_timeout cm' = cm_broker_timeout cm"
    using assms(1)
  proof (induction ps arbitrary: cm)
    case (Cons p ps)
    obtain l rs where a: "assign_partition_replicas (env_brokers e) (env_now e) rm cm p = Ok (l, rs)"
    proof (cases "get_alive_brokers (env_brokers e) (env_now e) cm = []")
      case True
      then show thesis by (intro that) (simp add: assign_partition_replicas_def)
    next
      case False
      then have "0 < min (unat (rm_replication_factor rm)) (length (get_alive_brokers (env_brokers e) (env_now e) cm))"
        using assms(2) by (simp add: word_less_nat_alt)
      then show thesis
        using False by (cases "map (\<lambda>i. bi_id (get_alive_brokers (env_brokers e) (env_now e) cm !
              ((unat p mod length (get_alive_brokers (env_brokers e) (env_now e) cm) + i) mod
                length (get_alive_brokers (env_brokers e) (env_now e) cm))))
            [0..<min (unat (rm_replication_factor rm)) (length (get_alive_brokers (env_brokers e) (env_now e) cm))]")
          (auto simp: assign_partition_replicas_def Let_def min_def split: if_splits intro: that)
    qed
    note s = set_replicas_states [OF Cons.prems, of t p l rs]
    show ?case using Cons.IH [OF s(1)] s(2-4) a by auto
  qed simp
  then show thesis using that by blast
qed

lemma cluster_create:
  assumes rel: "cluster_rel cm \<sigma>" and new: "qu_topics \<sigma> t = None"
    and "0 < rm_replication_factor rm" and "is_order (env_brokers e)"
  obtains cm' where "assign_replicas e rm t (u32_range n) cm = Ok cm'"
    and "cluster_rel cm' (queue_next e (CreateTopic t n) \<sigma>)"
proof -
  obtain cm' where cm': "assign_replicas e rm t (u32_range n) cm = Ok cm'" "states_named cm'"
      "\<forall>k. has_state cm' k \<longleftrightarrow> (fst k = t \<and> snd k \<in> set (u32_range n)) \<or> has_state cm k"
      "cm_brokers cm' = cm_brokers cm" "cm_broker_timeout cm' = cm_broker_timeout cm"
    by (rule assign_replicas_total [OF cluster_relD(1) [OF rel] assms(3,4)])
  have "has_state cm' (t', q) = is_ok (queue_find (queue_next e (CreateTopic t n) \<sigma>) t' q)" for t' q
    using cm'(3) cluster_relD(2) [OF rel, of t' q] new by (auto simp: is_ok_queue_find set_u32_range)
  then have "cluster_rel cm' (queue_next e (CreateTopic t n) \<sigma>)"
    using cm'(2,4,5) rel new by (simp add: cluster_rel_def)
  with cm'(1) show thesis by (rule that)
qed

lemma partition_states_places:
  assumes "states_named cm" and "is_order pord"
  shows "map (\<lambda>s. (prs_topic s, prs_partition s)) (get_all_partition_states pord cm) = pord (hm_keys (cm_partition_states cm))"
proof -
  let ?m = "cm_partition_states cm"
  have "map (\<lambda>s. (prs_topic s, prs_partition s)) (List.map_filter (hm_get ?m) ks) = ks"
    if "set ks \<subseteq> set (hm_keys ?m)" for ks
    using that assms(1) by (induction ks) (auto simp: map_filter_simps states_named_def in_hm_keys_iff)
  then show ?thesis using assms(2) by (simp add: get_all_partition_states_def)
qed

lemma cluster_metadata_answer:
  assumes rel: "cluster_rel (br_cluster b) \<sigma>" and env: "env_ok e"
  shows "queue_answers e \<sigma> GetClusterMetadata (handle_get_cluster_metadata e b)"
proof -
  let ?cm = "br_cluster b" and ?alive = "get_alive_brokers (env_brokers e) (env_now e) (br_cluster b)"
  let ?ps = "get_all_partition_states (env_parts e) ?cm"
  let ?f = "\<lambda>i. \<lparr>bm_id = bi_id i, bm_host = bi_host i, bm_port = bi_port i\<rparr>"
  have ord: "is_order (env_brokers e)" "is_order (env_parts e)" using env by (simp_all add: env_ok_def)
  have brokers_ok: "brokers_ok ?cm"
    using cluster_relD(3,5) [OF rel]
    by (auto simp: brokers_ok_def broker_entry_def broker_info_new_def)
  have "i \<in> set ?alive \<longleftrightarrow> (\<exists>b. hm_get (cm_brokers ?cm) b = Some i) \<and> is_alive (env_now e) 30000 i" for i
    using ord(1) cluster_relD(3,4) [OF rel] by (force simp: get_alive_brokers_def hm_get_eq_Some)
  moreover have "is_alive (env_now e) 30000 (broker_info_new h i host port) \<longleftrightarrow> env_now e - h < 30000" for h i host port
    by (simp add: is_alive_def broker_info_new_def)
  moreover have "(\<exists>b. hm_get (cm_brokers ?cm) b = Some i) \<longleftrightarrow>
      (\<exists>b host port h. qu_brokers \<sigma> b = Some (host, port, h) \<and> i = broker_info_new h b host port)" for i
    using cluster_relD(5) [OF rel] by (auto simp: broker_entry_def)
  ultimately have alive: "i \<in> set ?alive \<longleftrightarrow> (\<exists>b host port h. qu_brokers \<sigma> b = Some (host, port, h) \<and>
      env_now e - h < 30000 \<and> i = broker_info_new h b host port)" for i
    by metis
  have "y \<in> ?f ` set ?alive \<longleftrightarrow> (\<exists>i host port h. y = \<lparr>bm_id = i, bm_host = host, bm_port = port\<rparr> \<and>
      qu_brokers \<sigma> i = Some (host, port, h) \<and> env_now e - h < 30000)" for y
  proof -
    have "y \<in> ?f ` set ?alive \<longleftrightarrow> (\<exists>i host port h. y = ?f (broker_info_new h i host port) \<and>
        qu_brokers \<sigma> i = Some (host, port, h) \<and> env_now e - h < 30000)"
      unfolding image_iff Bex_def alive by blast
    then show ?thesis by (simp add: broker_info_new_def)
  qed
  then have "set (map ?f ?alive) = {\<lparr>bm_id = i, bm_host = host, bm_port = port\<rparr> | i host port h.
         qu_brokers \<sigma> i = Some (host, port, h) \<and> env_now e - h < 30000}"
    by (intro set_eqI) simp
  moreover have "distinct (map bi_id ?alive)" by (rule alive_broker_ids(1) [OF brokers_ok ord(1)])
  moreover have places: "map (\<lambda>s. (prs_topic s, prs_partition s)) ?ps = env_parts e (hm_keys (cm_partition_states ?cm))"
    by (rule partition_states_places [OF cluster_relD(1) [OF rel] ord(2)])
  moreover have "distinct (env_parts e (hm_keys (cm_partition_states ?cm)))"
    using cluster_relD(1) [OF rel] ord(2) by (simp add: states_named_def hm_ok_def hm_keys_def)
  moreover have "(\<lambda>s. (prs_topic s, prs_partition s)) ` set ?ps = {(t, q). is_ok (queue_find \<sigma> t q)}"
    unfolding set_map [symmetric] places
    using ord(2) cluster_relD(2) [OF rel] by (auto simp: has_state_def in_hm_keys_iff)
  ultimately show ?thesis
    by (simp add: handle_get_cluster_metadata_def o_def image_image)
qed

section \<open>Reading\<close>

text \<open>What a read depends on: the names and sizes of the topics and what is fetched.\<close>

definition topics_view :: "codecs \<Rightarrow> topic_manager \<Rightarrow> queue \<Rightarrow> bool" where
  "topics_view C tm \<sigma> \<longleftrightarrow>
     hm_ok (tm_topics tm) \<and>
     (\<forall>t. qu_topics \<sigma> t = map_option num_partitions (hm_get (tm_topics tm) t)) \<and>
     (\<forall>t q off n. tm_fetch C tm t q off n = queue_slice \<sigma> t q off n)"

fun is_read :: "request \<Rightarrow> bool" where
  "is_read (Fetch _ _ _ _) = True"
| "is_read (GetMetadata _) = True"
| "is_read (GetPartitions _) = True"
| "is_read ListTopics = True"
| "is_read (FetchOffset _ _ _) = True"
| "is_read _ = False"

lemma topics_rel_view: "topics_rel C tm \<sigma> \<Longrightarrow> topics_view C tm \<sigma>"
  by (simp add: topics_view_def topics_fetch topics_relD)

lemma topics_list:
  assumes "topics_view C tm \<sigma>" and "is_order ord"
  shows "distinct (list_topics ord tm)" and "set (list_topics ord tm) = dom (qu_topics \<sigma>)"
proof -
  show "distinct (list_topics ord tm)"
    using assms by (simp add: topics_view_def list_topics_def hm_ok_def hm_keys_def)
  show "set (list_topics ord tm) = dom (qu_topics \<sigma>)"
    using assms by (auto simp: topics_view_def list_topics_def in_hm_keys_iff)
qed

lemma view_answers:
  assumes view: "topics_view C (br_topics b) \<sigma>" and offsets: "hm_get (om_offsets (br_offsets b)) = qu_offsets \<sigma>"
    and env: "env_ok e" and read: "is_read req"
  obtains resp where "process_request C e req b = (b, Ok resp)" and "queue_answers e \<sigma> req resp"
proof -
  have top: "hm_ok (tm_topics (br_topics b))" "qu_topics \<sigma> t = map_option num_partitions (hm_get (tm_topics (br_topics b)) t)"
    "tm_fetch C (br_topics b) t q off n = queue_slice \<sigma> t q off n" for t q off n
    using view by (simp_all add: topics_view_def)
  have "is_order (env_topics e)" using env by (simp add: env_ok_def)
  note names = topics_list [OF view this]
  have meta: "List.map_filter (\<lambda>name. case get_topic (br_topics b) name of
      Ok t \<Rightarrow> Some (topic_metadata_new name (num_partitions t)) | _ \<Rightarrow> None) ts = queue_metadata \<sigma> ts" for ts
  proof -
    have "(case get_topic (br_topics b) name of
        Ok t \<Rightarrow> Some (topic_metadata_new name (num_partitions t)) | _ \<Rightarrow> None) =
        map_option (topic_metadata_new name) (qu_topics \<sigma> name)" for name
      by (cases "hm_get (tm_topics (br_topics b)) name") (simp_all add: top(2) get_topic_def)
    then show ?thesis by (simp add: queue_metadata_def)
  qed
  have "\<exists>resp. process_request C e req b = (b, Ok resp) \<and> queue_answers e \<sigma> req resp"
  proof (cases req)
    case (Fetch t q off n)
    have "queue_slice \<sigma> t q off n \<noteq> Panic" by (simp add: queue_slice_def outcome_simps)
    then show ?thesis by (cases "queue_slice \<sigma> t q off n") (simp_all add: Fetch handle_fetch_def top(3))
  next
    case (GetPartitions t)
    then show ?thesis
      by (cases "hm_get (tm_topics (br_topics b)) t") (simp_all add: handle_get_partitions_def top(2) get_topic_def)
  next
    case (FetchOffset g t q)
    then show ?thesis
      by (cases "qu_offsets \<sigma> (g, t, q)") (simp_all add: handle_fetch_offset_def om_fetch_offset_def offsets)
  next
    case (GetMetadata ts)
    then show ?thesis using names by (auto simp: handle_get_metadata_def Let_def meta)
  next
    case ListTopics
    then show ?thesis using names by auto
  qed (use read in simp_all)
  then show thesis using that by blast
qed

end
