(* ===== verification/Queue_Refinement.thy ===== *)
theory Queue_Refinement
  imports Queue_Relations
begin

text \<open>
  The broker implements the queue: every request is answered as the queue allows and leads to a
  state that stands for the queue's next one, and so does every turn of the periodic tasks.
\<close>

section \<open>The broker\<close>

definition queue_rel :: "codecs \<Rightarrow> broker \<Rightarrow> queue \<Rightarrow> bool" where
  "queue_rel C b \<sigma> \<longleftrightarrow>
     topics_rel C (br_topics b) \<sigma> \<and> groups_rel (br_coordinator b) \<sigma> \<and>
     hm_get (om_offsets (br_offsets b)) = qu_offsets \<sigma> \<and> cluster_rel (br_cluster b) \<sigma> \<and>
     0 < rm_replication_factor (br_replication b)"

lemma queue_relD:
  assumes "queue_rel C b \<sigma>"
  shows "topics_rel C (br_topics b) \<sigma>" and "groups_rel (br_coordinator b) \<sigma>"
    and "hm_get (om_offsets (br_offsets b)) = qu_offsets \<sigma>" and "cluster_rel (br_cluster b) \<sigma>"
    and "0 < rm_replication_factor (br_replication b)"
  using assms by (simp_all add: queue_rel_def)

lemma queue_rel_frame:
  assumes "queue_rel C b \<sigma>" and "qu_topics \<sigma>' = qu_topics \<sigma>" and "qu_log \<sigma>' = qu_log \<sigma>"
  shows "topics_rel C (br_topics b) \<sigma>'"
    and "qu_members \<sigma>' = qu_members \<sigma> \<Longrightarrow> groups_rel (br_coordinator b) \<sigma>'"
    and "qu_brokers \<sigma>' = qu_brokers \<sigma> \<Longrightarrow> cluster_rel (br_cluster b) \<sigma>'"
  using assms topics_rel_cong [of \<sigma>' \<sigma>] groups_rel_cong [of \<sigma>' \<sigma>] cluster_rel_cong [of \<sigma>' \<sigma>]
  by (simp_all add: queue_rel_def)

text \<open>A request is served the way the queue allows, and leads to the queue's next state.\<close>

definition serves :: "codecs \<Rightarrow> environment \<Rightarrow> request \<Rightarrow> broker \<Rightarrow> queue \<Rightarrow> bool" where
  "serves C e req b \<sigma> \<longleftrightarrow>
     (\<exists>b' resp. process_request C e req b = (b', Ok resp) \<and> queue_answers e \<sigma> req resp \<and>
        queue_rel C b' (queue_next e req \<sigma>))"

lemma servesI:
  "process_request C e req b = (b', Ok resp) \<Longrightarrow> queue_answers e \<sigma> req resp \<Longrightarrow>
     queue_rel C b' (queue_next e req \<sigma>) \<Longrightarrow> serves C e req b \<sigma>"
  by (auto simp: serves_def)

lemma serves_create:
  assumes rel: "queue_rel C b \<sigma>" and env: "env_ok e"
  shows "serves C e (CreateTopic t n) b \<sigma>"
proof (cases "qu_topics \<sigma> t")
  case None
  have ord: "is_order (env_brokers e)" using env by (simp add: env_ok_def)
  obtain tm to where tm: "create_topic t n (br_topics b) = (tm, Ok to)"
      "topics_rel C tm (queue_next e (CreateTopic t n) \<sigma>)"
    by (rule topics_create_new [OF queue_relD(1) [OF rel] None])
  obtain cm where cm: "assign_replicas e (br_replication b) t (u32_range n) (br_cluster b) = Ok cm"
      "cluster_rel cm (queue_next e (CreateTopic t n) \<sigma>)"
    by (rule cluster_create [OF queue_relD(4) [OF rel] None queue_relD(5) [OF rel] ord])
  have "groups_rel (br_coordinator b) (queue_next e (CreateTopic t n) \<sigma>)"
    using queue_relD(2) [OF rel] None by (auto simp: groups_rel_def)
  then show ?thesis
    using tm cm None queue_relD(3,5) [OF rel]
    by (intro servesI [of _ _ _ _ "b\<lparr>br_topics := tm, br_cluster := cm\<rparr>"])
      (auto simp: handle_create_topic_def queue_rel_def)
next
  case (Some m)
  then have "create_topic t n (br_topics b) = (br_topics b,
      Err (InvalidMessage (''Topic '' @ [CHR 0x27] @ t @ [CHR 0x27] @ '' already exists'')))"
    by (intro topics_create_old [OF queue_relD(1) [OF rel]]) simp
  then show ?thesis
    using rel Some by (intro servesI [of _ _ _ _ b]) (auto simp: handle_create_topic_def)
qed

lemma serves_produce:
  assumes rel: "queue_rel C b \<sigma>" and room: "queue_admits \<sigma> (Produce t q ms)"
  shows "serves C e (Produce t q ms) b \<sigma>"
proof -
  let ?tm = "fst (tm_append C t q ms (br_topics b))" and ?\<sigma> = "queue_next e (Produce t q ms) \<sigma>"
  note app = topics_append [OF queue_relD(1) [OF rel] room]
  have frame: "groups_rel (br_coordinator b) ?\<sigma>" "cluster_rel cm ?\<sigma> = cluster_rel cm \<sigma>"
      "qu_offsets ?\<sigma> = qu_offsets \<sigma>" for cm
    using queue_relD(2) [OF rel] groups_rel_cong [of ?\<sigma> \<sigma>] cluster_rel_cong [of ?\<sigma> \<sigma>] by simp_all
  have progress: "cluster_rel (update_leader_offset t q off (br_cluster b)) \<sigma>" for off
    unfolding update_leader_offset_def
    by (rule cluster_rel_same [OF queue_relD(4) [OF rel] progress_same_places])
      (rule cluster_relD(1) [OF queue_relD(4) [OF rel]])
  obtain tm r where r: "tm_append C t q ms (br_topics b) = (tm, r)" by fastforce
  have rel': "queue_rel C (b\<lparr>br_topics := tm, br_cluster := cm\<rparr>) ?\<sigma>" if "cluster_rel cm \<sigma>" for cm
    using that rel app(1) [of e] frame r by (simp add: queue_rel_def del: queue_next.simps)
  note ans = app(2) [unfolded r snd_conv]
  show ?thesis
  proof (cases r)
    case (Ok base)
    let ?b = "b\<lparr>br_topics := tm, br_cluster := update_leader_offset t q
        (base + ucast (of_nat (length ms) :: u32)) (br_cluster b)\<rparr>"
    have "process_request C e (Produce t q ms) b = (?b, Ok (ProduceSuccess t q base (of_nat (length ms))))"
      by (simp add: handle_produce_def r Ok Let_def)
    moreover have "queue_answers e \<sigma> (Produce t q ms) (ProduceSuccess t q base (of_nat (length ms)))"
      using ans Ok by (simp split: outcome.splits if_splits)
    ultimately show ?thesis using rel' [OF progress] by (rule servesI)
  next
    case (Err er)
    let ?b = "b\<lparr>br_topics := tm, br_cluster := br_cluster b\<rparr>"
    have "process_request C e (Produce t q ms) b = (?b, Ok (ProduceError (error_to_string er)))"
      by (simp add: handle_produce_def r Err)
    moreover have "queue_answers e \<sigma> (Produce t q ms) (ProduceError (error_to_string er))"
      using ans Err by (simp split: outcome.splits if_splits)
    ultimately show ?thesis using rel' [OF queue_relD(4) [OF rel]] by (rule servesI)
  next
    case Panic
    then show ?thesis using ans by (auto split: outcome.splits if_splits)
  qed
qed

lemma serves_reads:
  assumes rel: "queue_rel C b \<sigma>" and env: "env_ok e"
  shows "is_read req \<Longrightarrow> serves C e req b \<sigma>" and "serves C e GetClusterMetadata b \<sigma>"
    and "serves C e (ReplicationFetch i t q off) b \<sigma>"
proof -
  note top = queue_relD(1) [OF rel]
  show "serves C e req b \<sigma>" if read: "is_read req"
  proof -
    obtain resp where "process_request C e req b = (b, Ok resp)" "queue_answers e \<sigma> req resp"
      by (rule view_answers [OF topics_rel_view [OF top] queue_relD(3) [OF rel] env read])
    moreover have "queue_next e req \<sigma> = \<sigma>" using read by (cases req) simp_all
    ultimately show ?thesis using rel by (intro servesI) simp_all
  qed
  show "serves C e GetClusterMetadata b \<sigma>"
    using rel cluster_metadata_answer [OF queue_relD(4) [OF rel] env] by (intro servesI) simp_all
  have slice: "queue_slice \<sigma> t q off 1000 \<noteq> Panic" by (simp add: queue_slice_def outcome_simps)
  show "serves C e (ReplicationFetch i t q off) b \<sigma>"
    using rel slice
    by (cases "queue_slice \<sigma> t q off 1000"; cases "is_partition_leader (br_cluster b) t q")
      (auto simp: handle_replication_request_def handle_replication_fetch_def topics_fetch [OF top] intro!: servesI)
qed

lemma serves_groups:
  assumes rel: "queue_rel C b \<sigma>" and env: "env_ok e"
  shows "serves C e (JoinGroup g mid ts) b \<sigma>" and "serves C e (LeaveGroup g m) b \<sigma>"
    and "serves C e (Heartbeat g m) b \<sigma>"
proof -
  have ord: "is_order (env_subscribed e)" "is_order (env_members e)" using env by (simp_all add: env_ok_def)
  have frame: "queue_rel C (b\<lparr>br_coordinator := gc\<rparr>) \<sigma>'"
    if "groups_rel gc \<sigma>'" "qu_topics \<sigma>' = qu_topics \<sigma>" "qu_log \<sigma>' = qu_log \<sigma>" "qu_offsets \<sigma>' = qu_offsets \<sigma>"
      "qu_brokers \<sigma>' = qu_brokers \<sigma>" for gc \<sigma>'
    using that queue_rel_frame [OF rel that(2,3)] queue_relD(3,5) [OF rel] by (simp add: queue_rel_def)
  have learned: "groups_rel (learn_partitions (br_topics b) ts (br_coordinator b)) \<sigma>"
    by (rule groups_learn [OF queue_relD(1,2) [OF rel]])
  obtain gc asg where join: "join_group (env_subscribed e) (env_members e) (env_now e) (env_uuid e) g mid ts
        (learn_partitions (br_topics b) ts (br_coordinator b)) = (gc, Ok (member_name e g mid, asg))"
      "groups_rel gc (queue_next e (JoinGroup g mid ts) \<sigma>)" "distinct asg"
      "\<forall>a \<in> set asg. is_ok (queue_find \<sigma> (pa_topic a) (pa_partition a)) \<and>
         (\<exists>k ts' h. qu_members (queue_next e (JoinGroup g mid ts) \<sigma>) g k = Some (ts', h) \<and> pa_topic a \<in> set ts')"
    by (rule groups_join [OF learned ord])
  show "serves C e (JoinGroup g mid ts) b \<sigma>"
  proof (rule servesI)
    show "process_request C e (JoinGroup g mid ts) b =
        (b\<lparr>br_coordinator := gc\<rparr>, Ok (JoinGroupSuccess g (member_name e g mid) asg))"
      using join(1) by (simp add: handle_join_group_def)
    show "queue_answers e \<sigma> (JoinGroup g mid ts) (JoinGroupSuccess g (member_name e g mid) asg)"
      unfolding queue_answers.simps(7) using join(3,4) by blast
    show "queue_rel C (b\<lparr>br_coordinator := gc\<rparr>) (queue_next e (JoinGroup g mid ts) \<sigma>)"
      by (rule frame [OF join(2)]) simp_all
  qed
  note beat = groups_heartbeat [OF queue_relD(2) [OF rel], of e g m]
    and leave = groups_leave [OF queue_relD(2) [OF rel] ord, of g m]
  show "serves C e (Heartbeat g m) b \<sigma>"
  proof -
    obtain gc r where h: "coordinator_heartbeat (env_now e) g m (br_coordinator b) = (gc, r)" by fastforce
    have "queue_rel C (b\<lparr>br_coordinator := gc\<rparr>) (queue_next e (Heartbeat g m) \<sigma>)"
      using beat(1) h by (intro frame) simp_all
    moreover have "r = and_then (find_member \<sigma> g m) (\<lambda>_. Ok False)" using beat(2) h by simp
    ultimately show ?thesis
      by (cases "find_member \<sigma> g m"; intro servesI [of _ _ _ _ "b\<lparr>br_coordinator := gc\<rparr>"])
        (simp_all add: handle_heartbeat_def h del: queue_next.simps)
  qed
  show "serves C e (LeaveGroup g m) b \<sigma>"
  proof -
    obtain gc r where h: "leave_group (env_subscribed e) (env_members e) g m (br_coordinator b) = (gc, r)" by fastforce
    have "queue_rel C (b\<lparr>br_coordinator := gc\<rparr>) (queue_next e (LeaveGroup g m) \<sigma>)"
      using leave(1) h by (intro frame) simp_all
    moreover have "r = and_then (find_member \<sigma> g m) (\<lambda>_. Ok ())" using leave(2) h by simp
    ultimately show ?thesis
      by (cases "find_member \<sigma> g m"; intro servesI [of _ _ _ _ "b\<lparr>br_coordinator := gc\<rparr>"])
        (simp_all add: handle_leave_group_def h del: queue_next.simps)
  qed
qed

lemma request_serves:
  assumes "queue_rel C b \<sigma>" and "env_ok e" and "queue_admits \<sigma> req"
  shows "serves C e req b \<sigma>"
proof (cases req)
  case (CreateTopic t n)
  then show ?thesis using serves_create [OF assms(1,2)] by simp
next
  case (Produce t q ms)
  then show ?thesis using serves_produce [OF assms(1)] assms(3) by simp
next
  case (CommitOffset g t q off)
  have "queue_rel C (b\<lparr>br_offsets := fst (om_commit_offset (env_entries e) g t q off (br_offsets b))\<rparr>)
      (queue_next e (CommitOffset g t q off) \<sigma>)"
    using queue_rel_frame [OF assms(1), of "queue_next e (CommitOffset g t q off) \<sigma>"] queue_relD(3,5) [OF assms(1)]
    by (simp add: queue_rel_def om_commit_offset_def persist_group_def) (auto simp: hashmap_simps fun_eq_iff)
  then show ?thesis
    unfolding CommitOffset by (intro servesI) (auto simp: handle_commit_offset_def om_commit_offset_def)
next
  case (RegisterBroker i host port)
  then show ?thesis
    using queue_rel_frame [OF assms(1), of "queue_next e req \<sigma>"] queue_relD(3,5) [OF assms(1)]
      cluster_register [OF queue_relD(4) [OF assms(1)], of e i host port]
    by (intro servesI) (auto simp: handle_register_broker_def queue_rel_def)
qed (use serves_reads [OF assms(1,2)] serves_groups [OF assms(1,2)] in simp_all)

lemma ticks_serve:
  assumes "queue_rel C b \<sigma>" and "env_ok e"
  shows "queue_rel C (tick_groups e b) (queue_expire e \<sigma>)" and "queue_rel C (tick_health e b) \<sigma>"
proof -
  have exp: "qu_topics (queue_expire e \<sigma>) = qu_topics \<sigma>" "qu_log (queue_expire e \<sigma>) = qu_log \<sigma>"
      "qu_offsets (queue_expire e \<sigma>) = qu_offsets \<sigma>" "qu_brokers (queue_expire e \<sigma>) = qu_brokers \<sigma>"
    by (simp_all add: queue_expire_def)
  show "queue_rel C (tick_groups e b) (queue_expire e \<sigma>)"
    using queue_rel_frame(1,3) [OF assms(1) exp(1,2)] queue_relD(3,5) [OF assms(1)] exp(3,4)
      groups_expire [OF queue_relD(2) [OF assms(1)]] assms(2)
    by (simp add: queue_rel_def tick_groups_def env_ok_def)
  show "queue_rel C (tick_health e b) \<sigma>"
    using assms(1) cluster_health by (simp add: queue_rel_def tick_health_def)
qed

text \<open>A new broker on an empty directory is the empty queue.\<close>

lemma queue_rel_new:
  assumes "codecs_ok C" and "0 < cfg_replication_factor config" and "listing = None \<or> listing = Some []"
    and "is_order ford"
  shows "\<exists>b. broker_new C now config listing [] = Ok b \<and> queue_rel C (broker_start ford b) (queue_new now config)"
proof -
  let ?b = "\<lparr>br_config = config, br_topics = tm_new (cfg_data_dir config) [],
      br_coordinator = group_coordinator_new 30000, br_offsets = offset_manager_new (cfg_data_dir config) [],
      br_cluster = register_broker (broker_info_new now (cfg_broker_id config) (cfg_host config) (cfg_port config))
        (cluster_metadata_new (cfg_broker_id config) 30000 (cfg_max_isr_lag config)),
      br_replication = replication_manager_new (cfg_replication_factor config) (cfg_max_isr_lag config)\<rparr>"
  have "broker_new C now config listing [] = Ok ?b"
    using assms(3) by (auto simp: broker_new_def tm_open_def)
  moreover have "topics_rel C (tm_new d []) (queue_new now config)" for d
    using assms(1) by (simp add: topics_rel_def queue_new_def queue_find_def stored_def tm_new_def find_partition_def
        get_topic_def disk_unused_def dir_of_def no_segment_files_def hm_keys_def)
  moreover have "groups_rel (group_coordinator_new 30000) (queue_new now config)"
    using coord_reach_ok [OF rtranclp.rtrancl_refl] by (simp add: groups_rel_def queue_new_def group_coordinator_new_def member_info_def)
  moreover have "cluster_rel (br_cluster ?b) (queue_new now config)"
    by (auto simp: cluster_rel_def states_named_def has_state_def queue_new_def queue_find_def register_broker_def
        cluster_metadata_new_def broker_entry_def broker_info_new_def hm_ok_def)
  moreover have "ford [] = []" using assms(4) by simp
  then have "hm_get (om_offsets (br_offsets (broker_start ford ?b))) = Map.empty"
    by (simp add: broker_start_def om_load_def offset_manager_new_def)
  ultimately show ?thesis
    using assms(2,4) by (simp add: queue_rel_def broker_start_def replication_manager_new_def) (simp add: queue_new_def)
qed

section \<open>Runs\<close>

lemma event_serves:
  assumes "queue_rel C b \<sigma>" and "event_admitted \<sigma> ev"
  obtains b' where "queue_rel C b' (queue_step ev \<sigma>)" and "fst (handle_event C ev b) = b'"
    and "\<And>evs rest. queue_trace (queue_step ev \<sigma>) evs rest \<Longrightarrow>
           queue_trace \<sigma> (ev # evs) (snd (handle_event C ev b) @ rest)"
proof (cases ev)
  case (Handle e req)
  then obtain b' resp where s: "process_request C e req b = (b', Ok resp)" "queue_answers e \<sigma> req resp"
      "queue_rel C b' (queue_next e req \<sigma>)"
    using request_serves [OF assms(1), of e req] assms(2) by (auto simp: serves_def)
  then show thesis using Handle by (intro that [of b']) (simp_all add: handle_event_def)
qed (use ticks_serve [OF assms(1)] assms(2) in \<open>auto simp: handle_event_def intro!: that\<close>)

lemma run_serves:
  assumes "queue_rel C b \<sigma>" and "run_admitted \<sigma> evs" and "run_events C evs b = (b', rs)"
  shows "queue_trace \<sigma> evs rs \<and> queue_rel C b' (fold queue_step evs \<sigma>)"
  using assms
proof (induction evs arbitrary: b \<sigma> rs)
  case (Cons ev evs)
  obtain b1 where b1: "queue_rel C b1 (queue_step ev \<sigma>)" "fst (handle_event C ev b) = b1"
      "\<And>evs rest. queue_trace (queue_step ev \<sigma>) evs rest \<Longrightarrow>
         queue_trace \<sigma> (ev # evs) (snd (handle_event C ev b) @ rest)"
    by (rule event_serves [OF Cons.prems(1)]) (use Cons.prems(2) in auto)
  obtain rest where rest: "run_events C evs b1 = (b', rest)" "rs = snd (handle_event C ev b) @ rest"
    using Cons.prems(3) b1(2) by (cases "run_events C evs b1") (auto simp: case_prod_beta Let_def)
  have "queue_trace (queue_step ev \<sigma>) evs rest \<and> queue_rel C b' (fold queue_step evs (queue_step ev \<sigma>))"
    by (rule Cons.IH [OF b1(1) _ rest(1)]) (use Cons.prems(2) in simp)
  then show ?case using b1(3) rest(2) by simp
qed simp

end
