(* ===== verification/Queue_Restart.thy ===== *)
theory Queue_Restart
  imports Queue_Refinement
begin

text \<open>
  A broker that starts on the directory of another one: what is in that directory after a run,
  and that the new broker answers reads in the state the old one had reached.
\<close>

section \<open>The directory of a run\<close>

text \<open>
  A run that began on an empty directory leaves nothing behind but the directories of its topics, with the
  partitions in their order.
\<close>

definition topic_tidy :: "string \<Rightarrow> topic \<Rightarrow> bool" where
  "topic_tidy name t \<longleftrightarrow>
     t_name t = name \<and> t_other t = [] \<and> map p_partition_id (t_partitions t) = u32_range (num_partitions t) \<and>
     list_all (\<lambda>p. p_other p = []) (t_partitions t)"

definition tm_tidy :: "topic_manager \<Rightarrow> bool" where
  "tm_tidy tm \<longleftrightarrow>
     tm_disk tm = [] \<and> (\<forall>name t. hm_get (tm_topics tm) name = Some t \<longrightarrow> topic_tidy name t)"

lemma partition_append_tidy:
  "p_other p = [] \<Longrightarrow> p_other (fst (partition_append C ms p)) = []"
  by (simp add: partition_append_def rotate_def Let_def without_segment_def split: prod.split)

lemma topic_append_tidy:
  assumes "topic_tidy name t"
  shows "topic_tidy name (fst (topic_append C q ms t))"
proof (cases "unat q < length (t_partitions t)")
  case True
  let ?p = "t_partitions t ! unat q"
  have p: "p_other ?p = []" using assms True by (simp add: topic_tidy_def list_all_length)
  have "p_partition_id (fst (partition_append C ms ?p)) = p_partition_id ?p"
    by (simp add: partition_append_def rotate_def Let_def split: prod.split)
  then have "map p_partition_id ((t_partitions t)[unat q := fst (partition_append C ms ?p)]) =
      map p_partition_id (t_partitions t)"
    using True by (simp add: map_update list_update_same_conv)
  moreover have "fst (topic_append C q ms t) = t\<lparr>t_partitions := (t_partitions t)[unat q := fst (partition_append C ms ?p)]\<rparr>"
    using True by (simp add: topic_append_def get_partition_def case_prod_beta Let_def)
  ultimately show ?thesis
    using assms partition_append_tidy [OF p, of C ms]
    by (auto simp: topic_tidy_def num_partitions_def list_all_length nth_list_update True)
qed (simp add: topic_append_missing assms)

lemma tm_append_tidy:
  assumes "tm_tidy tm"
  shows "tm_tidy (fst (tm_append C t q ms tm))"
proof (cases "hm_get (tm_topics tm) t")
  case None
  then show ?thesis using assms by (simp add: tm_append_def get_topic_def)
next
  case (Some to)
  then have "fst (tm_append C t q ms tm) = put_topic t (fst (topic_append C q ms to)) tm"
    by (simp add: tm_append_def get_topic_def case_prod_beta Let_def)
  then show ?thesis
    using assms Some topic_append_tidy [of t to] by (auto simp: tm_tidy_def put_topic_def hashmap_simps)
qed

lemma topic_new_tidy: "topic_tidy name (topic_new name n d [])"
proof -
  have "map p_partition_id (t_partitions (topic_new name n d [])) = u32_range n"
    by (simp add: topic_new_def o_def partition_new_def partition_with_config_def)
  then show ?thesis
    unfolding topic_tidy_def
    by (simp add: topic_new_def num_partitions_def)
      (simp add: partition_new_def partition_with_config_def dir_of_def without_segment_def list_all_iff)
qed

lemma create_topic_tidy: "tm_tidy tm \<Longrightarrow> tm_tidy (fst (create_topic name n tm))"
  using topic_new_tidy by (auto simp: create_topic_def tm_tidy_def Let_def hashmap_simps)

text \<open>The events whose commits the offset files can hold.\<close>

fun plain_event :: "event \<Rightarrow> bool" where
  "plain_event (Handle e (CommitOffset g t p off)) \<longleftrightarrow> g \<noteq> [] \<and> plain_topic t"
| "plain_event _ \<longleftrightarrow> True"

definition disk_ok :: "broker \<Rightarrow> bool" where
  "disk_ok b \<longleftrightarrow> tm_tidy (br_topics b) \<and> om_synced (br_offsets b)"

lemma request_disk_ok:
  assumes "disk_ok b" and "env_ok e" and "plain_event (Handle e req)"
  shows "disk_ok (fst (process_request C e req b))"
proof (cases req)
  case (CreateTopic t n)
  then show ?thesis
    using assms(1) create_topic_tidy [of "br_topics b" t n]
    by (auto simp: disk_ok_def handle_create_topic_def split: prod.split outcome.split)
next
  case (Produce t q ms)
  then show ?thesis
    using assms(1) tm_append_tidy [of "br_topics b" C t q ms]
    by (auto simp: disk_ok_def handle_produce_def Let_def split: prod.split outcome.split)
next
  case (CommitOffset g t p off)
  then show ?thesis
    using assms om_commit_synced(1) [of "br_offsets b" "env_entries e" g t p off]
    by (auto simp: disk_ok_def handle_commit_offset_def env_ok_def split: prod.split outcome.split)
qed (use assms(1) in \<open>auto simp: disk_ok_def handle_join_group_def handle_leave_group_def handle_heartbeat_def
    handle_register_broker_def Let_def split: prod.split outcome.split\<close>)

lemma run_disk_ok:
  assumes "disk_ok b" and "run_admitted \<sigma> evs" and "list_all plain_event evs" and "run_events C evs b = (b', rs)"
  shows "disk_ok b'"
  using assms
proof (induction evs arbitrary: b \<sigma> rs)
  case (Cons ev evs)
  have "disk_ok (fst (handle_event C ev b))"
  proof (cases ev)
    case (Handle e req)
    then show ?thesis
      using request_disk_ok [OF Cons.prems(1), of e req C] Cons.prems(2,3)
      by (simp add: handle_event_def case_prod_beta Let_def)
  qed (use Cons.prems(1) in \<open>simp_all add: handle_event_def disk_ok_def tick_groups_def tick_health_def\<close>)
  moreover obtain rest where "run_events C evs (fst (handle_event C ev b)) = (b', rest)"
    using Cons.prems(4) by (cases "run_events C evs (fst (handle_event C ev b))") (auto simp: case_prod_beta Let_def)
  ultimately show ?case using Cons.prems(2,3) by (auto intro: Cons.IH)
qed simp

section \<open>Opening the directory\<close>

definition opened :: "codecs \<Rightarrow> string \<Rightarrow> (string \<times> part_dirs) list \<Rightarrow> topic_manager \<Rightarrow> string \<Rightarrow> topic option" where
  "opened C d entries tm n =
     (case map_of entries n of
        Some dirs \<Rightarrow> (case topic_open C n d (Some dirs) of Ok t \<Rightarrow> Some t | _ \<Rightarrow> hm_get (tm_topics tm) n)
      | None \<Rightarrow> hm_get (tm_topics tm) n)"

lemma open_topics_get:
  assumes "hm_ok entries" and "\<forall>(n, dirs) \<in> set entries. topic_open C n d (Some dirs) \<noteq> Panic"
    and "hm_ok (tm_topics tm)"
  shows "\<exists>tm'. open_topics C d entries tm = Ok tm' \<and> hm_ok (tm_topics tm') \<and>
           (\<forall>n. hm_get (tm_topics tm') n = opened C d entries tm n)"
  using assms
proof (induction entries arbitrary: tm)
  case Nil
  then show ?case by (simp add: opened_def)
next
  case (Cons x entries)
  obtain n dirs where x: "x = (n, dirs)" by fastforce
  let ?tm = "case topic_open C n d (Some dirs) of Ok t \<Rightarrow> tm\<lparr>tm_topics := hm_insert n t (tm_topics tm)\<rparr>
    | _ \<Rightarrow> tm\<lparr>tm_disk := tm_disk tm @ [(n, dirs)]\<rparr>"
  have ok: "hm_ok entries" and new: "map_of entries n = None"
    using Cons.prems(1) x by (auto simp: hm_ok_def map_of_eq_None_iff)
  have step: "open_topics C d (x # entries) tm = open_topics C d entries ?tm"
    using Cons.prems(2) x by (auto split: outcome.split)
  have "hm_ok (tm_topics ?tm)" using Cons.prems(3) by (simp split: outcome.split)
  moreover have "\<forall>(n, dirs) \<in> set entries. topic_open C n d (Some dirs) \<noteq> Panic" using Cons.prems(2) by simp
  ultimately obtain tm' where tm': "open_topics C d entries ?tm = Ok tm'" "hm_ok (tm_topics tm')"
      "\<forall>n. hm_get (tm_topics tm') n = opened C d entries ?tm n"
    using Cons.IH [OF ok] by blast
  have "opened C d entries ?tm n' = opened C d (x # entries) tm n'" for n'
  proof (cases "n' = n")
    case True
    then show ?thesis using new by (simp add: opened_def x hashmap_simps split: outcome.split)
  next
    case False
    then have same: "hm_get (tm_topics ?tm) n' = hm_get (tm_topics tm) n'"
      by (simp add: hashmap_simps split: outcome.split)
    show ?thesis using False unfolding opened_def same by (simp add: x)
  qed
  then show ?case using step tm' by simp
qed

lemma list_all2_choice: "(\<forall>x \<in> set xs. \<exists>y. R x y) \<Longrightarrow> \<exists>ys. list_all2 R xs ys"
  by (induction xs) auto

lemma part_rep_history:
  assumes "codecs_ok C" and "part_rep C p rss" and "p_topic_name p = t" and "p_partition_id p = q"
  shows "partition_fetch C p off n =
           Ok (take (unat n) (drop (unat off) (history t q (map to_message (concat rss)))))"
  using partition_fetch_correct [OF assms(1) part_rep_view [OF assms(2)]] to_record_history [OF assms(2)] assms(3,4)
  by (simp flip: drop_map take_map)

text \<open>A topic is found again with all its partitions.\<close>

lemma topic_recovered:
  assumes tidy: "topic_tidy name t" and C: "codecs_ok C" and pos: "0 < num_partitions t"
    and logs: "\<And>q. q < num_partitions t \<Longrightarrow> queue_log C (t_partitions t ! unat q) name q (log q)"
  obtains t' where "topic_open C name d (Some (topic_dirs t)) = Ok t'" and "num_partitions t' = num_partitions t"
    and "t_name t' = name" and "length (t_partitions t') = unat (num_partitions t')"
    and "\<And>q off n. q < num_partitions t \<Longrightarrow>
           topic_fetch C t' q off n = Ok (take (unat n) (drop (unat off) (history name q (log q))))"
proof -
  let ?ps = "t_partitions t" and ?n = "num_partitions t"
  have t: "t_name t = name" "t_other t = []" "map p_partition_id ?ps = u32_range ?n"
      "list_all (\<lambda>p. p_other p = []) ?ps"
    using tidy by (simp_all add: topic_tidy_def)
  have len: "length ?ps = unat ?n" using arg_cong [OF t(3), of length] by simp
  have log: "queue_log C (?ps ! i) name (of_nat i) (log (of_nat i))" if "i < length ?ps" for i
    using logs [of "of_nat i"] that len unat_u32_less [of ?n] by (simp add: word_less_nat_alt unat_of_nat_u32)
  have "\<forall>p \<in> set ?ps. \<exists>rss. part_rep C p rss \<and> map to_message (concat rss) = log (p_partition_id p)"
  proof
    fix p
    assume p: "p \<in> set ?ps"
    obtain i where i: "i < length ?ps" "p = ?ps ! i" using p by (metis in_set_conv_nth)
    show "\<exists>rss. part_rep C p rss \<and> map to_message (concat rss) = log (p_partition_id p)"
    proof (rule queue_logE [OF log [OF i(1)]])
      fix rss
      assume "part_rep C (?ps ! i) rss" "map to_message (concat rss) = log (of_nat i)" "p_partition_id (?ps ! i) = of_nat i"
      then show ?thesis unfolding i(2) by auto
    qed
  qed
  from list_all2_choice [OF this] obtain rsss where rsss: "list_all2 (\<lambda>p rss. part_rep C p rss \<and> map to_message (concat rss) = log (p_partition_id p)) ?ps rsss" ..
  have reps: "list_all2 (part_rep C) ?ps rsss" by (rule list_all2_mono [OF rsss]) simp
  have files: "list_all (\<lambda>p. hm_ok (partition_files p)) ?ps"
    unfolding list_all_length
  proof (intro allI impI)
    fix i
    assume i: "i < length ?ps"
    have "p_other (?ps ! i) = []" using t(4) i by (simp add: list_all_length)
    then show "hm_ok (partition_files (?ps ! i))"
      using list_all2_nthD [OF reps i] by (intro partition_files_ok) simp_all
  qed
  have "hm_keys (topic_dirs t) = map partition_dir_name (map p_partition_id ?ps)"
    by (simp add: topic_dirs_def t(2) hm_keys_def o_def)
  then have dist: "hm_ok (topic_dirs t)"
    unfolding t(3) by (simp add: hm_ok_def hm_keys_def distinct_map inj_on_def)
  have other: "partition_ids (hm_keys (t_other t)) = []" by (simp add: t(2) hm_keys_def)
  obtain t' where t': "topic_open C (t_name t) d (Some (topic_dirs t)) = Ok t'"
      "list_all2 (part_rep C) (t_partitions t') rsss" "map p_partition_id (t_partitions t') = u32_range ?n"
      "list_all (\<lambda>p. p_topic_name p = t_name t) (t_partitions t')"
    by (rule topic_open_recovers [OF C reps files t(3) pos other refl dist])
  have len': "length (t_partitions t') = unat ?n" using arg_cong [OF t'(3), of length] by simp
  have name': "t_name t' = name"
    using t'(1) t(1) by (auto simp: topic_open_def Let_def outcome_simps split: if_splits)
  have "topic_fetch C t' q off n = Ok (take (unat n) (drop (unat off) (history name q (log q))))"
    if q: "q < ?n" for q off n
  proof -
    let ?p = "t_partitions t' ! unat q"
    have i: "unat q < unat ?n" using q by (simp add: word_less_nat_alt)
    have ids: "p_partition_id ?p = q" "p_partition_id (?ps ! unat q) = q"
      using arg_cong [OF t'(3), of "\<lambda>l. l ! unat q"] arg_cong [OF t(3), of "\<lambda>l. l ! unat q"] i len len' by simp_all
    have "part_rep C ?p (rsss ! unat q)" using list_all2_nthD [OF t'(2)] i len' by simp
    moreover have "p_topic_name ?p = name" using t'(4) t(1) i len' by (simp add: list_all_length)
    moreover have "map to_message (concat (rsss ! unat q)) = log q"
      using list_all2_nthD [OF rsss, of "unat q"] i len ids(2) by simp
    ultimately have "partition_fetch C ?p off n = Ok (take (unat n) (drop (unat off) (history name q (log q))))"
      using part_rep_history [OF C, of ?p "rsss ! unat q" name q off n] ids(1) by simp
    then show ?thesis using i len' by (simp add: topic_fetch_def get_partition_def)
  qed
  then show thesis
    using t'(1) t(1) len' name' by (intro that [of t']) (simp_all add: num_partitions_def)
qed

text \<open>A topic without partitions has no directories in its own, and is not found again.\<close>

definition queue_restart :: "queue \<Rightarrow> queue" where
  "queue_restart \<sigma> =
     \<sigma>\<lparr>qu_topics := (\<lambda>t. if qu_topics \<sigma> t = Some 0 then None else qu_topics \<sigma> t), qu_members := (\<lambda>_. Map.empty)\<rparr>"

definition data_dir_entries :: "topic_manager \<Rightarrow> (string \<times> part_dirs) list" where
  "data_dir_entries tm = map (\<lambda>(name, t). (name, topic_dirs t)) (tm_topics tm)"

lemma topic_open_empty:
  "partition_ids (hm_keys dirs) = [] \<Longrightarrow>
     topic_open C name d (Some dirs) = Err (Storage (''No partitions found for topic: '' @ name))"
  by (simp add: topic_open_def)

lemma restart_topics:
  assumes rel: "topics_rel C tm \<sigma>" and tidy: "tm_tidy tm"
    and listing: "mset listing = mset (data_dir_entries tm @ others)" and ok: "hm_ok listing"
    and others: "\<forall>(n, dirs) \<in> set others. partition_ids (hm_keys dirs) = []"
  obtains tm' where "tm_open C d (Some listing) = Ok tm'" and "topics_view C tm' (queue_restart \<sigma>)"
proof -
  note D = topics_relD [OF rel]
  have names: "hm_get (tm_topics tm) name = Some t \<longleftrightarrow> (name, t) \<in> set (tm_topics tm)" for name t
    by (rule hm_get_eq_Some [OF D(2)])
  have entry: "(name, dirs) \<in> set listing \<longleftrightarrow>
      (\<exists>t. hm_get (tm_topics tm) name = Some t \<and> dirs = topic_dirs t) \<or> (name, dirs) \<in> set others" for name dirs
    using mset_eq_setD [OF listing] unfolding names by (auto simp: data_dir_entries_def)
  have entry_opened: "if num_partitions t = 0 then is_err (topic_open C name d (Some (topic_dirs t)))
      else \<exists>t'. topic_open C name d (Some (topic_dirs t)) = Ok t' \<and> num_partitions t' = num_partitions t \<and>
        (\<forall>q off n. topic_fetch C t' q off n = queue_slice \<sigma> name q off n)"
    if t: "hm_get (tm_topics tm) name = Some t" for name t
  proof (cases "num_partitions t = 0")
    case True
    have "topic_tidy name t" using tidy t by (simp add: tm_tidy_def)
    then have "topic_dirs t = []" using True by (auto simp: topic_tidy_def topic_dirs_def u32_range_def)
    then show ?thesis using True by (simp add: topic_open_def hm_keys_def)
  next
    case False
    have find: "find_partition tm name q = get_partition t q" for q
      using t by (simp add: find_partition_def get_topic_def)
    have topic: "qu_topics \<sigma> name = Some (num_partitions t)" using D(3) t by simp
    have log: "queue_log C (t_partitions t ! unat q) name q (qu_log \<sigma> (name, q))" if "q < num_partitions t" for q
      using D(4) [of name q] that topic
      by (auto simp: stored_def queue_find_def find get_partition_def split: if_splits)
    have "topic_tidy name t" using tidy t by (simp add: tm_tidy_def)
    from topic_recovered [OF this D(1) _ log, of d] False obtain t' where t':
        "topic_open C name d (Some (topic_dirs t)) = Ok t'" "num_partitions t' = num_partitions t" "t_name t' = name"
        "length (t_partitions t') = unat (num_partitions t')"
        "\<And>q off n. q < num_partitions t \<Longrightarrow> topic_fetch C t' q off n =
           Ok (take (unat n) (drop (unat off) (history name q (qu_log \<sigma> (name, q)))))"
      by (metis word_neq_0_conv)
    have "topic_fetch C t' q off n = queue_slice \<sigma> name q off n" for q off n
    proof (cases "q < num_partitions t")
      case True
      then show ?thesis using t'(5) topic by (simp add: queue_slice_def queue_find_def)
    next
      case beyond: False
      then show ?thesis
        using t'(2,3,4) topic
        by (simp add: queue_slice_def queue_find_def topic_fetch_def get_partition_def word_less_nat_alt)
    qed
    then show ?thesis using False t'(1,2) by auto
  qed
  let ?tm0 = "tm_new d []"
  have no_panic: "\<forall>(n, dirs) \<in> set listing. topic_open C n d (Some dirs) \<noteq> Panic"
    using entry_opened others topic_open_empty by (fastforce simp: entry split: if_splits)
  obtain tm' where tm': "open_topics C d listing ?tm0 = Ok tm'" "hm_ok (tm_topics tm')"
      "\<forall>n. hm_get (tm_topics tm') n = opened C d listing ?tm0 n"
    using open_topics_get [OF ok no_panic, of ?tm0] by (auto simp: tm_new_def hm_ok_def)
  have get: "(case hm_get (tm_topics tm) name of
      Some t \<Rightarrow> if num_partitions t = 0 then hm_get (tm_topics tm') name = None
        else \<exists>t'. hm_get (tm_topics tm') name = Some t' \<and> num_partitions t' = num_partitions t \<and>
          (\<forall>q off n. topic_fetch C t' q off n = queue_slice \<sigma> name q off n)
    | None \<Rightarrow> hm_get (tm_topics tm') name = None)" for name
  proof (cases "map_of listing name")
    case None
    then have "hm_get (tm_topics tm) name = None"
      using entry by (metis map_of_eq_None_iff not_None_eq image_eqI fst_conv)
    then show ?thesis using None tm'(3) by (simp add: opened_def tm_new_def)
  next
    case (Some dirs)
    have mem: "(name, dirs) \<in> set listing" using Some by (rule map_of_SomeD)
    show ?thesis
    proof (cases "hm_get (tm_topics tm) name")
      case None
      then have "partition_ids (hm_keys dirs) = []" using mem others entry by auto
      then show ?thesis using None Some tm'(3) by (simp add: opened_def topic_open_empty tm_new_def)
    next
      case t: (Some t)
      then have "(name, topic_dirs t) \<in> set listing" using entry by blast
      then have "dirs = topic_dirs t" using mem ok by (simp add: hm_ok_def eq_key_imp_eq_value)
      then show ?thesis
        using entry_opened [OF t] t Some tm'(3)
        by (auto simp: opened_def tm_new_def is_err_iff split: if_splits)
    qed
  qed
  have "qu_topics (queue_restart \<sigma>) name = map_option num_partitions (hm_get (tm_topics tm') name)" for name
    using get [of name] D(3) [of name] by (auto simp: queue_restart_def split: option.splits if_splits)
  moreover have "tm_fetch C tm' name q off n = queue_slice (queue_restart \<sigma>) name q off n" for name q off n
    using get [of name] D(3) [of name]
    by (auto simp: queue_restart_def tm_fetch_def get_topic_def queue_slice_def queue_find_def
        split: option.splits if_splits)
  ultimately have "topics_view C tm' (queue_restart \<sigma>)"
    using tm'(2) by (simp add: topics_view_def)
  then show thesis using tm'(1) by (intro that [of tm']) (simp_all add: tm_open_def)
qed

text \<open>A broker that starts on what another one has left.\<close>

lemma restart_view:
  assumes rel: "queue_rel C b \<sigma>" and disk: "disk_ok b" and ord: "is_order ford"
    and listing: "mset listing = mset (data_dir_entries (br_topics b) @ others)" and ok: "hm_ok listing"
    and others: "\<forall>(n, dirs) \<in> set others. partition_ids (hm_keys dirs) = []"
  obtains b' where "broker_new C now config (Some listing) (om_files (br_offsets b)) = Ok b'"
    and "topics_view C (br_topics (broker_start ford b')) (queue_restart \<sigma>)"
    and "hm_get (om_offsets (br_offsets (broker_start ford b'))) = qu_offsets (queue_restart \<sigma>)"
    and "cm_partition_states (br_cluster (broker_start ford b')) = []"
proof -
  obtain tm where tm: "tm_open C (cfg_data_dir config) (Some listing) = Ok tm" "topics_view C tm (queue_restart \<sigma>)"
    by (rule restart_topics [OF queue_relD(1) [OF rel] _ listing ok others]) (use disk in \<open>simp_all add: disk_ok_def\<close>)
  have "om_synced (br_offsets b)" using disk by (simp add: disk_ok_def)
  from om_restart_get [OF this ord] queue_relD(3) [OF rel]
  have off: "hm_get (om_offsets (om_load ford (offset_manager_new d (om_files (br_offsets b))))) = qu_offsets \<sigma>" for d
    by (auto simp: fun_eq_iff)
  have "\<exists>b'. broker_new C now config (Some listing) (om_files (br_offsets b)) = Ok b' \<and> br_topics b' = tm \<and>
      br_offsets b' = offset_manager_new (cfg_data_dir config) (om_files (br_offsets b)) \<and>
      cm_partition_states (br_cluster b') = []"
    by (simp add: broker_new_def tm(1) register_broker_def cluster_metadata_new_def)
  then obtain b' where "broker_new C now config (Some listing) (om_files (br_offsets b)) = Ok b'" "br_topics b' = tm"
      "br_offsets b' = offset_manager_new (cfg_data_dir config) (om_files (br_offsets b))"
      "cm_partition_states (br_cluster b') = []"
    by blast
  then show thesis
    using tm(2) off [of "cfg_data_dir config"] by (intro that [of b']) (simp_all add: broker_start_def, simp add: queue_restart_def)
qed

lemma run_from_empty:
  assumes "codecs_ok C" and "0 < cfg_replication_factor config" and "is_order ford"
    and "broker_new C now config None [] = Ok b0" and "run_admitted (queue_new now config) evs"
    and "run_events C evs (broker_start ford b0) = (b, answers)"
  shows "queue_trace (queue_new now config) evs answers"
    and "queue_rel C b (fold queue_step evs (queue_new now config))"
    and "list_all plain_event evs \<Longrightarrow> disk_ok b"
proof -
  obtain b' where b': "broker_new C now config None [] = Ok b'"
      "queue_rel C (broker_start ford b') (queue_new now config)"
    using queue_rel_new [OF assms(1,2) _ assms(3), of None now] by auto
  then have "queue_rel C (broker_start ford b0) (queue_new now config)" using assms(4) by simp
  from run_serves [OF this assms(5,6)] show "queue_trace (queue_new now config) evs answers"
    and "queue_rel C b (fold queue_step evs (queue_new now config))" by simp_all
  have "ford [] = []" using assms(3) by simp
  then have "disk_ok (broker_start ford b0)"
    using assms(4) om_synced_new
    by (auto simp: broker_new_def tm_open_def tm_new_def disk_ok_def tm_tidy_def broker_start_def om_load_def
        offset_manager_new_def)
  then show "disk_ok b" if "list_all plain_event evs" by (rule run_disk_ok [OF _ assms(5) that assms(6)])
qed

lemma data_dir_entries_ok:
  assumes "topics_rel C tm \<sigma>" and "qu_topics \<sigma> name = None"
  shows "hm_ok ((name, dirs) # data_dir_entries tm)"
proof -
  have keys: "map fst (data_dir_entries tm) = map fst (tm_topics tm)" by (simp add: data_dir_entries_def split_beta)
  have "hm_get (tm_topics tm) name = None" using topics_relD(3) [OF assms(1), of name] assms(2) by simp
  then have "name \<notin> set (map fst (data_dir_entries tm))" unfolding keys by (simp add: map_of_eq_None_iff)
  then show ?thesis using topics_relD(2) [OF assms(1)] unfolding hm_ok_def keys [symmetric] by simp
qed

section \<open>Topics without replica states\<close>

definition stateless :: "broker \<Rightarrow> string \<Rightarrow> bool" where
  "stateless b t \<longleftrightarrow>
     hm_get (tm_topics (br_topics b)) t \<noteq> None \<and> (\<forall>q. \<not> has_state (br_cluster b) (t, q))"

lemma assign_replicas_other:
  "assign_replicas e rm name ps cm = Ok cm' \<Longrightarrow> t \<noteq> name \<Longrightarrow> has_state cm' (t, q) = has_state cm (t, q)"
proof (induction ps arbitrary: cm)
  case (Cons p ps)
  have "has_state (set_partition_replicas name p l rs cm) (t, q) = has_state cm (t, q)" for l rs
    using Cons.prems(2) by (simp add: has_state_def set_partition_replicas_def hashmap_simps)
  then show ?case using Cons by (auto simp: outcome_simps)
qed simp

lemma has_state_progress [simp]: "has_state (cm_update_replica_offset t p b off cm) k = has_state cm k"
  by (auto simp: has_state_def cm_update_replica_offset_def hashmap_simps split: option.split)

lemma has_state_health [simp]: "has_state (check_broker_health bord pord iord now cm) k = has_state cm k"
proof -
  have failure: "has_state (fst (handle_broker_failure pord iord b cm)) k = has_state cm k" for b cm
    by (simp add: has_state_def handle_broker_failure_def Let_def hm_get_map)
  have "has_state (health_loop pord iord ids ss cm) k = has_state cm k" for ids ss
    by (induction ss arbitrary: cm) (simp_all add: failure)
  then show ?thesis by (simp add: check_broker_health_def)
qed

lemma event_stateless:
  assumes "stateless b t"
  shows "stateless (fst (handle_event C ev b)) t"
proof (cases ev)
  case (Handle e req)
  have "stateless (fst (process_request C e req b)) t"
  proof (cases req)
    case (CreateTopic name n)
    show ?thesis
    proof (cases "hm_get (tm_topics (br_topics b)) name")
      case None
      then have "t \<noteq> name" using assms by (auto simp: stateless_def)
      then show ?thesis
        using assms CreateTopic None
        by (auto simp: stateless_def handle_create_topic_def create_topic_def Let_def hashmap_simps
            assign_replicas_other split: outcome.split)
    next
      case (Some to)
      then show ?thesis using assms CreateTopic by (simp add: handle_create_topic_def create_topic_def stateless_def)
    qed
  next
    case (Produce t' q ms)
    have "hm_get (tm_topics (fst (tm_append C t' q ms (br_topics b)))) t \<noteq> None"
      using assms tm_append_frame(2) [of C t' q ms "br_topics b" t] by (auto simp: stateless_def)
    then show ?thesis
      using assms Produce by (auto simp: stateless_def handle_produce_def Let_def update_leader_offset_def
          split: prod.split outcome.split)
  qed (use assms in \<open>simp_all add: stateless_def handle_join_group_def handle_leave_group_def handle_heartbeat_def
      handle_commit_offset_def handle_register_broker_def register_broker_def has_state_def Let_def
      split: prod.split outcome.split\<close>)
  then show ?thesis using Handle by (simp add: handle_event_def case_prod_beta Let_def)
qed (use assms in \<open>simp_all add: handle_event_def stateless_def tick_groups_def tick_health_def\<close>)

lemma run_stateless: "stateless b t \<Longrightarrow> run_events C evs b = (b', rs) \<Longrightarrow> stateless b' t"
proof (induction evs arbitrary: b rs)
  case (Cons ev evs)
  obtain rest where "run_events C evs (fst (handle_event C ev b)) = (b', rest)"
    using Cons.prems(2) by (cases "run_events C evs (fst (handle_event C ev b))") (auto simp: case_prod_beta Let_def)
  then show ?case by (rule Cons.IH [OF event_stateless [OF Cons.prems(1)]])
qed simp

end
