(* ===== verification/Queue_Connections.thy ===== *)
theory Queue_Connections
  imports Queue_Restart
begin

text \<open>
  Connections whose clients may send anything: the loop of a connection ends on every stream of
  bytes, never panics, answers the requests that can be read, and leaves a broker that implements the queue.
\<close>

section \<open>The loop ends\<close>

lemma decode_frame_consumes:
  "decode_frame de src = (src', Ok (Some x)) \<Longrightarrow> length src' + 4 \<le> length src"
  by (auto simp: decode_frame_def Let_def split: if_splits sum.splits)

lemma decode_frame_no_panic: "snd (decode_frame de src) \<noteq> Panic"
  by (simp add: decode_frame_def Let_def split: sum.split)

text \<open>The bytes that are left pay for the turns that are left, four for each.\<close>

lemma connection_loop_fuel:
  assumes "length src div 4 < fuel" and "length src div 4 < fuel'"
  shows "connection_loop C B es fuel i src b out = connection_loop C B es fuel' i src b out"
  using assms
proof (induction fuel arbitrary: fuel' i src b out)
  case (Suc n)
  obtain n' where n': "fuel' = Suc n'" using Suc.prems(2) by (cases fuel') auto
  have loop: "connection_loop C B es n (Suc i) src' b' out' = connection_loop C B es n' (Suc i) src' b' out'"
    if "gaffa_codec_decode B src = (src', Ok (Some req))" for src' req b' out'
  proof (rule Suc.IH)
    have "length src' + 4 \<le> length src"
      using decode_frame_consumes that by (fastforce simp: gaffa_codec_decode_def)
    then show "length src' div 4 < n" "length src' div 4 < n'"
      using Suc.prems n' by (simp_all add: div_le_mono less_Suc_eq_le)
  qed
  show ?case
    unfolding n' by (auto simp: loop split: prod.split outcome.split option.split)
qed simp

lemma drain_fuel:
  assumes "length src < fuel" and "length src < fuel'"
  shows "drain (decode_frame de) fuel src = drain (decode_frame de) fuel' src"
  using assms
proof (induction fuel arbitrary: fuel' src)
  case (Suc n)
  obtain n' where n': "fuel' = Suc n'" using Suc.prems(2) by (cases fuel') auto
  have "drain (decode_frame de) n src' = drain (decode_frame de) n' src'"
    if "decode_frame de src = (src', Ok (Some x))" for src' x
    using decode_frame_consumes [OF that] Suc.prems n' by (intro Suc.IH) simp_all
  then show ?case unfolding n' by (auto split: prod.split outcome.split option.split)
qed simp

section \<open>Any bytes\<close>

text \<open>The requests that can be read from a stream, and their handling as events.\<close>

definition stream_requests :: "bincode \<Rightarrow> bytes \<Rightarrow> request list" where
  "stream_requests B src = fst (drain (gaffa_codec_decode B) (Suc (length src)) src)"

fun events_from :: "(nat \<Rightarrow> environment) \<Rightarrow> nat \<Rightarrow> request list \<Rightarrow> event list" where
  "events_from es i [] = []"
| "events_from es i (r # rs) = Handle (es i) r # events_from es (Suc i) rs"

lemma stream_requests_Cons:
  assumes "gaffa_codec_decode B src = (src', Ok (Some req))"
  shows "stream_requests B src = req # stream_requests B src'"
proof -
  have "length src' < length src"
    using decode_frame_consumes assms by (fastforce simp: gaffa_codec_decode_def)
  then have "drain (gaffa_codec_decode B) (length src) src' = drain (gaffa_codec_decode B) (Suc (length src')) src'"
    unfolding gaffa_codec_decode_def by (intro drain_fuel) simp_all
  then show ?thesis using assms by (simp add: stream_requests_def split: prod.split)
qed

lemma stream_requests_Nil:
  "gaffa_codec_decode B src = (src', r) \<Longrightarrow> \<forall>req. r \<noteq> Ok (Some req) \<Longrightarrow> stream_requests B src = []"
  by (auto simp: stream_requests_def split: outcome.split option.split)

text \<open>
  What a connection does: it handles the requests in order and answers them, all of them or up to one
  whose response cannot be sent.
\<close>

definition connection_does ::
    "codecs \<Rightarrow> bincode \<Rightarrow> (nat \<Rightarrow> environment) \<Rightarrow> nat \<Rightarrow> request list \<Rightarrow> queue \<Rightarrow> bytes \<Rightarrow>
     broker \<times> bytes \<times> unit outcome \<Rightarrow> bool" where
  "connection_does C B es i reqs \<sigma> out res \<longleftrightarrow>
     (case res of (b, out', r) \<Rightarrow>
        \<exists>k resps. k \<le> length reqs \<and> length resps = k \<and> r \<noteq> Panic \<and>
          (k < length reqs \<longrightarrow> r \<noteq> Ok () \<and> resps \<noteq> [] \<and> is_err (snd (gaffa_codec_encode B (last resps) []))) \<and>
          queue_trace \<sigma> (events_from es i (take k reqs)) (zip (take k reqs) (map Ok resps)) \<and>
          out' = encode_stream (gaffa_codec_encode B) resps out \<and>
          queue_rel C b (fold queue_step (events_from es i (take k reqs)) \<sigma>))"

lemma connection_doesE:
  assumes "connection_does C B es i reqs \<sigma> out (b, out', r)"
  obtains k resps where "k \<le> length reqs" and "length resps = k" and "r \<noteq> Panic"
    and "k < length reqs \<longrightarrow> r \<noteq> Ok () \<and> resps \<noteq> [] \<and> is_err (snd (gaffa_codec_encode B (last resps) []))"
    and "queue_trace \<sigma> (events_from es i (take k reqs)) (zip (take k reqs) (map Ok resps))"
    and "out' = encode_stream (gaffa_codec_encode B) resps out"
    and "queue_rel C b (fold queue_step (events_from es i (take k reqs)) \<sigma>)"
  using assms unfolding connection_does_def prod.case by (elim exE conjE) (rule that)

lemma connection_does_end:
  assumes "queue_rel C b \<sigma>" and "r \<noteq> Panic"
  shows "connection_does C B es i [] \<sigma> out (b, out, r)"
  using assms by (auto simp: connection_does_def intro!: exI [of _ 0])

lemma connection_does_step:
  assumes "queue_answers (es i) \<sigma> req resp"
    and "connection_does C B es (Suc i) reqs (queue_next (es i) req \<sigma>) (fst (gaffa_codec_encode B resp out)) res"
  shows "connection_does C B es i (req # reqs) \<sigma> out res"
proof -
  obtain b out' r where res: "res = (b, out', r)" by (metis surj_pair)
  then obtain k resps where k: "k \<le> length reqs" "length resps = k" "r \<noteq> Panic"
      "k < length reqs \<longrightarrow> r \<noteq> Ok () \<and> resps \<noteq> [] \<and> is_err (snd (gaffa_codec_encode B (last resps) []))"
      "queue_trace (queue_next (es i) req \<sigma>) (events_from es (Suc i) (take k reqs)) (zip (take k reqs) (map Ok resps))"
      "out' = encode_stream (gaffa_codec_encode B) resps (fst (gaffa_codec_encode B resp out))"
      "queue_rel C b (fold queue_step (events_from es (Suc i) (take k reqs)) (queue_next (es i) req \<sigma>))"
    using assms(2) by (auto simp: connection_does_def)
  then show ?thesis
    unfolding connection_does_def res prod.case
    by (intro exI [of _ "Suc k"] exI [of _ "resp # resps"]) (simp add: assms(1))
qed

lemma connection_does_fail:
  assumes "queue_answers (es i) \<sigma> req resp" and "gaffa_codec_encode B resp out = (out', Err er)"
    and "queue_rel C b (queue_next (es i) req \<sigma>)"
  shows "connection_does C B es i (req # reqs) \<sigma> out (b, out', Err er)"
proof -
  have "is_err (snd (gaffa_codec_encode B resp []))"
    using assms(2) by (auto simp: gaffa_codec_encode_def encode_frame_def split: sum.splits if_splits)
  then show ?thesis
    unfolding connection_does_def prod.case using assms
    by (intro exI [of _ "Suc 0"] exI [of _ "[resp]"]) simp
qed

lemma encode_frame_no_panic: "snd (encode_frame ser x dst) \<noteq> Panic"
  by (simp add: encode_frame_def split: sum.split)

lemma connection_loop_does:
  assumes "queue_rel C b \<sigma>" and "run_admitted \<sigma> (events_from es i (stream_requests B src))"
    and "length src < fuel"
  shows "connection_does C B es i (stream_requests B src) \<sigma> out (connection_loop C B es fuel i src b out)"
  using assms
proof (induction fuel arbitrary: i src b \<sigma> out)
  case (Suc n)
  obtain src' d where d: "gaffa_codec_decode B src = (src', d)" by fastforce
  have "d \<noteq> Panic" using decode_frame_no_panic [of "de_request B" src] d by (simp add: gaffa_codec_decode_def)
  then consider (served) req where "d = Ok (Some req)" | (ended) "d = Ok None" | (failed) er where "d = Err er"
    by (metis not_None_eq outcome.exhaust)
  then show ?case
  proof cases
    case served
    note reqs = stream_requests_Cons [OF d [unfolded served]]
    obtain b' resp where p: "process_request C (es i) req b = (b', Ok resp)" "queue_answers (es i) \<sigma> req resp"
        "queue_rel C b' (queue_next (es i) req \<sigma>)"
      using request_serves [OF Suc.prems(1), of "es i" req] Suc.prems(2) by (auto simp: serves_def reqs)
    obtain out' r where e: "gaffa_codec_encode B resp out = (out', r)" by fastforce
    have "length src' < n"
      using decode_frame_consumes [of "de_request B" src src'] d Suc.prems(3) by (simp add: served gaffa_codec_decode_def)
    then have IH: "connection_does C B es (Suc i) (stream_requests B src') (queue_next (es i) req \<sigma>) out'
        (connection_loop C B es n (Suc i) src' b' out')"
      using Suc.prems(2) by (intro Suc.IH [OF p(3)]) (simp_all add: reqs)
    have "r \<noteq> Panic" using encode_frame_no_panic [of "ser_response B" resp out] e by (simp add: gaffa_codec_encode_def)
    show ?thesis
    proof (cases r)
      case (Ok u)
      then have "connection_loop C B es (Suc n) i src b out = connection_loop C B es n (Suc i) src' b' out'"
        using p(1) d e by (simp add: served)
      then show ?thesis
        unfolding reqs using IH p(2) e by (intro connection_does_step [of es i \<sigma> req resp]) simp_all
    next
      case (Err er)
      then have "connection_loop C B es (Suc n) i src b out = (b', out', Err er)"
        using p(1) d e by (simp add: served)
      then show ?thesis
        unfolding reqs using connection_does_fail [of es i \<sigma> req resp, OF p(2) e [unfolded Err] p(3)] by simp
    qed (simp add: \<open>r \<noteq> Panic\<close>)
  next
    case ended
    then show ?thesis
      using Suc.prems(1) d stream_requests_Nil [OF d] by (auto intro!: connection_does_end)
  next
    case failed
    then show ?thesis
      using Suc.prems(1) d stream_requests_Nil [OF d] by (auto intro!: connection_does_end)
  qed
qed simp

end
