(* ===== verification/Server_Runs.thy ===== *)
theory Server_Runs
  imports Queue_Connections "HOL-Library.Sublist"
begin

text \<open>
  The server with all its connections (\<open>run\<close> and \<open>handle_connection\<close> in \<open>broker/src/server.rs\<close>):
  clients connect, send bytes in pieces of any size and hang up; the task of each connection takes a turn when
  the runtime lets it, handles at most one request in it and fails alone; the two periodic tasks run in
  between. Whatever the schedule, the requests of all clients together are answered as by one queue, and each
  client reads the answers to its own requests in order.
\<close>

section \<open>The server\<close>

text \<open>
  \<open>co_received\<close> is all that has arrived, \<open>co_buffer\<close> what the framed reader still holds of it,
  \<open>co_eof\<close> that the client has hung up, and \<open>co_result\<close> what the task ended with.
\<close>

record connection =
  co_received :: bytes
  co_buffer :: bytes
  co_out :: bytes
  co_eof :: bool
  co_result :: "unit outcome option"

record server =
  sv_broker :: broker
  sv_connections :: "(nat, connection) hashmap"

definition server_new :: "broker \<Rightarrow> server" where
  "server_new b = \<lparr>sv_broker = b, sv_connections = []\<rparr>"

definition connection_new :: connection where
  "connection_new = \<lparr>co_received = [], co_buffer = [], co_out = [], co_eof = False, co_result = None\<rparr>"

definition accept_connection :: "nat \<Rightarrow> server \<Rightarrow> server" where
  "accept_connection i s =
     (case hm_get (sv_connections s) i of
        None \<Rightarrow> s\<lparr>sv_connections := hm_insert i connection_new (sv_connections s)\<rparr>
      | Some _ \<Rightarrow> s)"

text \<open>One turn of the loop: it returns the request that was handled and what the handler returned.\<close>

definition connection_turn ::
    "codecs \<Rightarrow> bincode \<Rightarrow> environment \<Rightarrow> connection \<Rightarrow> broker \<Rightarrow>
     connection \<times> broker \<times> (request \<times> response outcome) option" where
  "connection_turn C B e c b =
     (if co_result c \<noteq> None then (c, b, None)
      else
        case gaffa_codec_decode B (co_buffer c) of
          (buf, Ok (Some req)) \<Rightarrow>
            (case process_request C e req b of
               (b', Ok resp) \<Rightarrow>
                 (case gaffa_codec_encode B resp (co_out c) of
                    (out, Ok _) \<Rightarrow> (c\<lparr>co_buffer := buf, co_out := out\<rparr>, b', Some (req, Ok resp))
                  | (out, r) \<Rightarrow> (c\<lparr>co_buffer := buf, co_out := out, co_result := Some r\<rparr>, b', Some (req, Ok resp)))
             | (b', Err er) \<Rightarrow> (c\<lparr>co_buffer := buf, co_result := Some (Err er)\<rparr>, b', Some (req, Err er))
             | (b', Panic) \<Rightarrow> (c\<lparr>co_buffer := buf, co_result := Some Panic\<rparr>, b', Some (req, Panic)))
        | (buf, Ok None) \<Rightarrow>
            (if \<not> co_eof c then (c, b, None)
             else (c\<lparr>co_result := Some (if buf = [] then Ok () else Err (Io ''bytes remaining on stream''))\<rparr>, b, None))
        | (buf, Err er) \<Rightarrow> (c\<lparr>co_result := Some (Err er)\<rparr>, b, None)
        | (buf, Panic) \<Rightarrow> (c\<lparr>co_result := Some Panic\<rparr>, b, None))"

datatype server_event =
    Accept nat
  | Arrive nat bytes
  | Hangup nat
  | Turn nat environment
  | Groups environment
  | Health environment

text \<open>What a turn did: the connection, if it is one's, the event of the broker, and its answer.\<close>

type_synonym turn = "nat option \<times> event \<times> (request \<times> response outcome) list"

definition change_connection :: "nat \<Rightarrow> (connection \<Rightarrow> connection) \<Rightarrow> server \<Rightarrow> server" where
  "change_connection i f s =
     (case hm_get (sv_connections s) i of
        None \<Rightarrow> s
      | Some c \<Rightarrow>
          if co_eof c \<or> co_result c \<noteq> None then s
          else s\<lparr>sv_connections := hm_insert i (f c) (sv_connections s)\<rparr>)"

fun server_step :: "codecs \<Rightarrow> bincode \<Rightarrow> server_event \<Rightarrow> server \<Rightarrow> server \<times> turn list" where
  "server_step C B (Accept i) s = (accept_connection i s, [])"
| "server_step C B (Arrive i bs) s =
     (change_connection i (\<lambda>c. c\<lparr>co_received := co_received c @ bs, co_buffer := co_buffer c @ bs\<rparr>) s, [])"
| "server_step C B (Hangup i) s = (change_connection i (\<lambda>c. c\<lparr>co_eof := True\<rparr>) s, [])"
| "server_step C B (Turn i e) s =
     (case hm_get (sv_connections s) i of
        None \<Rightarrow> (s, [])
      | Some c \<Rightarrow>
          (case connection_turn C B e c (sv_broker s) of
             (c', b', ans) \<Rightarrow>
               (\<lparr>sv_broker = b', sv_connections = hm_insert i c' (sv_connections s)\<rparr>,
                case ans of None \<Rightarrow> [] | Some (req, r) \<Rightarrow> [(Some i, Handle e req, [(req, r)])])))"
| "server_step C B (Groups e) s = (s\<lparr>sv_broker := tick_groups e (sv_broker s)\<rparr>, [(None, GroupTick e, [])])"
| "server_step C B (Health e) s = (s\<lparr>sv_broker := tick_health e (sv_broker s)\<rparr>, [(None, HealthTick e, [])])"

fun server_run :: "codecs \<Rightarrow> bincode \<Rightarrow> server_event list \<Rightarrow> server \<Rightarrow> server \<times> turn list" where
  "server_run C B [] s = (s, [])"
| "server_run C B (ev # evs) s =
     (let (s1, ts) = server_step C B ev s; (s2, rest) = server_run C B evs s1 in (s2, ts @ rest))"

definition turn_events :: "turn list \<Rightarrow> event list" where
  "turn_events ts = map (\<lambda>(_, ev, _). ev) ts"

definition turn_answers :: "turn list \<Rightarrow> (request \<times> response outcome) list" where
  "turn_answers ts = concat (map (\<lambda>(_, _, rs). rs) ts)"

text \<open>The requests of one connection with their responses.\<close>

fun dialogue :: "nat \<Rightarrow> turn list \<Rightarrow> (request \<times> response) list" where
  "dialogue i [] = []"
| "dialogue i ((j, ev, rs) # ts) =
     (if j = Some i then List.map_filter (\<lambda>(req, r). case r of Ok resp \<Rightarrow> Some (req, resp) | _ \<Rightarrow> None) rs else [])
     @ dialogue i ts"

lemma dialogue_append [simp]: "dialogue i (ts @ ts') = dialogue i ts @ dialogue i ts'"
  by (induction i ts rule: dialogue.induct) simp_all

lemma turns_append [simp]:
  "turn_events (ts @ ts') = turn_events ts @ turn_events ts'"
  "turn_answers (ts @ ts') = turn_answers ts @ turn_answers ts'"
  by (simp_all add: turn_events_def turn_answers_def)

section \<open>The broker behind the server\<close>

lemma run_events_append:
  "run_events C (evs @ evs') b =
     (let (b1, rs) = run_events C evs b; (b2, rs') = run_events C evs' b1 in (b2, rs @ rs'))"
  by (induction evs arbitrary: b) (auto simp: Let_def split: prod.split)

lemma run_events_one: "run_events C [ev] b = (let (b1, rs) = handle_event C ev b in (b1, rs))"
  by (simp add: Let_def split: prod.split)

lemma connection_turn_answer:
  assumes "connection_turn C B e c b = (c', b', ans)"
  shows "case ans of None \<Rightarrow> b' = b | Some (req, r) \<Rightarrow> process_request C e req b = (b', r)"
  using assms
  by (auto simp: connection_turn_def split: if_splits prod.splits outcome.splits option.splits)

lemma server_step_events:
  assumes "server_step C B ev s = (s', ts)"
  shows "run_events C (turn_events ts) (sv_broker s) = (sv_broker s', turn_answers ts)"
proof (cases ev)
  case (Turn i e)
  show ?thesis
  proof (cases "hm_get (sv_connections s) i")
    case (Some c)
    obtain c' b' ans where t: "connection_turn C B e c (sv_broker s) = (c', b', ans)" by (metis surj_pair)
    from connection_turn_answer [OF t] show ?thesis
      using assms Turn Some t
      by (auto simp: turn_events_def turn_answers_def handle_event_def split: option.splits)
  qed (use assms Turn in \<open>simp add: turn_events_def turn_answers_def\<close>)
qed (use assms in \<open>auto simp: turn_events_def turn_answers_def handle_event_def accept_connection_def change_connection_def
    split: option.splits\<close>)

text \<open>The turns of a run are a run of the broker.\<close>

lemma server_run_events:
  assumes "server_run C B evs s = (s', ts)"
  shows "run_events C (turn_events ts) (sv_broker s) = (sv_broker s', turn_answers ts)"
  using assms
proof (induction evs arbitrary: s ts)
  case (Cons ev evs)
  obtain s1 ts1 where s1: "server_step C B ev s = (s1, ts1)" by fastforce
  obtain ts2 where ts2: "server_run C B evs s1 = (s', ts2)" "ts = ts1 @ ts2"
    using Cons.prems s1 by (auto simp: Let_def split: prod.splits)
  then show ?case
    using Cons.IH [OF ts2(1)] server_step_events [OF s1] by (simp add: run_events_append)
qed (simp add: turn_events_def turn_answers_def)

section \<open>Streams that grow\<close>

lemma decode_append:
  assumes "gaffa_codec_decode B src = (src', Ok (Some req))"
  shows "gaffa_codec_decode B (src @ bs) = (src' @ bs, Ok (Some req))"
proof -
  let ?len = "unat (u32_from_be_bytes (take 4 src))"
  have "4 + ?len \<le> length src" "\<not> MAX_MESSAGE_SIZE < ?len" and de: "de_request B (take ?len (drop 4 src)) = Inr req"
      "src' = drop ?len (drop 4 src)"
    using assms by (auto simp: gaffa_codec_decode_def decode_frame_def Let_def split: if_splits sum.splits)
  then show ?thesis
    by (simp add: gaffa_codec_decode_def decode_frame_def Let_def)
qed

lemma stream_requests_prefix: "prefix (stream_requests B src) (stream_requests B (src @ bs))"
proof (induction "length src" arbitrary: src rule: less_induct)
  case less
  obtain src' d where d: "gaffa_codec_decode B src = (src', d)" by fastforce
  show ?case
  proof (cases "\<exists>req. d = Ok (Some req)")
    case True
    then obtain req where req: "gaffa_codec_decode B src = (src', Ok (Some req))" using d by blast
    have "length src' < length src"
      using decode_frame_consumes req by (fastforce simp: gaffa_codec_decode_def)
    from less [OF this] show ?thesis
      by (simp add: stream_requests_Cons [OF req] stream_requests_Cons [OF decode_append [OF req]])
  next
    case False
    then show ?thesis by (simp add: stream_requests_Nil [OF d])
  qed
qed

lemma encode_stream_snoc:
  "encode_stream enc (xs @ [x]) dst = fst (enc x (encode_stream enc xs dst))"
  by (induction xs arbitrary: dst) simp_all

lemma encode_fails:
  assumes "gaffa_codec_encode B resp out = (out', Err er)"
  shows "out' = out" and "is_err (snd (gaffa_codec_encode B resp []))"
  using assms by (auto simp: gaffa_codec_encode_def encode_frame_def split: sum.splits if_splits)

lemma gaffa_no_panic:
  "gaffa_codec_encode B resp out = (out', r) \<Longrightarrow> r \<noteq> Panic"
  "gaffa_codec_decode B src = (src', d) \<Longrightarrow> d \<noteq> Panic"
  using encode_frame_no_panic [of "ser_response B" resp out] decode_frame_no_panic [of "de_request B" src]
  by (auto simp: gaffa_codec_encode_def gaffa_codec_decode_def)

section \<open>What a connection has done\<close>

definition unsendable :: "bincode \<Rightarrow> (request \<times> response) list \<Rightarrow> bool" where
  "unsendable B dlg \<longleftrightarrow> dlg \<noteq> [] \<and> is_err (snd (gaffa_codec_encode B (snd (last dlg)) []))"

text \<open>A running connection has in its buffer what is left of its stream, whatever else arrives.\<close>

definition conn_ok :: "bincode \<Rightarrow> connection \<Rightarrow> (request \<times> response) list \<Rightarrow> bool" where
  "conn_ok B c dlg \<longleftrightarrow>
     co_out c = encode_stream (gaffa_codec_encode B) (map snd dlg) [] \<and>
     (case co_result c of
        None \<Rightarrow> \<forall>bs. stream_requests B (co_received c @ bs) = map fst dlg @ stream_requests B (co_buffer c @ bs)
      | Some r \<Rightarrow> r \<noteq> Panic \<and> prefix (map fst dlg) (stream_requests B (co_received c)) \<and>
          (map fst dlg = stream_requests B (co_received c) \<or> r \<noteq> Ok () \<and> unsendable B dlg))"

lemma conn_ok_running:
  assumes "conn_ok B c dlg" and "co_result c = None"
  shows "stream_requests B (co_received c) = map fst dlg @ stream_requests B (co_buffer c)"
  using assms by (auto simp: conn_ok_def dest: spec [of _ "[]"])

lemma conn_ok_new: "conn_ok B connection_new []"
  by (simp add: conn_ok_def connection_new_def)

lemma conn_ok_ended:
  assumes "conn_ok B c dlg" and "co_result c = None" and "stream_requests B (co_buffer c) = []" and "r \<noteq> Panic"
  shows "conn_ok B (c\<lparr>co_result := Some r\<rparr>) dlg"
  using assms conn_ok_running [OF assms(1,2)] by (simp add: conn_ok_def)

lemma conn_ok_served:
  assumes ok: "conn_ok B c dlg" and run: "co_result c = None"
    and d: "gaffa_codec_decode B (co_buffer c) = (buf, Ok (Some req))"
    and e: "gaffa_codec_encode B resp (co_out c) = (out, r)"
  shows "conn_ok B (case r of Ok _ \<Rightarrow> c\<lparr>co_buffer := buf, co_out := out\<rparr>
           | _ \<Rightarrow> c\<lparr>co_buffer := buf, co_out := out, co_result := Some r\<rparr>) (dlg @ [(req, resp)])"
proof -
  have out: "out = encode_stream (gaffa_codec_encode B) (map snd (dlg @ [(req, resp)])) []"
    using ok e by (simp add: conn_ok_def encode_stream_snoc)
  have stream: "stream_requests B (co_received c @ bs) = map fst (dlg @ [(req, resp)]) @ stream_requests B (buf @ bs)" for bs
    using ok run stream_requests_Cons [OF decode_append [OF d]] by (simp add: conn_ok_def)
  have "r \<noteq> Panic" by (rule gaffa_no_panic(1) [OF e])
  then show ?thesis
  proof (cases r)
    case (Ok u)
    then show ?thesis using out stream run by (simp add: conn_ok_def)
  next
    case (Err er)
    have "unsendable B (dlg @ [(req, resp)])" using encode_fails(2) e Err by (simp add: unsendable_def)
    moreover have "prefix (map fst (dlg @ [(req, resp)])) (stream_requests B (co_received c))"
      using stream [of "[]"] by simp
    ultimately show ?thesis using out Err by (simp add: conn_ok_def)
  qed simp
qed

lemma connection_turn_ok:
  assumes ok: "conn_ok B c dlg" and rel: "queue_rel C b \<sigma>" and t: "connection_turn C B e c b = (c', b', ans)"
    and admitted: "\<And>req r. ans = Some (req, r) \<Longrightarrow> env_ok e \<and> queue_admits \<sigma> req"
  obtains (quiet) "ans = None" and "conn_ok B c' dlg"
    | (served) req resp where "ans = Some (req, Ok resp)" and "conn_ok B c' (dlg @ [(req, resp)])"
proof (cases "co_result c")
  case (Some r)
  then show thesis using t ok quiet by (simp add: connection_turn_def)
next
  case None
  obtain buf d where d: "gaffa_codec_decode B (co_buffer c) = (buf, d)" by fastforce
  have "d \<noteq> Panic" by (rule gaffa_no_panic(2) [OF d])
  then consider (req) req where "d = Ok (Some req)" | (wait) "d = Ok None" | (failed) er where "d = Err er"
    by (metis not_None_eq outcome.exhaust)
  then show thesis
  proof cases
    case (req req)
    obtain b1 r where p: "process_request C e req b = (b1, r)" by fastforce
    have "\<exists>r'. ans = Some (req, r')"
      using t d p None by (auto simp: connection_turn_def req split: outcome.splits prod.splits)
    then have "serves C e req b \<sigma>" using request_serves [OF rel] admitted by blast
    then obtain resp where resp: "r = Ok resp" using p by (auto simp: serves_def)
    obtain out r' where e': "gaffa_codec_encode B resp (co_out c) = (out, r')" by fastforce
    have "ans = Some (req, Ok resp)"
      "c' = (case r' of Ok _ \<Rightarrow> c\<lparr>co_buffer := buf, co_out := out\<rparr>
           | _ \<Rightarrow> c\<lparr>co_buffer := buf, co_out := out, co_result := Some r'\<rparr>)"
      using t d p e' None by (auto simp: connection_turn_def req resp split: outcome.splits)
    then show thesis using conn_ok_served [OF ok None _ e'] d served by (simp add: req)
  next
    case wait
    then show thesis
      using t d None ok conn_ok_ended [OF ok None] stream_requests_Nil [OF d]
      by (intro quiet) (auto simp: connection_turn_def split: if_splits)
  next
    case (failed er)
    then show thesis
      using t d None conn_ok_ended [OF ok None] stream_requests_Nil [OF d]
      by (intro quiet) (auto simp: connection_turn_def)
  qed
qed

section \<open>Runs\<close>

definition conn_at :: "bincode \<Rightarrow> connection option \<Rightarrow> (request \<times> response) list \<Rightarrow> bool" where
  "conn_at B oc dlg \<longleftrightarrow> (case oc of None \<Rightarrow> dlg = [] | Some c \<Rightarrow> conn_ok B c dlg)"

definition conns_ok :: "bincode \<Rightarrow> server \<Rightarrow> (nat \<Rightarrow> (request \<times> response) list) \<Rightarrow> bool" where
  "conns_ok B s hist \<longleftrightarrow> (\<forall>i. conn_at B (hm_get (sv_connections s) i) (hist i))"

lemma conns_okD: "conns_ok B s hist \<Longrightarrow> conn_at B (hm_get (sv_connections s) i) (hist i)"
  by (simp add: conns_ok_def)

lemma conns_ok_insert:
  assumes "conns_ok B s hist" and "conn_ok B c dlg"
    and "sv_connections s' = hm_insert i c (sv_connections s)" and "hist' = hist(i := dlg)"
  shows "conns_ok B s' hist'"
  unfolding conns_ok_def assms(3,4)
proof (rule allI)
  show "conn_at B (hm_get (hm_insert i c (sv_connections s)) j) ((hist(i := dlg)) j)" for j
    using conns_okD [OF assms(1), of j] assms(2) by (cases "j = i") (simp_all add: hashmap_simps conn_at_def)
qed

lemma conn_ok_change:
  assumes "conn_ok B c dlg" and "co_result c = None"
  shows "conn_ok B (c\<lparr>co_received := co_received c @ bs, co_buffer := co_buffer c @ bs\<rparr>) dlg"
    and "conn_ok B (c\<lparr>co_eof := True\<rparr>) dlg"
  using assms by (simp_all add: conn_ok_def)

lemma change_connection_ok:
  assumes "conns_ok B s hist" and "\<And>c. co_result c = None \<Longrightarrow> conn_ok B c (hist i) \<Longrightarrow> conn_ok B (f c) (hist i)"
  shows "conns_ok B (change_connection i f s) hist"
proof (cases "\<exists>c. hm_get (sv_connections s) i = Some c \<and> \<not> co_eof c \<and> co_result c = None")
  case True
  then obtain c where c: "hm_get (sv_connections s) i = Some c" "\<not> co_eof c" "co_result c = None" by blast
  then have "conn_ok B c (hist i)" using conns_okD [OF assms(1), of i] by (simp add: conn_at_def)
  from assms(2) [OF c(3) this] show ?thesis
    by (rule conns_ok_insert [OF assms(1)]) (simp add: change_connection_def c, rule fun_upd_triv [symmetric])
next
  case False
  then have "change_connection i f s = s" by (auto simp: change_connection_def split: option.split)
  then show ?thesis using assms(1) by simp
qed

lemma accept_connection_ok:
  assumes "conns_ok B s hist"
  shows "conns_ok B (accept_connection i s) hist"
proof (cases "hm_get (sv_connections s) i")
  case None
  then have "hist i = []" using conns_okD [OF assms, of i] by (simp add: conn_at_def)
  then have "hist = hist(i := [])" by (metis fun_upd_triv)
  then show ?thesis by (intro conns_ok_insert [OF assms conn_ok_new]) (simp_all add: accept_connection_def None)
qed (use assms in \<open>simp add: accept_connection_def\<close>)

lemma server_step_ok:
  assumes ok: "conns_ok B s hist" and rel: "queue_rel C (sv_broker s) \<sigma>" and step: "server_step C B ev s = (s', ts)"
    and admitted: "run_admitted \<sigma> (turn_events ts)"
  shows "conns_ok B s' (\<lambda>i. hist i @ dialogue i ts)"
proof (cases ev)
  case (Accept i)
  then show ?thesis using step accept_connection_ok [OF ok] by auto
next
  case (Turn i e)
  show ?thesis
  proof (cases "hm_get (sv_connections s) i")
    case None
    then show ?thesis using step ok Turn by simp
  next
    case (Some c)
    have c: "conn_ok B c (hist i)" using conns_okD [OF ok, of i] Some by (simp add: conn_at_def)
    obtain c' b' ans where t: "connection_turn C B e c (sv_broker s) = (c', b', ans)" by (metis surj_pair)
    have s': "sv_connections s' = hm_insert i c' (sv_connections s)"
      and ts: "ts = (case ans of None \<Rightarrow> [] | Some (req, r) \<Rightarrow> [(Some i, Handle e req, [(req, r)])])"
      using step Turn Some t by auto
    have adm: "env_ok e \<and> queue_admits \<sigma> req" if "ans = Some (req, r)" for req r
      using admitted that by (simp add: ts turn_events_def)
    show ?thesis
    proof (rule connection_turn_ok [OF c rel t adm])
      assume "ans = None" and c': "conn_ok B c' (hist i)"
      then show ?thesis by (intro conns_ok_insert [OF ok c' s']) (auto simp: ts)
    next
      fix req resp
      assume "ans = Some (req, Ok resp)" and c': "conn_ok B c' (hist i @ [(req, resp)])"
      then show ?thesis by (intro conns_ok_insert [OF ok c' s']) (auto simp: ts map_filter_simps)
    qed
  qed
next
  case (Groups e)
  then show ?thesis using step ok by (auto simp: conns_ok_def)
next
  case (Health e)
  then show ?thesis using step ok by (auto simp: conns_ok_def)
qed (use step change_connection_ok [OF ok] conn_ok_change in auto)

lemma run_admitted_append:
  "run_admitted \<sigma> (evs @ evs') \<longleftrightarrow> run_admitted \<sigma> evs \<and> run_admitted (fold queue_step evs \<sigma>) evs'"
  by (induction evs arbitrary: \<sigma>) auto

lemma server_run_ok:
  assumes "conns_ok B s hist" and "queue_rel C (sv_broker s) \<sigma>" and "server_run C B evs s = (s', ts)"
    and "run_admitted \<sigma> (turn_events ts)"
  shows "conns_ok B s' (\<lambda>i. hist i @ dialogue i ts)"
  using assms
proof (induction evs arbitrary: s \<sigma> hist ts)
  case (Cons ev evs)
  obtain s1 ts1 where s1: "server_step C B ev s = (s1, ts1)" by fastforce
  obtain ts2 where ts2: "server_run C B evs s1 = (s', ts2)" "ts = ts1 @ ts2"
    using Cons.prems(3) s1 by (auto simp: Let_def split: prod.splits)
  then have adm: "run_admitted \<sigma> (turn_events ts1)" "run_admitted (fold queue_step (turn_events ts1) \<sigma>) (turn_events ts2)"
    using Cons.prems(4) by (simp_all add: run_admitted_append)
  have "queue_rel C (sv_broker s1) (fold queue_step (turn_events ts1) \<sigma>)"
    using run_serves [OF Cons.prems(2) adm(1) server_step_events [OF s1]] by blast
  from Cons.IH [OF server_step_ok [OF Cons.prems(1,2) s1 adm(1)] this ts2(1) adm(2)] show ?case
    by (simp add: ts2(2))
qed simp

section \<open>Progress of a connection\<close>

definition is_turn :: "nat \<Rightarrow> server_event \<Rightarrow> bool" where
  "is_turn i ev = (case ev of Turn j _ \<Rightarrow> j = i | _ \<Rightarrow> False)"

definition is_arrival :: "nat \<Rightarrow> server_event \<Rightarrow> bool" where
  "is_arrival i ev = (case ev of Arrive j _ \<Rightarrow> j = i | _ \<Rightarrow> False)"

text \<open>A connection is idle when it has ended or waits for more bytes.\<close>

definition idle :: "bincode \<Rightarrow> connection \<Rightarrow> bool" where
  "idle B c \<longleftrightarrow> co_result c \<noteq> None \<or> stream_requests B (co_buffer c) = []"

lemma connection_turn_progress:
  assumes "connection_turn C B e c b = (c', b', ans)"
  shows "co_received c' = co_received c" and "idle B c \<Longrightarrow> idle B c'"
    and "idle B c' \<or> length (co_buffer c') + 4 \<le> length (co_buffer c)"
proof -
  obtain buf d where d: "gaffa_codec_decode B (co_buffer c) = (buf, d)" by fastforce
  show "co_received c' = co_received c"
    using assms by (auto simp: connection_turn_def split: if_splits prod.splits outcome.splits option.splits)
  have consumed: "length buf + 4 \<le> length (co_buffer c)" if "d = Ok (Some req)" for req
    using decode_frame_consumes d that by (fastforce simp: gaffa_codec_decode_def)
  show progress: "idle B c' \<or> length (co_buffer c') + 4 \<le> length (co_buffer c)"
  proof (cases "\<exists>req. d = Ok (Some req)")
    case True
    then show ?thesis
      using assms d consumed
      by (auto simp: connection_turn_def idle_def split: if_splits prod.splits outcome.splits option.splits)
  next
    case False
    then have "stream_requests B (co_buffer c) = []" using stream_requests_Nil [OF d] by blast
    then show ?thesis
      using assms d False
      by (auto simp: connection_turn_def idle_def split: if_splits prod.splits outcome.splits option.splits)
  qed
  show "idle B c'" if idle: "idle B c"
  proof (cases "co_result c")
    case None
    then have "d \<noteq> Ok (Some req)" for req
      using stream_requests_Cons [of B "co_buffer c" buf req] d idle by (auto simp: idle_def)
    then show ?thesis
      using assms d idle
      by (auto simp: connection_turn_def idle_def split: if_splits prod.splits outcome.splits option.splits)
  qed (use assms idle in \<open>simp add: connection_turn_def\<close>)
qed

lemma server_step_progress:
  assumes "server_step C B ev s = (s', ts)" and "hm_get (sv_connections s) i = Some c" and "\<not> is_arrival i ev"
  shows "\<exists>c'. hm_get (sv_connections s') i = Some c' \<and> co_received c' = co_received c \<and> (idle B c \<longrightarrow> idle B c') \<and>
           (idle B c' \<or> length (co_buffer c') + (if is_turn i ev then 4 else 0) \<le> length (co_buffer c))"
proof (cases "is_turn i ev")
  case True
  then obtain e where ev: "ev = Turn i e" by (auto simp: is_turn_def split: server_event.splits)
  obtain c' b' ans where t: "connection_turn C B e c (sv_broker s) = (c', b', ans)" by (metis surj_pair)
  have "hm_get (sv_connections s') i = Some c'" using assms(1,2) ev t by (auto simp: hashmap_simps)
  then show ?thesis using connection_turn_progress [OF t] True by auto
next
  case False
  have "\<exists>c'. hm_get (sv_connections s') i = Some c' \<and> co_received c' = co_received c \<and>
      co_buffer c' = co_buffer c \<and> co_result c' = co_result c"
    using assms False
    by (cases ev)
      (auto simp: is_turn_def is_arrival_def accept_connection_def change_connection_def hashmap_simps
        split: option.splits prod.splits)
  then show ?thesis using False by (auto simp: idle_def)
qed

lemma server_run_progress:
  assumes "server_run C B evs s = (s', ts)" and "hm_get (sv_connections s) i = Some c" and "\<not> list_ex (is_arrival i) evs"
  shows "\<exists>c'. hm_get (sv_connections s') i = Some c' \<and> co_received c' = co_received c \<and> (idle B c \<longrightarrow> idle B c') \<and>
           (idle B c' \<or> length (co_buffer c') + 4 * length (filter (is_turn i) evs) \<le> length (co_buffer c))"
  using assms
proof (induction evs arbitrary: s c ts)
  case (Cons ev evs)
  obtain s1 ts1 where s1: "server_step C B ev s = (s1, ts1)" by fastforce
  obtain ts2 where ts2: "server_run C B evs s1 = (s', ts2)"
    using Cons.prems(1) s1 by (auto simp: Let_def split: prod.splits)
  have "\<not> is_arrival i ev" using Cons.prems(3) by simp
  then obtain c1 where c1: "hm_get (sv_connections s1) i = Some c1" "co_received c1 = co_received c"
      "idle B c \<longrightarrow> idle B c1"
      "idle B c1 \<or> length (co_buffer c1) + (if is_turn i ev then 4 else 0) \<le> length (co_buffer c)"
    using server_step_progress [OF s1 Cons.prems(2)] by blast
  have "\<not> list_ex (is_arrival i) evs" using Cons.prems(3) by simp
  from Cons.IH [OF ts2 c1(1) this] c1(2-) show ?case by (cases "is_turn i ev") auto
qed simp

lemma server_run_append:
  "server_run C B (evs @ evs') s =
     (let (s1, ts) = server_run C B evs s; (s2, ts') = server_run C B evs' s1 in (s2, ts @ ts'))"
  by (induction evs arbitrary: s) (auto simp: Let_def split: prod.split)

lemma conn_ok_facts:
  assumes "conn_ok B c dlg"
  shows "prefix (map fst dlg) (stream_requests B (co_received c)) \<and>
         co_out c = encode_stream (gaffa_codec_encode B) (map snd dlg) [] \<and> co_result c \<noteq> Some Panic \<and>
         (idle B c \<longrightarrow> map fst dlg = stream_requests B (co_received c) \<or> unsendable B dlg)"
proof (cases "co_result c")
  case None
  from conn_ok_running [OF assms None] show ?thesis using assms None by (auto simp: conn_ok_def idle_def)
qed (use assms in \<open>auto simp: conn_ok_def\<close>)

section \<open>One connection alone\<close>

lemma turns_ended:
  assumes "hm_get (sv_connections s) i = Some c" and "co_result c \<noteq> None"
  shows "sv_broker (fst (server_run C B (map (\<lambda>j. Turn i (es j)) js) s)) = sv_broker s \<and>
         hm_get (sv_connections (fst (server_run C B (map (\<lambda>j. Turn i (es j)) js) s))) i = Some c"
  using assms
  by (induction js arbitrary: s) (simp_all add: connection_turn_def hashmap_simps split: prod.split)

text \<open>The loop of a connection is a sequence of its turns.\<close>

lemma turns_loop:
  assumes "hm_get (sv_connections s) i = Some c" and "co_result c = None" and "co_eof c"
    and "length (co_buffer c) < n"
    and "connection_loop C B es n k (co_buffer c) (sv_broker s) (co_out c) = (b', out, r)"
  shows "\<exists>s' ts c'. server_run C B (map (\<lambda>j. Turn i (es j)) [k..<k + n]) s = (s', ts) \<and> sv_broker s' = b' \<and>
           hm_get (sv_connections s') i = Some c' \<and> co_out c' = out \<and> co_result c' = Some r"
  using assms
proof (induction n arbitrary: k s c)
  case (Suc n)
  let ?turns = "\<lambda>k n. map (\<lambda>j. Turn i (es j)) [k..<k + n]"
  have turns: "?turns k (Suc n) = Turn i (es k) # ?turns (Suc k) n" by (simp add: upt_rec)
  obtain c1 b1 ans where t: "connection_turn C B (es k) c (sv_broker s) = (c1, b1, ans)" by (metis surj_pair)
  obtain s1 ts1 where s1: "server_step C B (Turn i (es k)) s = (s1, ts1)" by fastforce
  then have s1': "sv_broker s1 = b1" "hm_get (sv_connections s1) i = Some c1"
    using Suc.prems(1) t by (auto simp: hashmap_simps)
  obtain buf d where d: "gaffa_codec_decode B (co_buffer c) = (buf, d)" by fastforce
  show ?case
  proof (cases "co_result c1")
    case None
    have c1: "co_eof c1" "length (co_buffer c1) < n"
      "connection_loop C B es n (Suc k) (co_buffer c1) (sv_broker s1) (co_out c1) = (b', out, r)"
      using t None Suc.prems d decode_frame_consumes [of "de_request B" "co_buffer c" buf] s1'
      by (auto simp: connection_turn_def gaffa_codec_decode_def split: if_splits prod.splits outcome.splits option.splits)
    obtain s' ts c' where "server_run C B (?turns (Suc k) n) s1 = (s', ts)" "sv_broker s' = b'"
        "hm_get (sv_connections s') i = Some c'" "co_out c' = out" "co_result c' = Some r"
      using Suc.IH [OF s1'(2) None c1] by blast
    then show ?thesis unfolding turns by (simp add: s1 del: upt_Suc server_step.simps)
  next
    case (Some r1)
    have "b1 = b'" "co_out c1 = out" "r1 = r"
      using t Some Suc.prems d
      by (auto simp: connection_turn_def split: if_splits prod.splits outcome.splits option.splits)
    then show ?thesis
      using turns_ended [OF s1'(2), of C B es "[Suc k..<Suc k + n]"] Some s1'(1)
      unfolding turns by (simp add: s1 case_prod_beta Let_def del: upt_Suc server_step.simps)
  qed
qed simp

lemma one_connection:
  assumes "handle_connection C B es src b = (b', out, r)"
  obtains s ts c where
    "server_run C B ([Accept i, Arrive i src, Hangup i] @ map (\<lambda>j. Turn i (es j)) [0..<Suc (length src)])
       (server_new b) = (s, ts)"
    and "sv_broker s = b'" and "hm_get (sv_connections s) i = Some c" and "co_out c = out" and "co_result c = Some r"
proof -
  let ?c = "connection_new\<lparr>co_received := src, co_buffer := src, co_eof := True\<rparr>"
  obtain s1 where s1: "server_run C B [Accept i, Arrive i src, Hangup i] (server_new b) = (s1, [])"
      "hm_get (sv_connections s1) i = Some ?c" "sv_broker s1 = b"
    by (simp add: server_new_def accept_connection_def change_connection_def connection_new_def hashmap_simps)
  have "connection_loop C B es (Suc (length src)) 0 (co_buffer ?c) (sv_broker s1) (co_out ?c) = (b', out, r)"
    using assms s1(3) by (simp add: handle_connection_def connection_new_def del: connection_loop.simps)
  with turns_loop [OF s1(2), of "Suc (length src)" C B es 0] obtain s ts c where
    "server_run C B (map (\<lambda>j. Turn i (es j)) [0..<Suc (length src)]) s1 = (s, ts)" "sv_broker s = b'"
    "hm_get (sv_connections s) i = Some c" "co_out c = out" "co_result c = Some r"
    by (auto simp: connection_new_def simp del: upt_Suc connection_loop.simps)
  then show thesis
    using s1(1) by (intro that [of s ts c]) (simp_all only: server_run_append Let_def prod.case append_Nil)
qed

end
