(* ===== verification/Concurrent_Create.thy ===== *)
theory Concurrent_Create
  imports Queue_Restart
begin

text \<open>
  Two clients that create the same topic at once. \<open>create_topic\<close> in \<open>storage/src/topic.rs\<close> first asks whether the
  topic is there and then builds and inserts it; nothing keeps a second handler from asking in between. What
  the second handler builds stands on the files of the first one's topic, which it neither truncates
  nor reads.
\<close>

section \<open>The two steps\<close>

definition create_check :: "string \<Rightarrow> broker \<Rightarrow> bool" where
  "create_check name b \<longleftrightarrow> hm_get (tm_topics (br_topics b)) name = None"

text \<open>A topic that is there by now is replaced; handlers that still hold it are not considered.\<close>

definition create_build :: "environment \<Rightarrow> string \<Rightarrow> u32 \<Rightarrow> broker \<Rightarrow> broker \<times> response outcome" where
  "create_build e name n b =
     (let tm = br_topics b;
          dirs = (case hm_get (tm_topics tm) name of
                    Some t \<Rightarrow> topic_dirs t
                  | None \<Rightarrow> (case hm_get (tm_disk tm) name of None \<Rightarrow> [] | Some dirs \<Rightarrow> dirs));
          tm' = tm\<lparr>tm_topics := hm_insert name (topic_new name n (tm_data_dir tm) dirs) (tm_topics tm),
                   tm_disk := hm_remove name (tm_disk tm)\<rparr> in
      case assign_replicas e (br_replication b) name (u32_range n) (br_cluster b) of
        Ok cm \<Rightarrow> (b\<lparr>br_topics := tm', br_cluster := cm\<rparr>, Ok (CreateTopicSuccess name n))
      | Err er \<Rightarrow> (b\<lparr>br_topics := tm'\<rparr>, Err er)
      | Panic \<Rightarrow> (b\<lparr>br_topics := tm'\<rparr>, Panic))"

text \<open>One handler alone does what the handler of the request does in one piece.\<close>

lemma create_steps_sequential:
  "handle_create_topic e name n b =
     (if create_check name b then create_build e name n b
      else (b, Ok (CreateTopicError (error_to_string
        (InvalidMessage (''Topic '' @ [CHR 0x27] @ name @ [CHR 0x27] @ '' already exists''))))))"
  by (simp add: handle_create_topic_def create_topic_def create_check_def create_build_def Let_def
      split: outcome.split)

section \<open>A partition on the files of another one\<close>

lemma first_log_file:
  assumes "part_rep C p rss"
  shows "hm_get (partition_files p) (log_name 0) = Some (encode_all C (hd rss))"
proof -
  obtain s ss where ss: "p_segments p = s # ss" using assms by (cases "p_segments p") (auto simp: part_rep_def)
  then obtain rs rss' where "rss = rs # rss'" "seg_rep C s rs" "seg_base_offset s = 0"
    using assms by (auto simp: part_rep_def split: list.splits)
  then show ?thesis by (simp add: partition_files_def ss segment_files_def seg_rep_def seg_core_def)
qed

lemma first_chunk:
  assumes "part_rep C p rss" and "concat rss = r # rs"
  shows "hd (hd rss) = r" and "hd rss \<noteq> []" and "\<forall>x \<in> set (hd rss). record_fits C x" and "dr_offset r = 0"
proof -
  obtain s ss where ss: "p_segments p = s # ss" using assms by (cases "p_segments p") (auto simp: part_rep_def)
  then obtain rs0 rss' where rss: "rss = rs0 # rss'" and s: "seg_rep C s rs0" "seg_base_offset s = 0"
      and ne: "ss \<noteq> [] \<longrightarrow> rs0 \<noteq> []" and tail: "chain (seg_rep C) (length rs0) ss rss'"
    using assms by (auto simp: part_rep_def split: list.splits)
  have "rs0 \<noteq> []"
  proof
    assume "rs0 = []"
    then have "ss = []" using ne by blast
    then have "rss' = []" using tail by simp
    then show False using assms(2) rss \<open>rs0 = []\<close> by simp
  qed
  then show "hd rss \<noteq> []" and "hd (hd rss) = r" using assms(2) rss by (cases rs0; auto)+
  show "\<forall>x \<in> set (hd rss). record_fits C x" using s(1) by (simp add: rss seg_rep_def seg_core_def)
  have "consecutive 0 rs0" using s by (simp add: seg_rep_def seg_core_def)
  then have "dr_offset (rs0 ! 0) = 0" using \<open>rs0 \<noteq> []\<close> by (auto simp: consecutive_def)
  then show "dr_offset r = 0" using \<open>rs0 \<noteq> []\<close> assms(2) rss by (cases rs0) simp_all
qed

lemma new_partition_fetch: "partition_fetch C (partition_new t q d files) off n = Ok []"
  by (simp add: partition_fetch_def find_segment_index_def partition_new_def partition_with_config_def
      create_in_def segment_create_def read_batch_def bisect.simps)

text \<open>A few small messages are written without an entry of the index.\<close>

lemma append_loop_plain:
  assumes "sc_compression (seg_config s) = CNone" and "list_all small_message ms"
    and "unat (seg_records_since_index s) + length ms \<le> unat (sc_index_interval (seg_config s))"
    and "cursor (seg_log_file s) = length (contents (seg_log_file s))"
  shows "\<exists>s' pos'. append_loop C ms s pos = (s', Ok pos') \<and>
           contents (seg_log_file s') = contents (seg_log_file s) @
             encode_all C (records_for (seg_config s) (seg_next_offset s) ms) \<and>
           seg_index s' = seg_index s \<and> seg_next_offset s' = seg_next_offset s + of_nat (length ms) \<and>
           seg_base_offset s' = seg_base_offset s"
  using assms
proof (induction ms arbitrary: s pos)
  case (Cons m ms)
  let ?r = "record_for (seg_config s) (seg_next_offset s) m"
  let ?s = "append_one s (enc_bytes C ?r) pos"
  have fits: "record_fits C ?r" using Cons.prems by (intro plain_record(1)) simp_all
  have few: "\<not> sc_index_interval (seg_config s) \<le> seg_records_since_index s"
    using Cons.prems(3) by (simp add: word_le_nat_alt)
  then have ix: "seg_index ?s = seg_index s" "seg_records_since_index ?s = seg_records_since_index s + 1"
    by (simp_all add: append_one_def Let_def)
  have bound: "unat (sc_index_interval (seg_config s)) < 2 ^ 32" using unat_u32_less by simp
  then have "unat (seg_records_since_index s + 1) = unat (seg_records_since_index s) + 1"
    using Cons.prems(3) by (simp add: unat_word_ariths)
  then have "unat (seg_records_since_index ?s) + length ms \<le> unat (sc_index_interval (seg_config ?s))"
    using Cons.prems(3) ix by (simp add: frame_simps)
  from Cons.IH [OF _ _ this] Cons.prems ix show ?case
    by (auto simp: append_loop_Cons encode_fits [OF fits] frame_simps write_all_at_end add.assoc simp del: append_loop.simps)
qed simp

lemma new_partition_append:
  assumes C: "codecs_ok C" and prior: "hm_get files (log_name 0) = Some (encode_all C rs)" "rs \<noteq> []"
    "\<forall>x \<in> set rs. record_fits C x" "dr_offset (hd rs) = 0"
    and ms: "ms \<noteq> []" "list_all small_message ms" "length ms \<le> 10"
  obtains p where "partition_append C ms (partition_new t q d files) = (p, Ok 0)"
    and "partition_fetch C p 0 1 = Ok [to_record t q (hd rs)]"
proof -
  let ?s = "create_in files 0 segment_config_default" and ?p = "partition_new t q d files"
  let ?seek = "?s\<lparr>seg_log_file := seek_end (seg_log_file ?s)\<rparr>"
  have s0: "seg_config ?seek = segment_config_default" "seg_next_offset ?seek = 0" "seg_base_offset ?seek = 0"
      "contents (seg_log_file ?seek) = encode_all C rs" "idx_size (seg_index ?seek) = 0" "seg_records_since_index ?seek = 0"
      "cursor (seg_log_file ?seek) = length (contents (seg_log_file ?seek))"
    using prior(1) by (simp_all add: create_in_def segment_create_def seek_end_def file_open_def index_create_def)
  have "\<exists>s' pos'. append_loop C ms ?seek (seg_size ?seek) = (s', Ok pos') \<and>
      contents (seg_log_file s') = contents (seg_log_file ?seek) @ encode_all C (records_for (seg_config ?seek) (seg_next_offset ?seek) ms) \<and>
      seg_index s' = seg_index ?seek \<and> seg_next_offset s' = seg_next_offset ?seek + of_nat (length ms) \<and>
      seg_base_offset s' = seg_base_offset ?seek"
    by (rule append_loop_plain) (use ms(2,3) s0 in \<open>simp_all add: segment_config_default_def\<close>)
  then obtain s1 pos1 new where s1: "append_loop C ms ?seek (seg_size ?seek) = (s1, Ok pos1)"
      "contents (seg_log_file s1) = encode_all C rs @ new" "seg_index s1 = seg_index ?seek"
      "seg_next_offset s1 = of_nat (length ms)" "seg_base_offset s1 = 0"
    unfolding s0(2,3,4) add_0 by (elim exE conjE) (rule that)
  let ?wrote = "s1\<lparr>seg_size := pos1\<rparr>"
  obtain r rs' where rs: "rs = r # rs'" using prior(2) by (cases rs) auto
  have r: "record_fits C r" "dr_offset r = 0" using prior(3,4) rs by simp_all
  have "0 < length (encode_all C rs @ new)" using enc_bytes_not_Nil [OF r(1)] by (simp add: rs)
  then have map: "segment_remap ?wrote = ?wrote\<lparr>seg_mmap := Some (enc_bytes C r @ encode_all C rs' @ new)\<rparr>"
    by (simp add: segment_remap_def s1(2) rs)
  let ?after = "?p\<lparr>p_segments := [segment_remap ?wrote]\<rparr>"
  have "p_segments ?p = [create_in files 0 segment_config_default]"
    by (simp add: partition_new_def partition_with_config_def)
  moreover have "rotate ?p = ?p"
    by (simp add: rotate_def partition_new_def partition_with_config_def should_rotate_def create_in_def
        segment_create_def segment_config_default_def DEFAULT_MAX_SEGMENT_SIZE_def)
  moreover have "segment_append C ms ?s = (segment_remap ?wrote, Ok 0)"
    using ms(1) s1(1) s0(2) by (simp add: segment_append_def Let_def)
  ultimately have append: "partition_append C ms ?p = (?after, Ok 0)"
    using ms(1) by (simp add: partition_append_def)
  have len: "(0::u64) < of_nat (length ms)"
    using ms(1,3) by (simp add: word_less_nat_alt unat_of_nat_u64)
  have "batch_loop C 0 1 False [] (enc_bytes C r @ encode_all C rs' @ new) = Ok [r]"
    by (simp add: batch_loop.simps [of C 0 _ _ _ "_ @ _"] decode_encode [OF C r(1)] batch_loop.simps [of C 0 _ _ "[r]"])
  then have "read_batch C (segment_remap ?wrote) 0 1 = Ok [r]"
    using len s0(5) s1(3,4,5) by (simp add: read_batch_def map start_position_def lookup_def)
  moreover have "find_segment_index [segment_remap ?wrote] 0 = Ok 0"
    by (simp add: find_segment_index_def map s1(5) bisect.simps)
  ultimately have "partition_fetch C ?after 0 1 = Ok [to_record t q (hd rs)]"
    by (simp add: partition_fetch_def rs partition_new_def partition_with_config_def)
  then show thesis using append that by blast
qed

section \<open>The second creation\<close>

lemma dir_of_topic_dirs:
  assumes "topic_tidy t to" and "unat q < length (t_partitions to)"
  shows "dir_of (topic_dirs to) q = partition_files (t_partitions to ! unat q)"
proof -
  let ?ps = "t_partitions to"
  have ids: "map p_partition_id ?ps = u32_range (num_partitions to)" using assms(1) by (simp add: topic_tidy_def)
  have "length ?ps = unat (num_partitions to)" using arg_cong [OF ids, of length] by simp
  then have "p_partition_id (?ps ! unat q) = q"
    using arg_cong [OF ids, of "\<lambda>xs. xs ! unat q"] assms(2) by simp
  moreover have "distinct (map p_partition_id ?ps)" unfolding ids by simp
  ultimately have "map_of (map (\<lambda>p. (p_partition_id p, partition_files p)) ?ps) q = Some (partition_files (?ps ! unat q))"
    using assms(2) by (intro map_of_is_SomeI) (auto simp: comp_def intro!: image_eqI [of _ _ "?ps ! unat q"])
  moreover have "map_of (map (\<lambda>p. (partition_dir_name (p_partition_id p), partition_files p)) xs) (partition_dir_name q) =
      map_of (map (\<lambda>p. (p_partition_id p, partition_files p)) xs) q" for xs
    by (induction xs) simp_all
  ultimately show ?thesis by (simp add: dir_of_def topic_dirs_def)
qed

lemma create_build_find:
  assumes "create_build e t n b = (b', r)" and "hm_get (tm_topics (br_topics b)) t = Some to" and "topic_tidy t to"
    and "find_partition (br_topics b) t q = Ok p" and "q < n"
  shows "find_partition (br_topics b') t q = Ok (partition_new t q (tm_data_dir (br_topics b)) (partition_files p))"
proof -
  have p: "unat q < length (t_partitions to)" "p = t_partitions to ! unat q"
    using assms(2,4) by (auto simp: find_partition_def get_topic_def get_partition_def split: if_splits)
  have "hm_get (tm_topics (br_topics b')) t = Some (topic_new t n (tm_data_dir (br_topics b)) (topic_dirs to))"
    using assms(1,2) by (auto simp: create_build_def Let_def hashmap_simps split: outcome.splits)
  then show ?thesis
    using assms(5) dir_of_topic_dirs [OF assms(3) p(1)] p(2)
    by (simp add: find_partition_def get_topic_def get_partition_def topic_new_def word_less_nat_alt)
qed

lemma create_build_ok:
  assumes "queue_rel C b \<sigma>" and "env_ok e"
  shows "snd (create_build e t n b) = Ok (CreateTopicSuccess t n)"
proof -
  obtain cm where "assign_replicas e (br_replication b) t (u32_range n) (br_cluster b) = Ok cm"
    by (rule assign_replicas_total [OF cluster_relD(1) [OF queue_relD(4) [OF assms(1)]] queue_relD(5) [OF assms(1)]])
      (use assms(2) in \<open>auto simp: env_ok_def\<close>)
  then show ?thesis by (simp add: create_build_def Let_def)
qed

text \<open>What clients then see of a partition that had records.\<close>

lemma create_build_hides:
  assumes rel: "queue_rel C b \<sigma>" and tidy: "tm_tidy (br_topics b)"
    and log: "queue_find \<sigma> t q = Ok (m # log)" and "q < n" and build: "create_build e t n b = (b', r)"
    and ms: "ms \<noteq> []" "list_all small_message ms" "length ms \<le> 10"
  shows "handle_fetch C t q off k b' = Ok (FetchSuccess t q [])"
    and "\<exists>b''. handle_produce C t q ms b' = (b'', Ok (ProduceSuccess t q 0 (of_nat (length ms)))) \<and>
           handle_fetch C t q 0 1 b'' =
             Ok (FetchSuccess t q [\<lparr>rec_topic = t, rec_partition = q, rec_offset = 0, rec_message = m\<rparr>])"
proof -
  have C: "codecs_ok C" by (rule topics_relD(1) [OF queue_relD(1) [OF rel]])
  obtain p where p: "find_partition (br_topics b) t q = Ok p" "queue_log C p t q (m # log)"
    using topics_relD(4) [OF queue_relD(1) [OF rel], of t q] log by (auto simp: stored_def)
  obtain to where to: "hm_get (tm_topics (br_topics b)) t = Some to"
    using p(1) by (auto simp: find_partition_def get_topic_def outcome_simps)
  have "topic_tidy t to" using tidy to by (simp add: tm_tidy_def)
  from create_build_find [OF build to this p(1) assms(4)]
  have new: "find_partition (br_topics b') t q = Ok (partition_new t q (tm_data_dir (br_topics b)) (partition_files p))" .
  then show "handle_fetch C t q off k b' = Ok (FetchSuccess t q [])"
    by (simp add: handle_fetch_def tm_fetch_find new_partition_fetch)
  obtain rss where rss: "part_rep C p rss" "map to_message (concat rss) = m # log"
    using p(2) by (rule queue_logE)
  then obtain x xs where x: "concat rss = x # xs" "to_message x = m" by auto
  note chunk = first_chunk [OF rss(1) x(1)]
  obtain p' where p': "partition_append C ms (partition_new t q (tm_data_dir (br_topics b)) (partition_files p)) = (p', Ok 0)"
      "partition_fetch C p' 0 1 = Ok [to_record t q (hd (hd rss))]"
    by (rule new_partition_append [OF C first_log_file [OF rss(1)] chunk(2,3) _ ms]) (use chunk in simp)
  obtain tm where tm: "tm_append C t q ms (br_topics b') = (tm, Ok 0)"
      "\<And>name' q'. find_partition tm name' q' =
         (if name' = t \<and> q' = q then Ok p' else find_partition (br_topics b') name' q')"
    by (rule tm_append_find [OF new p'(1)]) (rule that)
  show "\<exists>b''. handle_produce C t q ms b' = (b'', Ok (ProduceSuccess t q 0 (of_nat (length ms)))) \<and>
      handle_fetch C t q 0 1 b'' =
        Ok (FetchSuccess t q [\<lparr>rec_topic = t, rec_partition = q, rec_offset = 0, rec_message = m\<rparr>])"
    using tm p'(2) chunk(1,4) x(2)
    by (simp add: handle_produce_def handle_fetch_def tm_fetch_find to_record_def Let_def)
qed

end
