(* ===== verification/Queue_Properties.thy ===== *)
theory Queue_Properties
  imports Server_Runs Concurrent_Create Storage_Properties Broker_Properties
begin

text \<open>
  The properties of the broker as a whole that speak of the queue its clients see.
\<close>

section \<open>The types of responses\<close>

text \<open>The variants that a client expects for its request, with the arguments of the request in them.\<close>

fun response_fits :: "request \<Rightarrow> response \<Rightarrow> bool" where
  "response_fits (CreateTopic t n) r =
     (case r of CreateTopicSuccess t' n' \<Rightarrow> t' = t \<and> n' = n | CreateTopicError _ \<Rightarrow> True | _ \<Rightarrow> False)"
| "response_fits (Produce t p ms) r =
     (case r of ProduceSuccess t' p' off n \<Rightarrow> t' = t \<and> p' = p \<and> n = of_nat (length ms)
      | ProduceError _ \<Rightarrow> True | _ \<Rightarrow> False)"
| "response_fits (Fetch t p off n) r =
     (case r of FetchSuccess t' p' recs \<Rightarrow> t' = t \<and> p' = p | FetchError _ \<Rightarrow> True | _ \<Rightarrow> False)"
| "response_fits (GetMetadata ts) r = (case r of Metadata ms \<Rightarrow> ts \<noteq> [] \<longrightarrow> set (map tm_name ms) \<subseteq> set ts | _ \<Rightarrow> False)"
| "response_fits (GetPartitions t) r =
     (case r of Partitions t' n \<Rightarrow> t' = t | PartitionsError _ \<Rightarrow> True | _ \<Rightarrow> False)"
| "response_fits ListTopics r = (case r of Topics _ \<Rightarrow> True | _ \<Rightarrow> False)"
| "response_fits (JoinGroup g mid ts) r =
     (case r of JoinGroupSuccess g' m asg \<Rightarrow> g' = g \<and> (mid = None \<or> mid = Some m) | _ \<Rightarrow> False)"
| "response_fits (LeaveGroup g m) r =
     (case r of LeaveGroupSuccess g' \<Rightarrow> g' = g | LeaveGroupError _ \<Rightarrow> True | _ \<Rightarrow> False)"
| "response_fits (Heartbeat g m) r =
     (case r of HeartbeatSuccess \<Rightarrow> True | HeartbeatError _ rejoin \<Rightarrow> \<not> rejoin | _ \<Rightarrow> False)"
| "response_fits (CommitOffset g t p off) r = (r = CommitOffsetSuccess g t p off)"
| "response_fits (FetchOffset g t p) r =
     (case r of FetchOffsetSuccess g' t' p' off \<Rightarrow> g' = g \<and> t' = t \<and> p' = p | _ \<Rightarrow> False)"
| "response_fits (RegisterBroker i host port) r = (r = RegisterBrokerSuccess i)"
| "response_fits GetClusterMetadata r = (case r of ClusterMetadataResponse _ _ \<Rightarrow> True | _ \<Rightarrow> False)"
| "response_fits (ReplicationFetch i t p off) r =
     (case r of ReplicationFetchSuccess _ _ _ \<Rightarrow> True | ReplicationFetchError _ \<Rightarrow> True | _ \<Rightarrow> False)"

lemma assign_replicas_no_error: "assign_replicas e rm t ps cm \<noteq> Err er"
proof (induction ps arbitrary: cm)
  case (Cons p ps)
  have "assign_partition_replicas bord now rm cm p \<noteq> Err er" for bord now
    by (simp add: assign_partition_replicas_def Let_def split: list.split)
  then show ?case
    using Cons by (cases "assign_partition_replicas (env_brokers e) (env_now e) rm cm p") auto
qed simp

lemma metadata_names:
  "set (map tm_name (List.map_filter (\<lambda>t. case f t of Ok x \<Rightarrow> Some (topic_metadata_new t (g x)) | _ \<Rightarrow> None) ts)) \<subseteq> set ts"
  by (induction ts) (auto simp: map_filter_simps topic_metadata_new_def split: outcome.splits)

text \<open>
  C19. In every state of the broker and for every request, a handler that does not panic returns a
  response, never an error, and the response is of a variant that belongs to the request and repeats the
  arguments of the request that it names: no client runs into the branch for an unexpected response, and no
  heartbeat is ever answered with the demand to join again.
\<close>

theorem responses_fit:
  "case snd (process_request C e req b) of Ok resp \<Rightarrow> response_fits req resp | Err _ \<Rightarrow> False | Panic \<Rightarrow> True"
proof (cases req)
  case (CreateTopic t n)
  then show ?thesis
    using assign_replicas_no_error [of e "br_replication b" t "u32_range n" "br_cluster b"]
    by (auto simp: handle_create_topic_def split: prod.split outcome.split)
next
  case (GetMetadata ts)
  then show ?thesis
    using metadata_names [of num_partitions "get_topic (br_topics b)" ts]
    by (auto simp: handle_get_metadata_def Let_def)
next
  case (JoinGroup g mid ts)
  then show ?thesis
    by (auto simp: handle_join_group_def join_group_def Let_def split: option.split)
next
  case (LeaveGroup g m)
  then show ?thesis
    by (auto simp: handle_leave_group_def leave_group_def split: prod.split outcome.split option.split)
next
  case (Heartbeat g m)
  then show ?thesis
    by (auto simp: handle_heartbeat_def coordinator_heartbeat_def group_heartbeat_def
        split: prod.split outcome.split option.split)
next
  case (ReplicationFetch i t p off)
  then show ?thesis
    by (cases "tm_fetch C (br_topics b) t p off 1000")
      (auto simp: handle_replication_request_def handle_replication_fetch_def)
qed (auto simp: handle_produce_def handle_fetch_def handle_get_partitions_def handle_commit_offset_def om_commit_offset_def
    handle_fetch_offset_def om_fetch_offset_def handle_register_broker_def handle_get_cluster_metadata_def Let_def
    split: prod.split outcome.split option.split)

section \<open>The broker implements the queue\<close>

text \<open>
  C2. A broker that starts on an empty directory implements the queue: whatever requests its
  clients send, in whatever order, with whatever turns of the periodic tasks, clocks, random
  identifiers and iteration orders, every request is answered, none with a panic or an error of
  the handler, and every answer is a right one of the queue in the state that the requests before it
  have led to: topics, partitions, logs, committed offsets, group members and brokers. Batches are
  of small messages and no log reaches \<open>2 ^ 64\<close> records or bytes.
\<close>

theorem broker_implements_queue:
  assumes "codecs_ok C" and "0 < cfg_replication_factor config" and "is_order ford"
    and "broker_new C now config None [] = Ok b0" and "run_admitted (queue_new now config) evs"
    and "run_events C evs (broker_start ford b0) = (b, answers)"
  shows "queue_trace (queue_new now config) evs answers"
  by (rule run_from_empty(1) [OF assms])

text \<open>A topic, a batch, a fetch of it, a group whose only member is expelled, and a commit.\<close>

definition queue_events :: "event list" where
  "queue_events =
     [Handle sample_env (CreateTopic ''t'' 2),
      Handle sample_env (Produce ''t'' 1 [sample_message, sample_message]),
      Handle sample_env (Produce ''t'' 2 [sample_message]),
      Handle sample_env (Fetch ''t'' 1 1 5),
      Handle sample_env (JoinGroup ''g'' (Some ''m'') [''t'']),
      GroupTick (sample_env\<lparr>env_clock := (\<lambda>_. 40000)\<rparr>),
      Handle sample_env (Heartbeat ''g'' ''m''),
      Handle sample_env (CommitOffset ''g'' ''t'' 1 2),
      Handle sample_env (FetchOffset ''g'' ''t'' 1)]"

lemma queue_events_admitted: "run_admitted (queue_new 0 broker_config_default) queue_events"
  using sample_env_ok
  by (simp add: queue_events_def env_ok_def queue_new_def queue_expire_def queue_find_def batch_bytes_def
      small_message_def sample_message_def)

theorem broker_implements_queue_witness:
  "\<exists>b asg. run_events demo_codecs queue_events (broker_start rev sample_broker) = (b,
     [(CreateTopic ''t'' 2, Ok (CreateTopicSuccess ''t'' 2)),
      (Produce ''t'' 1 [sample_message, sample_message], Ok (ProduceSuccess ''t'' 1 0 2)),
      (Produce ''t'' 2 [sample_message], Ok (ProduceError (error_to_string (PartitionNotFound ''t'' 2)))),
      (Fetch ''t'' 1 1 5, Ok (FetchSuccess ''t'' 1
         [\<lparr>rec_topic = ''t'', rec_partition = 1, rec_offset = 1, rec_message = sample_message\<rparr>])),
      (JoinGroup ''g'' (Some ''m'') [''t''], Ok (JoinGroupSuccess ''g'' ''m'' asg)),
      (Heartbeat ''g'' ''m'', Ok (HeartbeatError (error_to_string (GroupNotFound ''g'')) False)),
      (CommitOffset ''g'' ''t'' 1 2, Ok (CommitOffsetSuccess ''g'' ''t'' 1 2)),
      (FetchOffset ''g'' ''t'' 1, Ok (FetchOffsetSuccess ''g'' ''t'' 1 2))])"
proof -
  obtain b rs where run: "run_events demo_codecs queue_events (broker_start rev sample_broker) = (b, rs)" by fastforce
  have "0 < cfg_replication_factor broker_config_default" by (simp add: broker_config_default_def)
  from broker_implements_queue [OF demo_codecs_ok this is_order_rev sample_broker_new queue_events_admitted run]
  have "queue_trace (queue_new 0 broker_config_default) queue_events rs" .
  then have "\<exists>asg. rs =
     [(CreateTopic ''t'' 2, Ok (CreateTopicSuccess ''t'' 2)),
      (Produce ''t'' 1 [sample_message, sample_message], Ok (ProduceSuccess ''t'' 1 0 2)),
      (Produce ''t'' 2 [sample_message], Ok (ProduceError (error_to_string (PartitionNotFound ''t'' 2)))),
      (Fetch ''t'' 1 1 5, Ok (FetchSuccess ''t'' 1
         [\<lparr>rec_topic = ''t'', rec_partition = 1, rec_offset = 1, rec_message = sample_message\<rparr>])),
      (JoinGroup ''g'' (Some ''m'') [''t''], Ok (JoinGroupSuccess ''g'' ''m'' asg)),
      (Heartbeat ''g'' ''m'', Ok (HeartbeatError (error_to_string (GroupNotFound ''g'')) False)),
      (CommitOffset ''g'' ''t'' 1 2, Ok (CommitOffsetSuccess ''g'' ''t'' 1 2)),
      (FetchOffset ''g'' ''t'' 1, Ok (FetchOffsetSuccess ''g'' ''t'' 1 2))]"
    unfolding queue_events_def
    by (auto simp: queue_trace_Handle queue_new_def queue_find_def queue_slice_def member_name_def find_member_def
        queue_expire_def sample_env_def fun_eq_iff simp del: queue_trace.simps(2))
  then show ?thesis using run by blast
qed

text \<open>The executable is such a broker.\<close>

lemma broker_main_implements_queue:
  assumes "codecs_ok C" and "is_order ford" and "run_admitted (queue_new now broker_config_default) evs"
  obtains b where "broker_main C now None [] ford = Ok b"
    and "queue_trace (queue_new now broker_config_default) evs (snd (run_events C evs b))"
proof -
  have pos: "0 < cfg_replication_factor broker_config_default" by (simp add: broker_config_default_def)
  obtain b0 where "broker_new C now broker_config_default None [] = Ok b0"
    using queue_rel_new [OF assms(1) pos _ assms(2), of None now] by auto
  then show thesis
    using run_from_empty(1) [OF assms(1) pos assms(2) _ assms(3) surjective_pairing]
    by (intro that [of "broker_start ford b0"]) (simp_all add: broker_main_def)
qed

section \<open>Restart of the broker\<close>



section \<open>Replicas after a restart\<close>

text \<open>
  C35. A restart forgets the replicas, for good: the cluster metadata of a new broker know no
  partition, and no request or periodic task gives one to a topic that was found on disk. In every state the
  new broker reaches, a replication fetch from such a topic is refused, its partitions are in no
  cluster metadata that a client gets, its high watermark is 0, and it cannot be created again.
\<close>

theorem restart_forgets_replicas:
  assumes "broker_new C now config (Some listing) files = Ok b0"
    and "is_ok (get_topic (br_topics b0) t)" and "run_events C evs (broker_start ford b0) = (b, answers)"
  shows "process_request C e (ReplicationFetch i t q off) b =
           (b, Ok (ReplicationFetchError ''Not the leader for this partition'')) \<and>
         get_high_watermark (br_cluster b) t q = 0 \<and> hm_get (cm_partition_states (br_cluster b)) (t, q) = None \<and>
         (\<exists>er. process_request C e (CreateTopic t n) b = (b, Ok (CreateTopicError er)))"
proof -
  have "hm_get (tm_topics (br_topics b0)) t \<noteq> None" "cm_partition_states (br_cluster b0) = []"
    using assms(1,2)
    by (auto simp: is_ok_iff get_topic_def broker_new_def outcome_simps register_broker_def cluster_metadata_new_def)
  then have "stateless (broker_start ford b0) t" by (auto simp: stateless_def has_state_def broker_start_def)
  then have "stateless b t" by (rule run_stateless [OF _ assms(3)])
  then have "hm_get (cm_partition_states (br_cluster b)) (t, q) = None" "hm_get (tm_topics (br_topics b)) t \<noteq> None"
    by (simp_all add: stateless_def has_state_def)
  then show ?thesis
    by (auto simp: handle_replication_request_def handle_replication_fetch_def is_partition_leader_def
        get_partition_leader_def get_high_watermark_def handle_create_topic_def create_topic_def)
qed

text \<open>A broker that finds a topic of one empty partition, is then asked to create it, and produces to it.\<close>

theorem restart_forgets_replicas_witness:
  "let dirs = topic_dirs (topic_new ''t'' 1 ''d'' []) in
   \<exists>b0. broker_new demo_codecs 0 broker_config_default (Some [(''t'', dirs)]) [] = Ok b0 \<and>
     (let b = fst (run_events demo_codecs [Handle sample_env (CreateTopic ''t'' 1),
            Handle sample_env (Produce ''t'' 0 [sample_message])] (broker_start rev b0)) in
      process_request demo_codecs sample_env (ReplicationFetch 2 ''t'' 0 0) b =
        (b, Ok (ReplicationFetchError ''Not the leader for this partition'')))"
proof -
  let ?t = "topic_new ''t'' 1 ''d'' []"
  have t: "num_partitions ?t = 1" "t_partitions ?t = [partition_new ''t'' 0 ''d'' []]"
    by (simp_all add: topic_new_def num_partitions_def u32_range_def dir_of_def)
  have log: "queue_log demo_codecs (t_partitions ?t ! unat q) ''t'' q []" if "q < num_partitions ?t" for q
  proof -
    have "q = 0" using that t(1) by (simp add: word_less_nat_alt unat_eq_0)
    then show ?thesis using queue_log_new [OF demo_codecs_ok no_files] by (simp add: t(2))
  qed
  obtain t' where "topic_open demo_codecs ''t'' (cfg_data_dir broker_config_default) (Some (topic_dirs ?t)) = Ok t'"
    by (rule topic_recovered [OF topic_new_tidy demo_codecs_ok _ log]) (simp_all add: t(1))
  then obtain b0 where b0: "broker_new demo_codecs 0 broker_config_default (Some [(''t'', topic_dirs ?t)]) [] = Ok b0"
      "is_ok (get_topic (br_topics b0) ''t'')"
    by (auto simp: broker_new_def tm_open_def get_topic_def hashmap_simps)
  show ?thesis
    unfolding Let_def
    by (intro exI [of _ b0] conjI b0(1) restart_forgets_replicas [OF b0 surjective_pairing, THEN conjunct1])
qed

section \<open>Connections\<close>

text \<open>
  C17. The handler of a connection ends on every stream of bytes, in every state of the broker: a turn
  takes at least the four bytes of a length, so that a quarter of the stream's length bounds the number of
  turns, and a larger bound changes nothing.
\<close>

theorem connection_terminates:
  assumes "length src div 4 < fuel"
  shows "connection_loop C B es fuel 0 src b [] = handle_connection C B es src b"
  unfolding handle_connection_def by (rule connection_loop_fuel [OF assms]) simp

theorem connection_terminates_witness:
  "connection_loop demo_codecs demo_bincode (\<lambda>_. sample_env) 3 0 [0, 0, 0, 1, 7, 0, 0, 0, 1, 7] sample_broker [] =
     handle_connection demo_codecs demo_bincode (\<lambda>_. sample_env) [0, 0, 0, 1, 7, 0, 0, 0, 1, 7] sample_broker"
  by (rule connection_terminates) simp

text \<open>
  A client may send any bytes: on a broker in use, the handler of its connection never panics. It
  handles the requests that can be read from the stream in their order, all of them unless the response to
  one cannot be sent, which ends the connection with an error; the client gets the encoded responses in order,
  each a right answer of the queue; and whatever other clients do afterwards is answered as by the queue
  in the state these requests have led to.
\<close>

theorem connection_safe:
  assumes "codecs_ok C" and "0 < cfg_replication_factor config" and "is_order ford"
    and "broker_new C now config None [] = Ok b0" and "run_admitted (queue_new now config) evs"
    and "run_events C evs (broker_start ford b0) = (b, answers)"
    and "run_admitted (fold queue_step evs (queue_new now config)) (events_from es 0 (stream_requests B src))"
    and "handle_connection C B es src b = (b1, out, r)"
  shows "r \<noteq> Panic \<and>
         (\<exists>k resps. k \<le> length (stream_requests B src) \<and> length resps = k \<and>
            (k < length (stream_requests B src) \<longrightarrow>
               r \<noteq> Ok () \<and> resps \<noteq> [] \<and> is_err (snd (gaffa_codec_encode B (last resps) []))) \<and>
            out = encode_stream (gaffa_codec_encode B) resps [] \<and>
            queue_trace (fold queue_step evs (queue_new now config))
              (events_from es 0 (take k (stream_requests B src))) (zip (take k (stream_requests B src)) (map Ok resps)) \<and>
            (\<forall>evs' b2 answers'. run_events C evs' b1 = (b2, answers') \<longrightarrow>
               run_admitted (fold queue_step (events_from es 0 (take k (stream_requests B src)))
                 (fold queue_step evs (queue_new now config))) evs' \<longrightarrow>
               queue_trace (fold queue_step (events_from es 0 (take k (stream_requests B src)))
                 (fold queue_step evs (queue_new now config))) evs' answers'))"
proof -
  let ?\<sigma> = "fold queue_step evs (queue_new now config)"
  have rel: "queue_rel C b ?\<sigma>" by (rule run_from_empty(2) [OF assms(1-6)])
  have "connection_does C B es 0 (stream_requests B src) ?\<sigma> [] (b1, out, r)"
    using connection_loop_does [OF rel assms(7), of "Suc (length src)" "[]"] assms(8)
    unfolding handle_connection_def by simp
  then obtain k resps where k: "k \<le> length (stream_requests B src)" "length resps = k" "r \<noteq> Panic"
      "k < length (stream_requests B src) \<longrightarrow>
         r \<noteq> Ok () \<and> resps \<noteq> [] \<and> is_err (snd (gaffa_codec_encode B (last resps) []))"
      "queue_trace ?\<sigma> (events_from es 0 (take k (stream_requests B src)))
         (zip (take k (stream_requests B src)) (map Ok resps))"
      "out = encode_stream (gaffa_codec_encode B) resps []"
      "queue_rel C b1 (fold queue_step (events_from es 0 (take k (stream_requests B src))) ?\<sigma>)"
    by (rule connection_doesE)
  show ?thesis
    by (intro conjI k(3) exI [of _ k] exI [of _ resps] k(1,2,4,5,6) allI impI) (rule run_serves [OF k(7), THEN conjunct1])
qed

text \<open>A request for the list of topics, followed by a length that no frame may have.\<close>

theorem connection_safe_witness:
  "\<exists>b1 r. handle_connection demo_codecs demo_bincode (\<lambda>_. sample_env) [0, 0, 0, 1, 7, 255, 255, 255, 255]
       (broker_start rev sample_broker) = (b1, [0, 0, 0, 2, 6, 0], r) \<and> r \<noteq> Panic"
proof -
  let ?src = "[0, 0, 0, 1, 7, 255, 255, 255, 255] :: bytes"
  obtain b1 out r where c: "handle_connection demo_codecs demo_bincode (\<lambda>_. sample_env) ?src
      (broker_start rev sample_broker) = (b1, out, r)" by (metis surj_pair)
  have len: "unat (u32_from_be_bytes [0, 0, 0, 1]) = 1" "unat (u32_from_be_bytes [255, 255, 255, 255]) = 4294967295"
    by (simp_all add: u32_from_be_bytes_def from_be_def)
  have reqs: "stream_requests demo_bincode ?src = [ListTopics]"
    by (simp add: stream_requests_def gaffa_codec_decode_def decode_frame_def demo_bincode_def len MAX_MESSAGE_SIZE_def Let_def)
  have pos: "0 < cfg_replication_factor broker_config_default" by (simp add: broker_config_default_def)
  from connection_safe [OF demo_codecs_ok pos is_order_rev sample_broker_new, of "[]" _ _ "\<lambda>_. sample_env", OF _ _ _ c]
  obtain k resps where k: "r \<noteq> Panic" "k \<le> 1" "length resps = k"
      "k < 1 \<longrightarrow> r \<noteq> Ok () \<and> resps \<noteq> [] \<and> is_err (snd (gaffa_codec_encode demo_bincode (last resps) []))"
      "out = encode_stream (gaffa_codec_encode demo_bincode) resps []"
      "queue_trace (queue_new 0 broker_config_default) (events_from (\<lambda>_. sample_env) 0 (take k [ListTopics]))
         (zip (take k [ListTopics]) (map Ok resps))"
    using sample_env_ok by (auto simp: reqs)
  have "k = 1" using k(2,3,4) by (cases k) auto
  then obtain resp where "resps = [resp]" using k(3) by (metis length_0_conv length_Suc_conv One_nat_def)
  with \<open>k = 1\<close> k(6) have "resps = [Topics []]" by (auto simp: queue_new_def)
  then have "out = [0, 0, 0, 2, 6, 0]"
    using k(5) by (simp add: gaffa_codec_encode_def encode_frame_def demo_bincode_def MAX_MESSAGE_SIZE_def small_lengths)
  then show ?thesis using c k(1) by blast
qed

section \<open>Large answers\<close>

text \<open>What the serialiser writes for a batch of records is no shorter than their values.\<close>

definition writes_values :: "bincode \<Rightarrow> bool" where
  "writes_values B \<longleftrightarrow>
     (\<forall>t q recs data. ser_response B (FetchSuccess t q recs) = Inr data \<longrightarrow>
        sum_list (map (\<lambda>r. length (msg_value (rec_message r))) recs) \<le> length data)"

lemma encode_too_large:
  assumes "writes_values B" and "MAX_MESSAGE_SIZE < sum_list (map (\<lambda>r. length (msg_value (rec_message r))) recs)"
  obtains er where "gaffa_codec_encode B (FetchSuccess t q recs) out = (out, Err er)"
proof (cases "ser_response B (FetchSuccess t q recs)")
  case (Inl e)
  then show thesis by (intro that) (simp add: gaffa_codec_encode_def encode_frame_def)
next
  case (Inr data)
  then have "MAX_MESSAGE_SIZE < length data" using assms unfolding writes_values_def by (meson order_less_le_trans)
  then show thesis using Inr by (intro that) (simp add: gaffa_codec_encode_def encode_frame_def)
qed

text \<open>
  C36. A fetch is limited by the number of its records and by nothing else: when the records it asks for
  have together more bytes than a frame may hold, though each of them was accepted, the broker does not answer but closes the
  connection with an error, again whenever the consumer comes back to the same position with the same limit.
\<close>

theorem large_fetch_closes_connection:
  assumes "codecs_ok C" and "0 < cfg_replication_factor config" and "is_order ford"
    and "broker_new C now config None [] = Ok b0" and "run_admitted (queue_new now config) evs"
    and "run_events C evs (broker_start ford b0) = (b, answers)" and "env_ok (es 0)"
    and "gaffa_codec_decode B src = (rest, Ok (Some (Fetch t q off n)))"
    and "queue_slice (fold queue_step evs (queue_new now config)) t q off n = Ok recs"
    and "writes_values B" and "MAX_MESSAGE_SIZE < sum_list (map (\<lambda>r. length (msg_value (rec_message r))) recs)"
  shows "\<exists>er. handle_connection C B es src b = (b, [], Err er)"
proof -
  let ?\<sigma> = "fold queue_step evs (queue_new now config)"
  have "serves C (es 0) (Fetch t q off n) b ?\<sigma>"
    by (rule request_serves [OF run_from_empty(2) [OF assms(1-6)] assms(7)]) simp
  then have "process_request C (es 0) (Fetch t q off n) b = (b, Ok (FetchSuccess t q recs))"
    using assms(9) by (auto simp: serves_def)
  moreover obtain er where "gaffa_codec_encode B (FetchSuccess t q recs) [] = ([], Err er)"
    by (rule encode_too_large [OF assms(10,11)])
  ultimately show ?thesis using assms(8) by (simp add: handle_connection_def)
qed

text \<open>Two messages of six million bytes, and a serialiser that knows one fetch and writes the values.\<close>

definition big_message :: message where
  "big_message = \<lparr>msg_key = None, msg_value = replicate 6000000 1, msg_timestamp = 0\<rparr>"

definition big_events :: "event list" where
  "big_events =
     [Handle sample_env (CreateTopic ''t'' 1), Handle sample_env (Produce ''t'' 0 [big_message]),
      Handle sample_env (Produce ''t'' 0 [big_message])]"

definition value_bincode :: bincode where
  "value_bincode =
     \<lparr>ser_request = (\<lambda>x. if x = Fetch ''t'' 0 0 100 then Inr [7] else Inl ''unsupported''),
      de_request = (\<lambda>b. if b = [7] then Inr (Fetch ''t'' 0 0 100) else Inl ''invalid''),
      ser_response = (\<lambda>x. case x of
         FetchSuccess t q recs \<Rightarrow> Inr (concat (map (\<lambda>r. msg_value (rec_message r)) recs))
       | _ \<Rightarrow> Inl ''unsupported''),
      de_response = (\<lambda>b. Inl ''unsupported'')\<rparr>"

theorem large_fetch_closes_connection_witness:
  "\<exists>b er. fst (run_events demo_codecs big_events (broker_start rev sample_broker)) = b \<and>
     handle_connection demo_codecs value_bincode (\<lambda>_. sample_env) [0, 0, 0, 1, 7] b = (b, [], Err er)"
proof -
  let ?\<sigma> = "fold queue_step big_events (queue_new 0 broker_config_default)"
  obtain b rs where run: "run_events demo_codecs big_events (broker_start rev sample_broker) = (b, rs)" by fastforce
  have admitted: "run_admitted (queue_new 0 broker_config_default) big_events"
    using sample_env_ok
    by (simp add: big_events_def queue_new_def queue_find_def batch_bytes_def small_message_def big_message_def)
  have "unat (u32_from_be_bytes [0, 0, 0, 1]) = 1" by (simp add: u32_from_be_bytes_def from_be_def)
  then have decode: "gaffa_codec_decode value_bincode [0, 0, 0, 1, 7] = ([], Ok (Some (Fetch ''t'' 0 0 100)))"
    by (simp add: gaffa_codec_decode_def decode_frame_def value_bincode_def MAX_MESSAGE_SIZE_def Let_def)
  have slice: "queue_slice ?\<sigma> ''t'' 0 0 100 = Ok (history ''t'' 0 [big_message, big_message])"
    by (simp add: queue_slice_def queue_find_def big_events_def queue_new_def)
  have "writes_values value_bincode"
    by (simp add: writes_values_def value_bincode_def length_concat comp_def)
  moreover have "MAX_MESSAGE_SIZE <
      sum_list (map (\<lambda>r. length (msg_value (rec_message r))) (history ''t'' 0 [big_message, big_message]))"
    by (simp add: big_message_def MAX_MESSAGE_SIZE_def)
  moreover have "0 < cfg_replication_factor broker_config_default" by (simp add: broker_config_default_def)
  ultimately show ?thesis
    using large_fetch_closes_connection [OF demo_codecs_ok _ is_order_rev sample_broker_new admitted run _ decode slice,
        of "\<lambda>_. sample_env"] sample_env_ok run
    by simp
qed

section \<open>All clients of a server\<close>


text \<open>Two clients, one of which sends its request in two pieces and hangs up.\<close>

definition two_clients :: "server_event list" where
  "two_clients =
     [Accept 0, Accept 2, Arrive 0 [0, 0], Arrive 2 [0, 0, 0, 1, 7], Turn 0 sample_env, Turn 2 sample_env,
      Arrive 0 [0, 1, 7], Turn 0 sample_env, Hangup 0, Turn 0 sample_env]"

definition two_turns :: "turn list" where
  "two_turns =
     [(Some 2, Handle sample_env ListTopics, [(ListTopics, Ok (Topics []))]),
      (Some 0, Handle sample_env ListTopics, [(ListTopics, Ok (Topics []))])]"

lemma demo_turns:
  "gaffa_codec_decode demo_bincode [0, 0, 0, 1, 7] = ([], Ok (Some ListTopics))"
  "gaffa_codec_decode demo_bincode [0, 0] = ([0, 0], Ok None)"
  "gaffa_codec_decode demo_bincode [] = ([], Ok None)"
  "gaffa_codec_encode demo_bincode (Topics []) [] = ([0, 0, 0, 2, 6, 0], Ok ())"
  "process_request demo_codecs sample_env ListTopics (broker_start rev sample_broker) =
     (broker_start rev sample_broker, Ok (Topics []))"
proof -
  have len: "unat (u32_from_be_bytes [0, 0, 0, 1]) = 1" by (simp add: u32_from_be_bytes_def from_be_def)
  show "gaffa_codec_decode demo_bincode [0, 0, 0, 1, 7] = ([], Ok (Some ListTopics))"
    and "gaffa_codec_decode demo_bincode [0, 0] = ([0, 0], Ok None)"
    and "gaffa_codec_decode demo_bincode [] = ([], Ok None)"
    by (simp_all add: gaffa_codec_decode_def decode_frame_def demo_bincode_def len MAX_MESSAGE_SIZE_def Let_def)
  show "gaffa_codec_encode demo_bincode (Topics []) [] = ([0, 0, 0, 2, 6, 0], Ok ())"
    by (simp add: gaffa_codec_encode_def encode_frame_def demo_bincode_def MAX_MESSAGE_SIZE_def small_lengths)
  show "process_request demo_codecs sample_env ListTopics (broker_start rev sample_broker) =
      (broker_start rev sample_broker, Ok (Topics []))"
    by (simp add: list_topics_def sample_env_def broker_start_def sample_broker_def tm_new_def hm_keys_def)
qed

lemmas evaluate_turns =
  demo_turns server_new_def accept_connection_def change_connection_def connection_new_def connection_turn_def

lemma two_clients_run:
  obtains s c where "server_run demo_codecs demo_bincode two_clients (server_new (broker_start rev sample_broker)) = (s, two_turns)"
    and "hm_get (sv_connections s) 0 = Some c"
  by (rule that, unfold two_clients_def two_turns_def)
    (simp add: evaluate_turns hashmap_simps del: process_request.simps, simp)


text \<open>
  C16. No client starves another: when a client's bytes have arrived, a quarter as many turns of its own
  connection as there are bytes left to handle are enough, whatever other clients send and do in between,
  and every complete request of it has been handled and its response written, unless one could not be sent.
\<close>

theorem every_client_answered:
  assumes "codecs_ok C" and "0 < cfg_replication_factor config" and "is_order ford"
    and "broker_new C now config None [] = Ok b0"
    and "server_run C B evs (server_new (broker_start ford b0)) = (s, ts)"
    and "hm_get (sv_connections s) i = Some c" and "\<not> list_ex (is_arrival i) evs'"
    and "length (co_buffer c) div 4 < length (filter (is_turn i) evs')"
    and "server_run C B evs' s = (s', ts')" and "run_admitted (queue_new now config) (turn_events (ts @ ts'))"
  shows "\<exists>c'. hm_get (sv_connections s') i = Some c' \<and> co_received c' = co_received c \<and>
           co_out c' = encode_stream (gaffa_codec_encode B) (map snd (dialogue i (ts @ ts'))) [] \<and>
           (map fst (dialogue i (ts @ ts')) = stream_requests B (co_received c) \<or> unsendable B (dialogue i (ts @ ts')))"
proof -
  have run: "server_run C B (evs @ evs') (server_new (broker_start ford b0)) = (s', ts @ ts')"
    using assms(5,9) by (simp add: server_run_append)
  obtain c' where c': "hm_get (sv_connections s') i = Some c'" "co_received c' = co_received c"
      "idle B c' \<or> length (co_buffer c') + 4 * length (filter (is_turn i) evs') \<le> length (co_buffer c)"
    using server_run_progress [OF assms(9,6,7)] by blast
  then have "idle B c'" using assms(8) by auto
  have "queue_rel C (broker_start ford b0) (queue_new now config)"
    using run_from_empty(2) [OF assms(1-4), of "[]"] by simp
  then have "conns_ok B s' (\<lambda>i. [] @ dialogue i (ts @ ts'))"
    by (intro server_run_ok [OF _ _ run assms(10)]) (simp_all add: server_new_def conns_ok_def conn_at_def)
  then have "conn_ok B c' (dialogue i (ts @ ts'))"
    using c'(1) conns_okD [of B s' _ i] by (fastforce simp: conn_at_def)
  from conn_ok_facts [OF this] \<open>idle B c'\<close> c'(1,2) show ?thesis by auto
qed

text \<open>The first client above, after the pieces of its request have arrived.\<close>

theorem every_client_answered_witness:
  "\<exists>s ts s' ts' c'.
     server_run demo_codecs demo_bincode (take 7 two_clients) (server_new (broker_start rev sample_broker)) = (s, ts) \<and>
     server_run demo_codecs demo_bincode [Turn 0 sample_env, Hangup 2, Turn 0 sample_env] s = (s', ts') \<and>
     hm_get (sv_connections s') 0 = Some c' \<and> map fst (dialogue 0 (ts @ ts')) = [ListTopics] \<and>
     co_out c' = [0, 0, 0, 2, 6, 0]"
proof -
  let ?c = "connection_new\<lparr>co_received := [0, 0, 0, 1, 7], co_buffer := [0, 0, 0, 1, 7]\<rparr>"
  let ?ev = "Handle sample_env ListTopics" and ?a = "[(ListTopics, Ok (Topics []))]"
  obtain s where s: "server_run demo_codecs demo_bincode (take 7 two_clients) (server_new (broker_start rev sample_broker)) =
        (s, [(Some 2, ?ev, ?a)])" "hm_get (sv_connections s) 0 = Some ?c" "sv_broker s = broker_start rev sample_broker"
      "hm_get (sv_connections s) 2 \<noteq> None" "\<And>c. hm_get (sv_connections s) 2 = Some c \<Longrightarrow> \<not> co_eof c \<and> co_result c = None"
    by (simp add: two_clients_def evaluate_turns hashmap_simps del: process_request.simps)
  obtain s' where s': "server_run demo_codecs demo_bincode [Turn 0 sample_env, Hangup 2, Turn 0 sample_env] s =
        (s', [(Some 0, ?ev, ?a)])"
    using s(2-) by (auto simp: evaluate_turns hashmap_simps simp del: process_request.simps)
  have "0 < cfg_replication_factor broker_config_default" by (simp add: broker_config_default_def)
  from every_client_answered [OF demo_codecs_ok this is_order_rev sample_broker_new s(1,2) _ _ s'] sample_env_ok
  obtain c' where "hm_get (sv_connections s') 0 = Some c'"
      "co_out c' = encode_stream (gaffa_codec_encode demo_bincode)
         (map snd (dialogue 0 ([(Some 2, ?ev, ?a)] @ [(Some 0, ?ev, ?a)]))) []"
    by (auto simp: turn_events_def is_arrival_def is_turn_def connection_new_def)
  moreover have "dialogue 0 ([(Some 2, ?ev, ?a)] @ [(Some 0, ?ev, ?a)]) = [(ListTopics, Topics [])]"
    by (simp add: map_filter_simps)
  ultimately show ?thesis using s(1) s' by (simp add: demo_turns(4))
qed

section \<open>Two clients create one topic\<close>

text \<open>
  C34. A topic created twice at once loses what was acknowledged. When the handler of a second client has asked
  whether the topic is there before the first one's creation, it goes on after it, however much has
  been produced in between, and is told of success. From then on fetches from every offset of a
  partition that had messages return nothing, the next batch is acknowledged at offset 0 again,
  and a fetch of offset 0 then returns the old message in its place.
\<close>

theorem racing_creates_lose_messages:
  assumes "codecs_ok C" and "0 < cfg_replication_factor config" and "is_order ford"
    and "broker_new C now config None [] = Ok b0" and "run_events C evs1 (broker_start ford b0) = (b1, as1)"
    and "create_check t b1" and "run_events C evs2 b1 = (b2, as2)"
    and "run_admitted (queue_new now config) (evs1 @ evs2)" and "list_all plain_event (evs1 @ evs2)"
    and "queue_find (fold queue_step (evs1 @ evs2) (queue_new now config)) t q = Ok (m # log)"
    and "q < n" and "env_ok e" and "create_build e t n b2 = (b3, r)"
    and "ms \<noteq> []" and "list_all small_message ms" and "length ms \<le> 10"
  shows "r = Ok (CreateTopicSuccess t n) \<and>
         process_request C e' (Fetch t q off k) b3 = (b3, Ok (FetchSuccess t q [])) \<and>
         (\<exists>b4. process_request C e' (Produce t q ms) b3 = (b4, Ok (ProduceSuccess t q 0 (of_nat (length ms)))) \<and>
            process_request C e' (Fetch t q 0 1) b4 = (b4, Ok (FetchSuccess t q
              [\<lparr>rec_topic = t, rec_partition = q, rec_offset = 0, rec_message = m\<rparr>])))"
proof -
  have run: "run_events C (evs1 @ evs2) (broker_start ford b0) = (b2, as1 @ as2)"
    using assms(5,7) by (simp add: run_events_append)
  note b2 = run_from_empty(2,3) [OF assms(1-4,8) run]
  have "tm_tidy (br_topics b2)" using b2(2) [OF assms(9)] by (simp add: disk_ok_def)
  from create_build_hides [OF b2(1) this assms(10,11,13-16)] show ?thesis
    using create_build_ok [OF b2(1) assms(12), of t n] assms(13) by simp
qed

text \<open>The second client asks before anything else happens; then the first one creates the topic and produces to it.\<close>

theorem racing_creates_lose_messages_witness:
  "let b2 = fst (run_events demo_codecs [Handle sample_env (CreateTopic ''t'' 1),
         Handle sample_env (Produce ''t'' 0 [sample_message])] (broker_start rev sample_broker));
       b3 = fst (create_build sample_env ''t'' 1 b2) in
   create_check ''t'' (broker_start rev sample_broker) \<and>
   process_request demo_codecs sample_env (Fetch ''t'' 0 0 5) b3 = (b3, Ok (FetchSuccess ''t'' 0 []))"
proof -
  let ?evs = "[Handle sample_env (CreateTopic ''t'' 1), Handle sample_env (Produce ''t'' 0 [sample_message])]"
  have check: "create_check ''t'' (broker_start rev sample_broker)"
    by (simp add: create_check_def broker_start_def sample_broker_def tm_new_def)
  have adm: "run_admitted (queue_new 0 broker_config_default) ([] @ ?evs)"
    using sample_env_ok
    by (simp add: queue_new_def queue_find_def batch_bytes_def small_message_def sample_message_def)
  have find: "queue_find (fold queue_step ([] @ ?evs) (queue_new 0 broker_config_default)) ''t'' 0 = Ok [sample_message]"
    by (simp add: queue_find_def queue_new_def)
  have pos: "0 < cfg_replication_factor broker_config_default" by (simp add: broker_config_default_def)
  have small: "list_all small_message [sample_message]" by (simp add: small_message_def sample_message_def)
  from racing_creates_lose_messages [OF demo_codecs_ok pos is_order_rev sample_broker_new run_events.simps(1) check
      surjective_pairing adm _ find _ sample_env_ok surjective_pairing _ small]
  show ?thesis using check by simp
qed

end
