(* ===== verification/Concurrent_Commit.thy ===== *)
theory Concurrent_Commit
  imports Offset_Manager
begin

text \<open>
  Commits on several connections at once. \<open>commit_offset\<close> in \<open>broker/src/offset_manager.rs\<close> changes the
  map under its write lock, and \<open>persist_group\<close> then writes the file of the group under a read lock,
  which other handlers may hold too: two of them may truncate and write the same file at the same time. The model
  takes the handlers apart into steps and lets a write step put out any number of characters.
\<close>

text \<open>A handler that writes: the position in its file and what it still has to write.\<close>

record commit_handler =
  ch_group :: string
  ch_pos :: nat
  ch_rest :: string

text \<open>
  \<open>cr_order\<close> is the iteration order of the map, which may change when the map does. \<open>cr_waiting\<close> holds
  the handlers between their two locks, \<open>cr_writing\<close> those that hold the read lock, \<open>cr_log\<close> the changes of
  the map in their order.
\<close>

record commit_run =
  cr_offsets :: "(offset_key, u64) hashmap"
  cr_files :: "(string, string) hashmap"
  cr_order :: entry_order
  cr_waiting :: "(nat, string) hashmap"
  cr_writing :: "(nat, commit_handler) hashmap"
  cr_log :: "(offset_key \<times> u64) list"

definition commit_start :: "offset_manager \<Rightarrow> commit_run" where
  "commit_start om =
     \<lparr>cr_offsets = om_offsets om, cr_files = om_files om, cr_order = (\<lambda>es. es), cr_waiting = [],
      cr_writing = [], cr_log = []\<rparr>"

section \<open>The steps of a handler\<close>

definition commit_insert ::
    "entry_order \<Rightarrow> nat \<Rightarrow> string \<Rightarrow> string \<Rightarrow> u32 \<Rightarrow> u64 \<Rightarrow> commit_run \<Rightarrow> commit_run" where
  "commit_insert eord i group_id topic p off s =
     s\<lparr>cr_offsets := hm_insert (group_id, topic, p) off (cr_offsets s), cr_order := eord,
       cr_waiting := hm_insert i group_id (cr_waiting s), cr_log := cr_log s @ [((group_id, topic, p), off)]\<rparr>"

definition group_text :: "commit_run \<Rightarrow> string \<Rightarrow> string" where
  "group_text s group_id = concat (map offset_line (cr_order s (group_entries group_id (cr_offsets s))))"

definition persist_open :: "nat \<Rightarrow> commit_run \<Rightarrow> commit_run" where
  "persist_open i s =
     (case hm_get (cr_waiting s) i of
        None \<Rightarrow> s
      | Some g \<Rightarrow>
          s\<lparr>cr_files := hm_insert (offsets_file g) [] (cr_files s),
            cr_waiting := hm_remove i (cr_waiting s),
            cr_writing := hm_insert i \<lparr>ch_group = g, ch_pos = 0, ch_rest = group_text s g\<rparr> (cr_writing s)\<rparr>)"

text \<open>Writing behind the end of a file fills the gap with zeros.\<close>

definition write_at :: "nat \<Rightarrow> string \<Rightarrow> string \<Rightarrow> string" where
  "write_at pos data body =
     (if data = [] then body
      else take pos (body @ replicate (pos - length body) (CHR 0x00)) @ data @ drop (pos + length data) body)"

definition persist_write :: "nat \<Rightarrow> nat \<Rightarrow> commit_run \<Rightarrow> commit_run" where
  "persist_write i n s =
     (case hm_get (cr_writing s) i of
        None \<Rightarrow> s
      | Some h \<Rightarrow>
          let name = offsets_file (ch_group h);
              body = (case hm_get (cr_files s) name of None \<Rightarrow> [] | Some b \<Rightarrow> b);
              data = take n (ch_rest h) in
          s\<lparr>cr_files := hm_insert name (write_at (ch_pos h) data body) (cr_files s),
            cr_writing := hm_insert i (h\<lparr>ch_pos := ch_pos h + length data, ch_rest := drop n (ch_rest h)\<rparr>)
                            (cr_writing s)\<rparr>)"

definition persist_done :: "nat \<Rightarrow> commit_run \<Rightarrow> commit_run" where
  "persist_done i s = s\<lparr>cr_writing := hm_remove i (cr_writing s)\<rparr>"

text \<open>The write lock is free when no handler writes; a handler is done when it has written everything.\<close>

inductive commit_step :: "commit_run \<Rightarrow> commit_run \<Rightarrow> bool" where
  Insert: "hm_get (cr_waiting s) i = None \<Longrightarrow> cr_writing s = [] \<Longrightarrow> is_order eord \<Longrightarrow> g \<noteq> [] \<Longrightarrow> plain_topic t \<Longrightarrow>
     commit_step s (commit_insert eord i g t p off s)"
| Open: "hm_get (cr_waiting s) i = Some g \<Longrightarrow> hm_get (cr_writing s) i = None \<Longrightarrow> commit_step s (persist_open i s)"
| Write: "hm_get (cr_writing s) i = Some h \<Longrightarrow> commit_step s (persist_write i n s)"
| Done: "hm_get (cr_writing s) i = Some h \<Longrightarrow> ch_rest h = [] \<Longrightarrow> commit_step s (persist_done i s)"

inductive_cases commit_stepE: "commit_step s s'"

text \<open>One handler alone does what the commit does in one piece.\<close>

lemma commit_steps_sequential:
  assumes "cr_writing s = []" and "hm_get (cr_waiting s) i = None"
    and "s' = persist_open i (commit_insert eord i g t p off s)"
    and "s'' = persist_done i (persist_write i (length (group_text s' g)) s')"
  shows "cr_offsets s'' = om_offsets (fst (om_commit_offset eord g t p off
           \<lparr>om_offsets = cr_offsets s, om_data_dir = d, om_files = cr_files s\<rparr>))"
    and "hm_get (cr_files s'') = hm_get (om_files (fst (om_commit_offset eord g t p off
           \<lparr>om_offsets = cr_offsets s, om_data_dir = d, om_files = cr_files s\<rparr>)))"
    and "cr_writing s'' = []" and "hm_get (cr_waiting s'') = hm_get (cr_waiting s)"
proof -
  let ?m = "hm_insert (g, t, p) off (cr_offsets s)"
  let ?T = "concat (map offset_line (eord (group_entries g ?m)))"
  have s': "cr_offsets s' = ?m" "cr_files s' = hm_insert (offsets_file g) [] (cr_files s)"
      "cr_writing s' = [(i, \<lparr>ch_group = g, ch_pos = 0, ch_rest = ?T\<rparr>)]"
      "cr_waiting s' = hm_remove i (hm_insert i g (cr_waiting s))" "group_text s' g = ?T"
    by (simp_all add: assms(1,3) persist_open_def commit_insert_def group_text_def hashmap_simps)
  have "s'' = s'\<lparr>cr_files := hm_insert (offsets_file g) (write_at 0 ?T []) (cr_files s'), cr_writing := []\<rparr>"
    by (simp add: assms(4) persist_done_def persist_write_def Let_def s'(2,3,5) hashmap_simps)
  moreover have "write_at 0 ?T [] = ?T" by (simp add: write_at_def)
  ultimately have s'': "cr_offsets s'' = ?m" "cr_writing s'' = []" "cr_waiting s'' = cr_waiting s'"
      "cr_files s'' = hm_insert (offsets_file g) ?T (hm_insert (offsets_file g) [] (cr_files s))"
    by (simp_all add: s'(1,2))
  show "cr_offsets s'' = om_offsets (fst (om_commit_offset eord g t p off
      \<lparr>om_offsets = cr_offsets s, om_data_dir = d, om_files = cr_files s\<rparr>))"
    and "hm_get (cr_files s'') = hm_get (om_files (fst (om_commit_offset eord g t p off
      \<lparr>om_offsets = cr_offsets s, om_data_dir = d, om_files = cr_files s\<rparr>)))"
    and "cr_writing s'' = []" and "hm_get (cr_waiting s'') = hm_get (cr_waiting s)"
    using assms(2) by (auto simp: s'' s'(4) om_commit_offset_def persist_group_def hashmap_simps fun_eq_iff)
qed

section \<open>Writing one text from several places\<close>

lemma length_write_at: "data \<noteq> [] \<Longrightarrow> length (write_at pos data body) = max (length body) (pos + length data)"
  by (simp add: write_at_def)

lemma nth_write_at:
  assumes "data \<noteq> []" and "x < length (write_at pos data body)"
  shows "write_at pos data body ! x =
           (if x < pos then (if x < length body then body ! x else CHR 0x00)
            else if x < pos + length data then data ! (x - pos) else body ! x)"
proof -
  define pre where "pre = take pos (body @ replicate (pos - length body) (CHR 0x00))"
  have pre: "length pre = pos" "\<And>x. x < pos \<Longrightarrow> pre ! x = (if x < length body then body ! x else CHR 0x00)"
    by (simp_all add: pre_def nth_append)
  have x: "x < max (length body) (pos + length data)" using assms by (simp add: length_write_at)
  have "write_at pos data body = pre @ data @ drop (pos + length data) body"
    using assms(1) by (simp add: write_at_def pre_def)
  then show ?thesis
    using x pre(2) [of x] by (cases "x < pos"; cases "x < pos + length data") (auto simp: nth_append pre(1))
qed

lemma take_nth_eq: "take n xs = take n ys \<longleftrightarrow> min n (length xs) = min n (length ys) \<and> (\<forall>x < min n (length xs). xs ! x = ys ! x)"
  by (auto simp: list_eq_iff_nth_eq min.commute)

text \<open>A write of the right characters at their position harms no prefix that is right.\<close>

lemma write_at_right:
  assumes "pos \<le> length T" and "length body \<le> length T"
  shows "length (write_at pos (take n (drop pos T)) body) \<le> length T"
    and "take P body = take P T \<Longrightarrow> take P (write_at pos (take n (drop pos T)) body) = take P T"
    and "take pos body = take pos T \<Longrightarrow>
           take (pos + length (take n (drop pos T))) (write_at pos (take n (drop pos T)) body) =
             take (pos + length (take n (drop pos T))) T"
proof -
  let ?d = "take n (drop pos T)" and ?b = "write_at pos (take n (drop pos T)) body"
  have d: "pos + length ?d \<le> length T" using assms(1) by simp
  show "length ?b \<le> length T"
    using assms(2) d length_write_at [of ?d pos body] by (cases "?d = []") (simp_all add: write_at_def del: length_take)
  have mid: "?d ! (x - pos) = T ! x" if "pos \<le> x" "x < pos + length ?d" for x
    using that by (subst nth_take) auto
  have right: "?b ! x = T ! x" if x: "x < length ?b" and body: "x < length body \<Longrightarrow> x < P' \<Longrightarrow> body ! x = T ! x"
    and lim: "x < P'" "x < pos \<Longrightarrow> x < length body" "pos + length ?d \<le> x \<Longrightarrow> x < length body" and ne: "?d \<noteq> []" for x P'
    using body lim mid by (simp add: nth_write_at [OF ne x] del: length_take)
  show "take P ?b = take P T" if eq: "take P body = take P T"
  proof (cases "?d = []")
    case False
    have m: "min P (length body) = min P (length T)" and body: "\<And>x. x < P \<Longrightarrow> x < length body \<Longrightarrow> body ! x = T ! x"
      using eq by (auto simp: take_nth_eq)
    have len: "length ?b = max (length body) (pos + length ?d)" by (rule length_write_at [OF False])
    have inside: "x < P \<Longrightarrow> x < length T \<Longrightarrow> x < length body" for x using m by linarith
    show ?thesis
      unfolding take_nth_eq
    proof (intro conjI allI impI)
      show "min P (length ?b) = min P (length T)" using m len d assms(2) by linarith
      show "?b ! x = T ! x" if "x < min P (length ?b)" for x
        using that len d assms(2) body inside by (intro right [of x P] False) auto
    qed
  qed (use eq in \<open>simp add: write_at_def\<close>)
  show "take (pos + length ?d) ?b = take (pos + length ?d) T" if eq: "take pos body = take pos T"
  proof (cases "?d = []")
    case False
    have m: "min pos (length body) = min pos (length T)" and body: "\<And>x. x < pos \<Longrightarrow> x < length body \<Longrightarrow> body ! x = T ! x"
      using eq by (auto simp: take_nth_eq)
    have len: "length ?b = max (length body) (pos + length ?d)" by (rule length_write_at [OF False])
    have "?b ! x = T ! x" if x: "x < pos + length ?d" for x
      using x len m d body mid nth_write_at [OF False, of x pos body] assms(1) by (auto simp del: length_take)
    then show ?thesis
      unfolding take_nth_eq using len d assms(2) by (auto simp del: length_take)
  next
    case True
    then have "length ?d = 0" by (simp only: list.size)
    then show ?thesis unfolding True using eq by (simp add: write_at_def)
  qed
qed

section \<open>Files under interleaving\<close>

text \<open>Every handler that writes has in hand what the map holds, from its position on.\<close>

definition writers_ok :: "commit_run \<Rightarrow> bool" where
  "writers_ok s \<longleftrightarrow>
     (\<forall>i h. hm_get (cr_writing s) i = Some h \<longrightarrow>
        ch_pos h \<le> length (group_text s (ch_group h)) \<and> ch_rest h = drop (ch_pos h) (group_text s (ch_group h)))"

text \<open>The file is right up to the position of a handler of the group that still writes it.\<close>

definition being_written :: "commit_run \<Rightarrow> string \<Rightarrow> commit_handler \<Rightarrow> bool" where
  "being_written s g h \<longleftrightarrow>
     ch_group h = g \<and>
     (\<exists>body. hm_get (cr_files s) (offsets_file g) = Some body \<and> length body \<le> length (group_text s g) \<and>
        take (ch_pos h) body = take (ch_pos h) (group_text s g))"

definition written :: "commit_run \<Rightarrow> string \<Rightarrow> bool" where
  "written s g \<longleftrightarrow>
     file_synced (cr_files s) (cr_offsets s) g \<and>
     (\<forall>i h. hm_get (cr_writing s) i = Some h \<longrightarrow> ch_group h = g \<longrightarrow>
        hm_get (cr_files s) (offsets_file g) = Some (group_text s g))"

definition covered :: "commit_run \<Rightarrow> string \<Rightarrow> bool" where
  "covered s g \<longleftrightarrow>
     (\<exists>i. hm_get (cr_waiting s) i = Some g) \<or>
     (\<exists>i h. hm_get (cr_writing s) i = Some h \<and> being_written s g h) \<or> written s g"

definition commit_ok :: "commit_run \<Rightarrow> bool" where
  "commit_ok s \<longleftrightarrow>
     hm_ok (cr_offsets s) \<and> hm_ok (cr_files s) \<and> plain_keys (cr_offsets s) \<and> is_order (cr_order s) \<and>
     writers_ok s \<and> (\<forall>g. g \<noteq> [] \<longrightarrow> covered s g)"

lemma group_text_synced:
  assumes "is_order (cr_order s)" and "hm_get (cr_files s) (offsets_file g) = Some (group_text s g)"
  shows "file_synced (cr_files s) (cr_offsets s) g"
  using assms order_mset [OF assms(1)] by (auto simp: file_synced_def group_text_def)

lemma insert_ok:
  assumes ok: "commit_ok s" and idle: "cr_writing s = []" and new: "hm_get (cr_waiting s) i = None"
    and ord: "is_order eord" and key: "g \<noteq> []" "plain_topic t"
  shows "commit_ok (commit_insert eord i g t p off s)"
proof -
  let ?s = "commit_insert eord i g t p off s" and ?m = "hm_insert (g, t, p) off (cr_offsets s)"
  have fields: "cr_offsets ?s = ?m" "cr_files ?s = cr_files s" "cr_order ?s = eord" "cr_writing ?s = []"
      "cr_waiting ?s = hm_insert i g (cr_waiting s)"
    by (simp_all add: commit_insert_def idle)
  have m: "hm_ok (cr_offsets s)" "hm_ok ?m" using ok by (simp_all add: commit_ok_def)
  have "plain_keys ?m"
    by (rule plain_keys_mono [of "cr_offsets s"])
      (use ok key in \<open>auto simp: commit_ok_def hashmap_simps split: if_splits\<close>)
  moreover have "covered ?s g'" if g': "g' \<noteq> []" for g'
  proof (cases "g' = g")
    case True
    then show ?thesis by (auto simp: covered_def fields hashmap_simps intro!: exI [of _ i])
  next
    case False
    consider j where "hm_get (cr_waiting s) j = Some g'" | "file_synced (cr_files s) (cr_offsets s) g'"
      using ok g' by (auto simp: commit_ok_def covered_def written_def idle)
    then show ?thesis
    proof cases
      case (1 j)
      then have "hm_get (cr_waiting ?s) j = Some g'" using new by (auto simp: fields hashmap_simps)
      then show ?thesis by (auto simp: covered_def)
    next
      case 2
      have "mset (group_entries g' ?m) = mset (group_entries g' (cr_offsets s))"
        using False m by (intro group_entries_mset) (simp_all add: hashmap_simps)
      then have "file_synced (cr_files s) ?m g'" using 2 file_synced_cong by blast
      then show ?thesis by (simp add: covered_def written_def fields)
    qed
  qed
  ultimately show ?thesis
    using ok ord m(2) by (simp add: commit_ok_def fields writers_ok_def)
qed

lemma open_ok:
  assumes ok: "commit_ok s" and w: "hm_get (cr_waiting s) i = Some g" and new: "hm_get (cr_writing s) i = None"
  shows "commit_ok (persist_open i s)"
proof -
  let ?s = "persist_open i s" and ?h = "\<lparr>ch_group = g, ch_pos = 0, ch_rest = group_text s g\<rparr>"
  have fields: "cr_offsets ?s = cr_offsets s" "cr_files ?s = hm_insert (offsets_file g) [] (cr_files s)"
      "cr_order ?s = cr_order s" "cr_writing ?s = hm_insert i ?h (cr_writing s)"
      "cr_waiting ?s = hm_remove i (cr_waiting s)" "group_text ?s = group_text s"
    by (simp_all add: persist_open_def w group_text_def fun_eq_iff)
  have writers: "writers_ok ?s"
    using ok by (auto simp: commit_ok_def writers_ok_def fields hashmap_simps split: if_splits)
  moreover have "covered ?s g'" if "g' \<noteq> []" for g'
  proof (cases "g' = g")
    case True
    have "being_written ?s g ?h" by (simp add: being_written_def fields hashmap_simps)
    then show ?thesis using True by (auto simp: covered_def fields hashmap_simps)
  next
    case False
    have "covered s g'" using ok that by (simp add: commit_ok_def)
    then consider j where "hm_get (cr_waiting s) j = Some g'"
      | j h where "hm_get (cr_writing s) j = Some h" "being_written s g' h" | "written s g'"
      unfolding covered_def by blast
    then show ?thesis
    proof cases
      case (1 j)
      then have "hm_get (cr_waiting ?s) j = Some g'" using w False by (auto simp: fields hashmap_simps)
      then show ?thesis by (auto simp: covered_def)
    next
      case (2 j h)
      then have "hm_get (cr_writing ?s) j = Some h" using new by (auto simp: fields hashmap_simps)
      moreover have "being_written ?s g' h" using 2(2) False by (simp add: being_written_def fields hashmap_simps)
      ultimately show ?thesis unfolding covered_def by blast
    next
      case 3
      then have "written ?s g'"
        using False by (auto simp: written_def fields hashmap_simps file_synced_def split: if_splits)
      then show ?thesis by (simp add: covered_def)
    qed
  qed
  ultimately show ?thesis using ok by (simp add: commit_ok_def fields)
qed

lemma write_ok:
  assumes ok: "commit_ok s" and w: "hm_get (cr_writing s) i = Some h"
  shows "commit_ok (persist_write i n s)"
proof -
  let ?s = "persist_write i n s" and ?g = "ch_group h" and ?T = "group_text s (ch_group h)"
  let ?body = "case hm_get (cr_files s) (offsets_file ?g) of None \<Rightarrow> [] | Some b \<Rightarrow> b"
  let ?d = "take n (drop (ch_pos h) ?T)"
  let ?h = "h\<lparr>ch_pos := ch_pos h + length ?d, ch_rest := drop n (ch_rest h)\<rparr>"
  have h: "ch_pos h \<le> length ?T" "ch_rest h = drop (ch_pos h) ?T"
    using ok w by (auto simp: commit_ok_def writers_ok_def)
  have fields: "cr_offsets ?s = cr_offsets s" "cr_order ?s = cr_order s" "cr_waiting ?s = cr_waiting s"
      "cr_files ?s = hm_insert (offsets_file ?g) (write_at (ch_pos h) ?d ?body) (cr_files s)"
      "cr_writing ?s = hm_insert i ?h (cr_writing s)" "group_text ?s = group_text s"
    using h(2) by (simp_all add: persist_write_def w Let_def group_text_def fun_eq_iff)
  have "writers_ok ?s"
    using ok h by (auto simp: commit_ok_def writers_ok_def fields hashmap_simps min_def add.commute split: if_splits)
  moreover have "covered ?s g'" if "g' \<noteq> []" for g'
  proof -
    have "covered s g'" using ok that by (simp add: commit_ok_def)
    then consider j where "hm_get (cr_waiting s) j = Some g'"
      | j h' where "hm_get (cr_writing s) j = Some h'" "being_written s g' h'" | "written s g'"
      unfolding covered_def by blast
    then show ?thesis
    proof cases
      case (1 j)
      then show ?thesis by (auto simp: covered_def fields)
    next
      case (2 j h')
      show ?thesis
      proof (cases "g' = ?g")
        case False
        then have "j \<noteq> i" using 2 w by (auto simp: being_written_def)
        moreover have "being_written ?s g' h'" using 2(2) False by (simp add: being_written_def fields hashmap_simps)
        ultimately show ?thesis using 2(1) by (auto simp: covered_def fields hashmap_simps)
      next
        case True
        obtain body where body: "hm_get (cr_files s) (offsets_file ?g) = Some body" "length body \<le> length ?T"
            "take (ch_pos h') body = take (ch_pos h') ?T"
          using 2(2) True by (auto simp: being_written_def)
        note right = write_at_right [OF h(1) body(2), where n = n]
        show ?thesis
        proof (cases "j = i")
          case True
          then have "being_written ?s ?g ?h"
            using 2(1) w body right(1,3) by (simp add: being_written_def fields hashmap_simps)
          then show ?thesis using \<open>g' = ?g\<close> by (auto simp: covered_def fields hashmap_simps)
        next
          case False
          have "being_written ?s ?g h'"
            using 2(2) True body right(1,2) by (simp add: being_written_def fields hashmap_simps)
          then show ?thesis using \<open>g' = ?g\<close> 2(1) False by (auto simp: covered_def fields hashmap_simps)
        qed
      qed
    next
      case 3
      have "written ?s g'"
      proof (cases "g' = ?g")
        case False
        then show ?thesis using 3 by (auto simp: written_def fields hashmap_simps file_synced_def split: if_splits)
      next
        case True
        then have body: "hm_get (cr_files s) (offsets_file ?g) = Some ?T" using 3 w by (auto simp: written_def)
        have "write_at (ch_pos h) ?d ?T = ?T"
          using write_at_right(1) [OF h(1) order.refl, of n] write_at_right(2) [OF h(1) order.refl, of "length ?T" n]
          by simp
        then have "hm_get (cr_files ?s) (offsets_file ?g) = Some ?T" by (simp add: fields hashmap_simps body)
        moreover have "is_order (cr_order ?s)" using ok by (simp add: commit_ok_def fields)
        ultimately show ?thesis
          using True group_text_synced [of ?s ?g] by (simp add: written_def fields)
      qed
      then show ?thesis by (simp add: covered_def)
    qed
  qed
  ultimately show ?thesis using ok by (simp add: commit_ok_def fields)
qed

lemma done_ok:
  assumes ok: "commit_ok s" and w: "hm_get (cr_writing s) i = Some h" and rest: "ch_rest h = []"
  shows "commit_ok (persist_done i s)"
proof -
  let ?s = "persist_done i s" and ?g = "ch_group h"
  have fields: "cr_offsets ?s = cr_offsets s" "cr_files ?s = cr_files s" "cr_order ?s = cr_order s"
      "cr_waiting ?s = cr_waiting s" "cr_writing ?s = hm_remove i (cr_writing s)" "group_text ?s = group_text s"
    by (simp_all add: persist_done_def group_text_def fun_eq_iff)
  have "writers_ok ?s" using ok by (auto simp: commit_ok_def writers_ok_def fields hashmap_simps split: if_splits)
  moreover have "covered ?s g'" if "g' \<noteq> []" for g'
  proof -
    have "covered s g'" using ok that by (simp add: commit_ok_def)
    then consider j where "hm_get (cr_waiting s) j = Some g'"
      | j h' where "hm_get (cr_writing s) j = Some h'" "being_written s g' h'" | "written s g'"
      unfolding covered_def by blast
    then show ?thesis
    proof cases
      case (1 j)
      then show ?thesis by (auto simp: covered_def fields)
    next
      case (2 j h')
      show ?thesis
      proof (cases "j = i")
        case False
        have "being_written ?s g' h'" using 2(2) by (simp add: being_written_def fields)
        then show ?thesis using False 2(1) by (auto simp: covered_def fields hashmap_simps)
      next
        case True
        have "ch_pos h \<le> length (group_text s ?g)" "length (group_text s ?g) \<le> ch_pos h"
          using ok w rest by (auto simp: commit_ok_def writers_ok_def)
        then have "ch_pos h = length (group_text s ?g)" by (rule order.antisym)
        then have body: "hm_get (cr_files s) (offsets_file ?g) = Some (group_text s ?g)" and "g' = ?g"
          using 2 True w by (auto simp: being_written_def)
        moreover have "file_synced (cr_files s) (cr_offsets s) ?g"
          using ok body group_text_synced [of s ?g] by (simp add: commit_ok_def)
        ultimately show ?thesis by (simp add: covered_def written_def fields)
      qed
    next
      case 3
      then have "written ?s g'" by (auto simp: written_def fields hashmap_simps split: if_splits)
      then show ?thesis by (simp add: covered_def)
    qed
  qed
  ultimately show ?thesis using ok by (simp add: commit_ok_def fields)
qed

lemma commit_start_ok: "om_synced om \<Longrightarrow> commit_ok (commit_start om)"
  by (simp add: commit_ok_def commit_start_def om_synced_def writers_ok_def covered_def written_def is_order_def)

lemma commit_steps_ok:
  assumes "commit_step\<^sup>*\<^sup>* s s'" and "commit_ok s"
  shows "commit_ok s'"
  using assms by (induction rule: rtranclp_induct) (auto elim!: commit_stepE simp: insert_ok open_ok write_ok done_ok)

text \<open>The map holds the last offset of the log.\<close>

definition commit_log :: "(offset_key \<times> u64) list \<Rightarrow> (offset_key \<rightharpoonup> u64) \<Rightarrow> (offset_key \<rightharpoonup> u64)" where
  "commit_log es m = fold (\<lambda>(k, v) m. m(k \<mapsto> v)) es m"

lemma commit_steps_log:
  assumes "commit_step\<^sup>*\<^sup>* s s'" and "hm_get (cr_offsets s) = commit_log (cr_log s) m"
  shows "hm_get (cr_offsets s') = commit_log (cr_log s') m"
  using assms
proof (induction rule: rtranclp_induct)
  case (step s' s'')
  then have "hm_get (cr_offsets s') = commit_log (cr_log s') m" by blast
  with step(2) show ?case
    by (elim commit_stepE)
      (auto simp: commit_insert_def persist_open_def persist_write_def persist_done_def Let_def commit_log_def
        update_conv' split: option.split)
qed

text \<open>A group is at rest when no handler still has its file to write.\<close>

definition group_at_rest :: "commit_run \<Rightarrow> string \<Rightarrow> bool" where
  "group_at_rest s g \<longleftrightarrow>
     list_all (\<lambda>(_, g'). g' \<noteq> g) (cr_waiting s) \<and> list_all (\<lambda>(_, h). ch_group h \<noteq> g) (cr_writing s)"

lemma covered_at_rest:
  assumes "covered s g" and "group_at_rest s g"
  shows "file_synced (cr_files s) (cr_offsets s) g"
proof -
  have "hm_get (cr_waiting s) i \<noteq> Some g" for i
    using assms(2) by (auto simp: group_at_rest_def list_all_iff dest: map_of_SomeD)
  moreover have "hm_get (cr_writing s) i \<noteq> Some h" if "being_written s g h" for i h
    using assms(2) that by (auto simp: group_at_rest_def being_written_def list_all_iff dest: map_of_SomeD)
  ultimately show ?thesis using assms(1) by (auto simp: covered_def written_def)
qed



end
