(* ===== verification/Concurrent_Join.thy ===== *)
theory Concurrent_Join
  imports Group_Properties Broker_Properties Queue_Spec
begin

text \<open>
  Consumers that join groups at once. The join handler of \<open>server.rs\<close> looks up every topic of the request, tells the
  coordinator its number of partitions, and then joins; other handlers run between these steps. Whatever
  the interleaving, the member that joins is told exactly what it owns, and every partition of its topics
  has one owner.
\<close>

section \<open>The steps of the handler\<close>

text \<open>
  A handler with the topics it has still to look up and the number it has read but not told yet.
  \<open>jo_existed\<close> is not in the code: the topics of the request that are there when the handler starts.
\<close>

record joiner =
  jo_group :: string
  jo_member :: "string option"
  jo_topics :: "string list"
  jo_left :: "string list"
  jo_count :: "(string \<times> u32) option"
  jo_existed :: "string list"

record join_run =
  ju_broker :: broker
  ju_pending :: "(nat, joiner) hashmap"

definition partition_count :: "broker \<Rightarrow> string \<Rightarrow> u32 option" where
  "partition_count b t = map_option num_partitions (hm_get (tm_topics (br_topics b)) t)"

definition join_begin :: "nat \<Rightarrow> string \<Rightarrow> string option \<Rightarrow> string list \<Rightarrow> join_run \<Rightarrow> join_run" where
  "join_begin i g mid ts s =
     s\<lparr>ju_pending := hm_insert i
         \<lparr>jo_group = g, jo_member = mid, jo_topics = ts, jo_left = ts, jo_count = None,
          jo_existed = filter (\<lambda>t. partition_count (ju_broker s) t \<noteq> None) ts\<rparr> (ju_pending s)\<rparr>"

definition join_look :: "nat \<Rightarrow> join_run \<Rightarrow> join_run" where
  "join_look i s =
     (case hm_get (ju_pending s) i of
        None \<Rightarrow> s
      | Some j \<Rightarrow>
          (case jo_left j of
             [] \<Rightarrow> s
           | t # ts \<Rightarrow>
               s\<lparr>ju_pending := hm_insert i (j\<lparr>jo_left := ts, jo_count := (case get_topic (br_topics (ju_broker s)) t of
                    Ok to \<Rightarrow> Some (t, num_partitions to) | _ \<Rightarrow> None)\<rparr>) (ju_pending s)\<rparr>))"

definition join_tell :: "nat \<Rightarrow> join_run \<Rightarrow> join_run" where
  "join_tell i s =
     (case hm_get (ju_pending s) i of
        None \<Rightarrow> s
      | Some j \<Rightarrow>
          (case jo_count j of
             None \<Rightarrow> s
           | Some (t, n) \<Rightarrow>
               s\<lparr>ju_broker := (ju_broker s)\<lparr>br_coordinator := update_topic_partitions t n (br_coordinator (ju_broker s))\<rparr>,
                 ju_pending := hm_insert i (j\<lparr>jo_count := None\<rparr>) (ju_pending s)\<rparr>))"

definition join_finish :: "environment \<Rightarrow> nat \<Rightarrow> joiner \<Rightarrow> join_run \<Rightarrow> join_run \<times> response outcome" where
  "join_finish e i j s =
     (let b = ju_broker s; s' = (\<lambda>gc. s\<lparr>ju_broker := b\<lparr>br_coordinator := gc\<rparr>, ju_pending := hm_remove i (ju_pending s)\<rparr>) in
      case join_group (env_subscribed e) (env_members e) (env_now e) (env_uuid e) (jo_group j) (jo_member j) (jo_topics j)
             (br_coordinator b) of
        (gc, Ok (mid, assignments)) \<Rightarrow> (s' gc, Ok (JoinGroupSuccess (jo_group j) mid assignments))
      | (gc, Err er) \<Rightarrow> (s' gc, Ok (JoinGroupError (error_to_string er)))
      | (gc, Panic) \<Rightarrow> (s' gc, Panic))"

lemma join_look_count:
  assumes "hm_get (ju_pending s) i = Some j" and "jo_left j = t # ts"
  shows "join_look i s = s\<lparr>ju_pending :=
    hm_insert i (j\<lparr>jo_left := ts, jo_count := map_option (Pair t) (partition_count (ju_broker s) t)\<rparr>) (ju_pending s)\<rparr>"
  using assms by (cases "hm_get (tm_topics (br_topics (ju_broker s))) t")
    (simp_all add: join_look_def get_topic_def partition_count_def)

text \<open>One handler alone does what the handler of the request does in one piece.\<close>

fun join_rounds :: "nat \<Rightarrow> nat \<Rightarrow> join_run \<Rightarrow> join_run" where
  "join_rounds i 0 s = s"
| "join_rounds i (Suc k) s = join_rounds i k (join_tell i (join_look i s))"

lemma join_rounds_learn:
  assumes "hm_get (ju_pending s) i = Some j" and "jo_count j = None"
  shows "ju_broker (join_rounds i (length (jo_left j)) s) =
           (ju_broker s)\<lparr>br_coordinator := learn_partitions (br_topics (ju_broker s)) (jo_left j) (br_coordinator (ju_broker s))\<rparr> \<and>
         hm_get (ju_pending (join_rounds i (length (jo_left j)) s)) i = Some (j\<lparr>jo_left := []\<rparr>)"
  using assms
proof (induction "jo_left j" arbitrary: s j)
  case Nil
  have "j\<lparr>jo_left := []\<rparr> = j" using Nil(1) by (cases j) simp
  moreover have "(ju_broker s)\<lparr>br_coordinator := br_coordinator (ju_broker s)\<rparr> = ju_broker s" by (cases "ju_broker s") simp
  ultimately show ?case using Nil(1) [symmetric] Nil(2) by simp
next
  case (Cons t ts)
  let ?s = "join_tell i (join_look i s)" and ?j = "j\<lparr>jo_left := ts\<rparr>"
  have step: "hm_get (ju_pending ?s) i = Some ?j" "br_topics (ju_broker ?s) = br_topics (ju_broker s)"
    "ju_broker ?s = (ju_broker s)\<lparr>br_coordinator := (case get_topic (br_topics (ju_broker s)) t of
       Ok to \<Rightarrow> update_topic_partitions t (num_partitions to) (br_coordinator (ju_broker s))
     | _ \<Rightarrow> br_coordinator (ju_broker s))\<rparr>"
    using Cons.prems Cons.hyps(2) [symmetric]
    by (auto simp: join_look_def join_tell_def hashmap_simps split: outcome.split)
  show ?case
    using Cons.hyps(1) [of ?j ?s] step Cons.prems(2) Cons.hyps(2) [symmetric] by simp
qed

lemma join_steps_sequential:
  assumes "hm_get (ju_pending (join_rounds i (length ts) (join_begin i g mid ts s))) i = Some j"
  shows "ju_broker (fst (join_finish e i j (join_rounds i (length ts) (join_begin i g mid ts s)))) =
           fst (handle_join_group e g mid ts (ju_broker s)) \<and>
         snd (join_finish e i j (join_rounds i (length ts) (join_begin i g mid ts s))) =
           snd (handle_join_group e g mid ts (ju_broker s))"
proof -
  define s1 where "s1 = join_begin i g mid ts s"
  obtain j1 where j1: "hm_get (ju_pending s1) i = Some j1" "jo_count j1 = None" "jo_left j1 = ts" "jo_topics j1 = ts"
      "jo_group j1 = g" "jo_member j1 = mid"
    by (simp add: s1_def join_begin_def hashmap_simps)
  have b: "ju_broker s1 = ju_broker s" by (simp add: s1_def join_begin_def)
  note rounds = join_rounds_learn [OF j1(1,2), unfolded j1(3) b]
  have "j = j1\<lparr>jo_left := []\<rparr>" using assms rounds by (simp add: s1_def [symmetric])
  then have "jo_group j = g" "jo_member j = mid" "jo_topics j = ts" using j1(4-6) by simp_all
  then show ?thesis
    using rounds by (simp add: s1_def [symmetric] join_finish_def handle_join_group_def Let_def
        split: prod.split outcome.split)
qed

text \<open>Any number of handlers at their steps, with other requests and the periodic tasks between them.\<close>

inductive join_step :: "codecs \<Rightarrow> join_run \<Rightarrow> join_run \<Rightarrow> bool" for C where
  Begin: "hm_get (ju_pending s) i = None \<Longrightarrow> join_step C s (join_begin i g mid ts s)"
| Look: "hm_get (ju_pending s) i = Some j \<Longrightarrow> jo_count j = None \<Longrightarrow> join_step C s (join_look i s)"
| Tell: "hm_get (ju_pending s) i = Some j \<Longrightarrow> join_step C s (join_tell i s)"
| Finish: "hm_get (ju_pending s) i = Some j \<Longrightarrow> jo_left j = [] \<Longrightarrow> jo_count j = None \<Longrightarrow> env_ok e \<Longrightarrow>
     join_step C s (fst (join_finish e i j s))"
| Other: "env_ok (event_env ev) \<Longrightarrow> join_step C s (s\<lparr>ju_broker := fst (handle_event C ev (ju_broker s))\<rparr>)"

inductive_cases join_stepE: "join_step C s s'"

section \<open>Topics and their numbers of partitions\<close>

definition known_counts :: "broker \<Rightarrow> (string, u32) hashmap" where
  "known_counts b = gc_topic_partitions (br_coordinator b)"

text \<open>What the coordinator knows is true, and stays so.\<close>

definition counts_true :: "broker \<Rightarrow> bool" where
  "counts_true b \<longleftrightarrow> (\<forall>t n. hm_get (known_counts b) t = Some n \<longrightarrow> partition_count b t = Some n)"

lemma append_count: "map_option num_partitions (hm_get (tm_topics (fst (tm_append C t q ms tm))) t') =
    map_option num_partitions (hm_get (tm_topics tm) t')"
  by (auto simp: tm_append_def get_topic_def topic_append_def put_topic_def num_partitions_def Let_def hashmap_simps
      split: option.split outcome.split prod.split)

lemma learn_counts:
  "hm_get (gc_topic_partitions (learn_partitions tm ts gc)) t =
     (if t \<in> set ts \<and> hm_get (tm_topics tm) t \<noteq> None then map_option num_partitions (hm_get (tm_topics tm) t)
      else hm_get (gc_topic_partitions gc) t)"
proof (induction ts arbitrary: gc)
  case (Cons a ts)
  then show ?case
    by (cases "hm_get (tm_topics tm) a") (auto simp: get_topic_def update_topic_partitions_def hashmap_simps)
qed simp

lemma group_ops_counts:
  "gc_topic_partitions (fst (join_group tord mord now uuid gid mid ts gc)) = gc_topic_partitions gc"
  "gc_topic_partitions (fst (leave_group tord mord gid m gc)) = gc_topic_partitions gc"
  "gc_topic_partitions (fst (coordinator_heartbeat now gid m gc)) = gc_topic_partitions gc"
  "gc_topic_partitions (check_heartbeats gord tord mord clock gc) = gc_topic_partitions gc"
  by (simp_all add: join_group_def leave_group_def coordinator_heartbeat_def check_heartbeats_def put_group_def Let_def
      split: option.split prod.split outcome.split)

lemma request_partition_count:
  assumes "partition_count b t = Some n"
  shows "partition_count (fst (process_request C e req b)) t = Some n"
proof (cases req)
  case (CreateTopic name k)
  then show ?thesis using assms
    by (auto simp: handle_create_topic_def create_topic_def partition_count_def Let_def hashmap_simps
        split: prod.split outcome.split option.split)
next
  case (Produce t' q ms)
  have "br_topics (fst (process_request C e req b)) = fst (tm_append C t' q ms (br_topics b))"
    by (simp add: Produce handle_produce_def Let_def split: prod.split outcome.split)
  then show ?thesis using assms by (simp add: partition_count_def append_count)
qed (use assms in \<open>simp_all add: partition_count_def handle_join_group_def handle_leave_group_def handle_heartbeat_def
    handle_commit_offset_def handle_register_broker_def Let_def split: prod.split outcome.split\<close>)

lemma request_known_counts:
  "hm_get (known_counts (fst (process_request C e req b))) t =
     (case req of JoinGroup g mid ts \<Rightarrow> if t \<in> set ts \<and> partition_count b t \<noteq> None then partition_count b t
        else hm_get (known_counts b) t | _ \<Rightarrow> hm_get (known_counts b) t)"
proof (cases req)
  case (JoinGroup g mid ts)
  let ?gc = "learn_partitions (br_topics b) ts (br_coordinator b)"
  have "br_coordinator (fst (process_request C e req b)) =
      fst (join_group (env_subscribed e) (env_members e) (env_now e) (env_uuid e) g mid ts ?gc)"
    by (simp add: JoinGroup handle_join_group_def Let_def split: prod.split outcome.split)
  then show ?thesis
    by (cases "hm_get (tm_topics (br_topics b)) t")
      (simp_all add: JoinGroup known_counts_def group_ops_counts learn_counts partition_count_def)
next
  case (LeaveGroup g m)
  have "br_coordinator (fst (process_request C e req b)) =
      fst (leave_group (env_subscribed e) (env_members e) g m (br_coordinator b))"
    by (simp add: LeaveGroup handle_leave_group_def split: prod.split outcome.split)
  then show ?thesis by (simp add: LeaveGroup known_counts_def group_ops_counts)
next
  case (Heartbeat g m)
  have "br_coordinator (fst (process_request C e req b)) = fst (coordinator_heartbeat (env_now e) g m (br_coordinator b))"
    by (simp add: Heartbeat handle_heartbeat_def split: prod.split outcome.split)
  then show ?thesis by (simp add: Heartbeat known_counts_def group_ops_counts)
qed (simp_all add: known_counts_def handle_create_topic_def handle_produce_def handle_commit_offset_def Let_def
    handle_register_broker_def split: prod.split outcome.split)

lemma event_counts:
  assumes "partition_count b t = Some n"
  shows "partition_count (fst (handle_event C ev b)) t = Some n"
proof (cases ev)
  case (Handle e req)
  then have "fst (handle_event C ev b) = fst (process_request C e req b)"
    by (simp add: handle_event_def case_prod_beta Let_def)
  then show ?thesis using request_partition_count [OF assms] by simp
qed (use assms in \<open>simp_all add: handle_event_def tick_groups_def tick_health_def partition_count_def\<close>)

lemma event_known_counts:
  assumes "counts_true b"
  shows "counts_true (fst (handle_event C ev b))"
    and "hm_get (known_counts b) t = Some n \<Longrightarrow> hm_get (known_counts (fst (handle_event C ev b))) t = Some n"
proof -
  have known: "hm_get (known_counts (fst (handle_event C ev b))) t = hm_get (known_counts b) t \<or>
      (hm_get (known_counts (fst (handle_event C ev b))) t = partition_count b t \<and> partition_count b t \<noteq> None)" for t
  proof (cases ev)
    case (Handle e req)
    then have "fst (handle_event C ev b) = fst (process_request C e req b)"
      by (simp add: handle_event_def case_prod_beta Let_def)
    then show ?thesis using request_known_counts [of C e req b t] by (cases req) auto
  qed (simp_all add: handle_event_def tick_groups_def tick_health_def known_counts_def group_ops_counts)
  show "counts_true (fst (handle_event C ev b))"
    unfolding counts_true_def
  proof (intro allI impI)
    fix t n
    assume "hm_get (known_counts (fst (handle_event C ev b))) t = Some n"
    then have "partition_count b t = Some n" using known [of t] assms unfolding counts_true_def by metis
    then show "partition_count (fst (handle_event C ev b)) t = Some n" by (rule event_counts)
  qed
  show "hm_get (known_counts (fst (handle_event C ev b))) t = Some n" if "hm_get (known_counts b) t = Some n"
    using that known [of t] assms unfolding counts_true_def by metis
qed

lemma event_coordinator_ok:
  assumes "env_ok (event_env ev)" and "coord_ok (br_coordinator b)"
  shows "coord_ok (br_coordinator (fst (handle_event C ev b)))"
proof (cases ev)
  case (Handle e req)
  then have "fst (handle_event C ev b) = fst (process_request C e req b)"
    by (simp add: handle_event_def case_prod_beta Let_def)
  then show ?thesis
    using coord_steps_ok [OF process_request_coordinator [of e b C req] assms(2)] assms(1) Handle by simp
qed (use assms in \<open>simp_all add: handle_event_def tick_groups_def tick_health_def env_ok_def check_heartbeats_ok\<close>)

section \<open>The invariant\<close>

text \<open>
  A handler: the topics that were there when it started are still there, the number it has read is true, and a
  topic it has passed is known to the coordinator.
\<close>

definition joiner_ok :: "broker \<Rightarrow> joiner \<Rightarrow> bool" where
  "joiner_ok b j \<longleftrightarrow>
     set (jo_existed j) \<subseteq> set (jo_topics j) \<and>
     (\<forall>t \<in> set (jo_existed j). partition_count b t \<noteq> None) \<and>
     (\<forall>t n. jo_count j = Some (t, n) \<longrightarrow> partition_count b t = Some n) \<and>
     (\<forall>t \<in> set (jo_existed j). t \<in> set (jo_left j) \<or> (\<exists>n. jo_count j = Some (t, n)) \<or>
        hm_get (known_counts b) t \<noteq> None)"

definition counts_kept :: "broker \<Rightarrow> broker \<Rightarrow> bool" where
  "counts_kept b b' \<longleftrightarrow>
     (\<forall>t n. partition_count b t = Some n \<longrightarrow> partition_count b' t = Some n) \<and>
     (\<forall>t n. hm_get (known_counts b) t = Some n \<longrightarrow> hm_get (known_counts b') t = Some n)"

lemma joiner_ok_kept:
  assumes "joiner_ok b j" and "counts_kept b b'"
  shows "joiner_ok b' j"
proof -
  have there: "partition_count b' t \<noteq> None" if "partition_count b t \<noteq> None" for t
    using that assms(2) by (cases "partition_count b t") (auto simp: counts_kept_def)
  have known: "hm_get (known_counts b') t \<noteq> None" if "hm_get (known_counts b) t \<noteq> None" for t
    using that assms(2) by (cases "hm_get (known_counts b) t") (auto simp: counts_kept_def simp del: not_None_eq)
  have "partition_count b' t = Some n" if "jo_count j = Some (t, n)" for t n
    using that assms by (simp add: joiner_ok_def counts_kept_def)
  then show ?thesis
    using assms(1) there known unfolding joiner_ok_def by blast
qed

definition join_inv :: "join_run \<Rightarrow> bool" where
  "join_inv s \<longleftrightarrow>
     coord_ok (br_coordinator (ju_broker s)) \<and> counts_true (ju_broker s) \<and>
     (\<forall>i j. hm_get (ju_pending s) i = Some j \<longrightarrow> joiner_ok (ju_broker s) j)"

lemma join_inv_change:
  assumes "join_inv s" and "coord_ok (br_coordinator b')" and "counts_true b'" and "counts_kept (ju_broker s) b'"
    and "\<And>i j. hm_get pend i = Some j \<Longrightarrow> hm_get (ju_pending s) i = Some j \<or> joiner_ok b' j"
  shows "join_inv (s\<lparr>ju_broker := b', ju_pending := pend\<rparr>)"
proof -
  have "joiner_ok b' j" if "hm_get pend i = Some j" for i j
    using assms(5) [OF that] joiner_ok_kept [OF _ assms(4)] assms(1) unfolding join_inv_def by blast
  then show ?thesis using assms(2,3) by (simp add: join_inv_def)
qed

lemma join_step_inv:
  assumes "join_step C s s'" and "join_inv s"
  shows "join_inv s'"
  using assms(1)
proof (cases rule: join_step.cases)
  case (Begin i g mid ts)
  have "joiner_ok (ju_broker s) \<lparr>jo_group = g, jo_member = mid, jo_topics = ts, jo_left = ts, jo_count = None,
          jo_existed = filter (\<lambda>t. partition_count (ju_broker s) t \<noteq> None) ts\<rparr>"
    by (auto simp: joiner_ok_def)
  then show ?thesis using assms(2) Begin(1) by (auto simp: join_inv_def join_begin_def hashmap_simps)
next
  case (Look i j)
  show ?thesis
  proof (cases "jo_left j")
    case (Cons t ts)
    have "joiner_ok (ju_broker s) j" using assms(2) Look(2) by (simp add: join_inv_def)
    have "joiner_ok (ju_broker s) (j\<lparr>jo_left := ts, jo_count := map_option (Pair t) (partition_count (ju_broker s) t)\<rparr>)"
    proof -
      have "t' \<in> set ts \<or> (\<exists>n. map_option (Pair t) (partition_count (ju_broker s) t) = Some (t', n)) \<or>
          hm_get (known_counts (ju_broker s)) t' \<noteq> None" if "t' \<in> set (jo_existed j)" for t'
        using that \<open>joiner_ok (ju_broker s) j\<close> Cons Look(3) by (cases "t' = t") (auto simp: joiner_ok_def)
      then show ?thesis using \<open>joiner_ok (ju_broker s) j\<close> by (simp add: joiner_ok_def)
    qed
    then show ?thesis using assms(2) Look(1) join_look_count [OF Look(2) Cons] by (auto simp: join_inv_def hashmap_simps)
  qed (use assms(2) Look in \<open>simp add: join_look_def\<close>)
next
  case (Tell i j)
  show ?thesis
  proof (cases "jo_count j")
    case (Some tn)
    obtain t n where tn: "jo_count j = Some (t, n)" using Some by (cases tn) simp
    let ?b = "(ju_broker s)\<lparr>br_coordinator := update_topic_partitions t n (br_coordinator (ju_broker s))\<rparr>"
    have j: "joiner_ok (ju_broker s) j" using assms(2) Tell(2) by (simp add: join_inv_def)
    then have count: "partition_count (ju_broker s) t = Some n" using tn by (simp add: joiner_ok_def)
    have known: "hm_get (known_counts ?b) t' = (if t' = t then Some n else hm_get (known_counts (ju_broker s)) t')" for t'
      by (simp add: known_counts_def update_topic_partitions_def hashmap_simps)
    have same: "partition_count ?b = partition_count (ju_broker s)" by (simp add: partition_count_def fun_eq_iff)
    have true: "counts_true (ju_broker s)" using assms(2) by (simp add: join_inv_def)
    have kept: "counts_kept (ju_broker s) ?b"
      unfolding counts_kept_def same known using true count by (auto simp: counts_true_def)
    have "joiner_ok ?b (j\<lparr>jo_count := None\<rparr>)"
      using j tn unfolding joiner_ok_def same known by auto
    moreover have "coord_ok (br_coordinator ?b)"
      using assms(2) coord_step_ok [OF coord_step.Update] by (simp add: join_inv_def)
    moreover have "counts_true ?b" using true count unfolding counts_true_def same known by simp
    ultimately have "join_inv (s\<lparr>ju_broker := ?b, ju_pending := hm_insert i (j\<lparr>jo_count := None\<rparr>) (ju_pending s)\<rparr>)"
      by (intro join_inv_change [OF assms(2) _ _ kept]) (auto simp: hashmap_simps split: if_splits)
    then show ?thesis using Tell(1,2) tn by (simp add: join_tell_def)
  qed (use assms(2) Tell in \<open>simp add: join_tell_def\<close>)
next
  case (Finish i j e)
  let ?j = "join_group (env_subscribed e) (env_members e) (env_now e) (env_uuid e) (jo_group j) (jo_member j) (jo_topics j)
      (br_coordinator (ju_broker s))"
  let ?b = "(ju_broker s)\<lparr>br_coordinator := fst ?j\<rparr>"
  have s': "s' = s\<lparr>ju_broker := ?b, ju_pending := hm_remove i (ju_pending s)\<rparr>"
    using Finish(1) by (simp add: join_finish_def Let_def split: prod.split outcome.split)
  have "coord_step (br_coordinator (ju_broker s)) (fst ?j)"
    using Finish(5) by (intro coord_step.Join) (simp_all add: env_ok_def)
  then have "coord_ok (br_coordinator ?b)" using assms(2) coord_step_ok by (auto simp: join_inv_def)
  moreover have known: "known_counts ?b = known_counts (ju_broker s)" by (simp add: known_counts_def group_ops_counts)
  moreover have same: "partition_count ?b = partition_count (ju_broker s)" by (simp add: partition_count_def fun_eq_iff)
  ultimately show ?thesis
    unfolding s' using assms(2)
    by (intro join_inv_change [OF assms(2)])
      (auto simp: counts_kept_def counts_true_def join_inv_def hashmap_simps split: if_splits)
next
  case (Other ev)
  let ?b = "fst (handle_event C ev (ju_broker s))"
  have true: "counts_true (ju_broker s)" and ok: "coord_ok (br_coordinator (ju_broker s))"
    using assms(2) by (simp_all add: join_inv_def)
  have "counts_kept (ju_broker s) ?b"
    unfolding counts_kept_def using event_counts event_known_counts(2) [OF true] by blast
  then have "join_inv (s\<lparr>ju_broker := ?b, ju_pending := ju_pending s\<rparr>)"
    using event_coordinator_ok [OF Other(2) ok] event_known_counts(1) [OF true]
    by (intro join_inv_change [OF assms(2)]) simp_all
  then show ?thesis using Other(1) by simp
qed

lemma join_finish_counts:
  "partition_count (ju_broker (fst (join_finish e i j s))) = partition_count (ju_broker s)"
  by (simp add: join_finish_def Let_def partition_count_def fun_eq_iff split: prod.split outcome.split)

lemma join_reach_inv:
  assumes "broker_new C now config listing files = Ok b0"
    and "(join_step C)\<^sup>*\<^sup>* \<lparr>ju_broker = broker_start ford b0, ju_pending = []\<rparr> s"
  shows "join_inv s"
  using assms(2)
proof (induction rule: rtranclp_induct)
  case base
  have "br_coordinator b0 = group_coordinator_new 30000" using assms(1) by (auto simp: broker_new_def outcome_simps)
  moreover have "coord_ok (group_coordinator_new 30000)" using coord_reach_ok by blast
  ultimately show ?case
    by (simp add: join_inv_def broker_start_def counts_true_def known_counts_def group_coordinator_new_def)
qed (rule join_step_inv)

section \<open>Joins under interleaving\<close>

text \<open>A partition that the broker has.\<close>

definition partition_there :: "broker \<Rightarrow> partition_assignment \<Rightarrow> bool" where
  "partition_there b p \<longleftrightarrow>
     (case partition_count b (pa_topic p) of Some n \<Rightarrow> pa_partition p < n | None \<Rightarrow> False)"

text \<open>
  C14. Clients that join groups at once, their handlers interleaved step by step with each other and with any
  other requests and the periodic tasks: a client that joins is told exactly the partitions it owns from
  then on, every partition of a topic it asked for that was there when its handler started has
  exactly one owner in the group, and nobody owns a partition that does not exist.
\<close>

theorem interleaved_joins_assign:
  assumes "broker_new C now config listing files = Ok b0"
    and "(join_step C)\<^sup>*\<^sup>* \<lparr>ju_broker = broker_start ford b0, ju_pending = []\<rparr> s"
    and "hm_get (ju_pending s) i = Some j" and "jo_left j = []" and "jo_count j = None" and "env_ok e"
    and "join_finish e i j s = (s', r)"
  shows "\<exists>g m asg. r = Ok (JoinGroupSuccess (jo_group j) m asg) \<and>
           hm_get (gc_groups (br_coordinator (ju_broker s'))) (jo_group j) = Some g \<and>
           (\<forall>p. p \<in> set asg \<longleftrightarrow> owner g p m) \<and>
           (\<forall>p. pa_topic p \<in> set (jo_existed j) \<longrightarrow> partition_there (ju_broker s') p \<longrightarrow> (\<exists>!k. owner g p k)) \<and>
           (\<forall>p k. owner g p k \<longrightarrow> partition_there (ju_broker s') p)"
proof -
  have inv: "coord_ok (br_coordinator (ju_broker s))" "counts_true (ju_broker s)" "joiner_ok (ju_broker s) j"
    using join_reach_inv [OF assms(1,2)] assms(3) by (auto simp: join_inv_def)
  have ord: "is_order (env_subscribed e)" "is_order (env_members e)" using assms(6) by (simp_all add: env_ok_def)
  let ?gc = "br_coordinator (ju_broker s)"
  let ?old = "case hm_get (gc_groups ?gc) (jo_group j) of Some g \<Rightarrow> g | None \<Rightarrow> consumer_group_new (jo_group j)"
  define m where "m = (case jo_member j of Some m \<Rightarrow> m | None \<Rightarrow> jo_group j @ ''-'' @ take 8 (env_uuid e))"
  define g0 where "g0 = add_member \<lparr>gm_member_id = m, gm_topics = jo_topics j, gm_last_heartbeat = env_now e,
      gm_assignments = []\<rparr> ?old"
  define g where "g = rebalance (env_subscribed e) (env_members e) (gc_topic_partitions ?gc) g0"
  define asg where "asg = (case hm_get (cg_members g) m of Some x \<Rightarrow> gm_assignments x | None \<Rightarrow> [])"
  have j: "join_group (env_subscribed e) (env_members e) (env_now e) (env_uuid e) (jo_group j) (jo_member j) (jo_topics j) ?gc =
      (put_group (jo_group j) g ?gc, Ok (m, asg))"
    by (simp add: join_group_def Let_def m_def g0_def g_def asg_def)
  then have s': "ju_broker s' = (ju_broker s)\<lparr>br_coordinator := put_group (jo_group j) g ?gc\<rparr>"
    and r: "r = Ok (JoinGroupSuccess (jo_group j) m asg)"
    using assms(7) by (auto simp: join_finish_def Let_def)
  have "hm_ok (cg_members ?old)"
    by (cases "hm_get (gc_groups ?gc) (jo_group j)") (simp_all add: consumer_group_new_def coord_okD [OF inv(1)])
  then have g0: "hm_ok (cg_members g0)" "cg_members g0 \<noteq> []"
      "hm_get (cg_members g0) m = Some \<lparr>gm_member_id = m, gm_topics = jo_topics j, gm_last_heartbeat = env_now e,
         gm_assignments = []\<rparr>"
    by (simp_all add: g0_def add_member_def hashmap_simps)
  have there: "partition_there (ju_broker s') p \<longleftrightarrow> partition_there (ju_broker s) p" for p
    by (simp add: s' partition_there_def partition_count_def)
  note own = rebalance_owner [OF g0(1) ord g0(2), of "gc_topic_partitions ?gc", folded g_def]
  have known: "wanted (gc_topic_partitions ?gc) g p \<Longrightarrow> partition_there (ju_broker s) p" for p
    using inv(2) by (auto simp: wanted_def partition_there_def counts_true_def known_counts_def split: option.splits)
  have "wanted (gc_topic_partitions ?gc) g p" if p: "pa_topic p \<in> set (jo_existed j)" "partition_there (ju_broker s) p" for p
  proof -
    have "pa_topic p \<in> set (jo_topics j)" using inv(3) p(1) by (auto simp: joiner_ok_def)
    then have asks: "\<exists>(k, x) \<in> set (cg_members g0). pa_topic p \<in> set (gm_topics x)"
      using g0(3) by (force dest: map_of_SomeD)
    obtain n where n: "hm_get (gc_topic_partitions ?gc) (pa_topic p) = Some n"
      using inv(3) p(1) assms(4,5) by (auto simp: joiner_ok_def known_counts_def)
    then have "partition_count (ju_broker s) (pa_topic p) = Some n"
      using inv(2) by (simp add: counts_true_def known_counts_def)
    then show ?thesis
      using p(2) n asks unfolding wanted_def g_def rebalance_topics [OF g0(1) ord(2)]
      by (simp add: partition_there_def)
  qed
  then have one: "\<forall>p. pa_topic p \<in> set (jo_existed j) \<longrightarrow> partition_there (ju_broker s') p \<longrightarrow> (\<exists>!k. owner g p k)"
    using own there by simp
  have real: "partition_there (ju_broker s') p" if "owner g p k" for p k
  proof (rule ccontr)
    assume "\<not> partition_there (ju_broker s') p"
    then have "\<not> wanted (gc_topic_partitions ?gc) g p" using known [of p] there by blast
    then show False using own [of p] that by simp
  qed
  have stored: "hm_get (gc_groups (br_coordinator (ju_broker s'))) (jo_group j) = Some g"
    by (simp add: s' put_group_def hashmap_simps)
  have told: "p \<in> set asg \<longleftrightarrow> owner g p m" for p
    by (simp add: asg_def owner_def split: option.split)
  show ?thesis
    by (intro exI [of _ g] exI [of _ m] exI [of _ asg] conjI allI impI) (use r stored told one real in blast)+
qed

text \<open>Two clients that join a group at once, their handlers at their steps in turn.\<close>

theorem interleaved_joins_assign_witness:
  "\<exists>s s' r m asg g. (join_step demo_codecs)\<^sup>*\<^sup>* \<lparr>ju_broker = broker_start rev sample_broker, ju_pending = []\<rparr> s \<and>
     hm_keys (ju_pending s) = [0] \<and>
     (\<exists>j. join_finish sample_env 0 j s = (s', r)) \<and> r = Ok (JoinGroupSuccess ''g'' m asg) \<and>
     hm_get (gc_groups (br_coordinator (ju_broker s'))) ''g'' = Some g \<and>
     (\<forall>p. p \<in> set asg \<longleftrightarrow> owner g p m) \<and> (\<exists>!k. owner g (partition_assignment_new ''t'' 0) k)"
proof -
  let ?b0 = "broker_start rev sample_broker"
  let ?s0 = "\<lparr>ju_broker = ?b0, ju_pending = []\<rparr>"
  define b1 where "b1 = fst (handle_event demo_codecs (Handle sample_env (CreateTopic ''t'' 2)) ?b0)"
  have range: "u32_range 2 = [0, 1]" by (simp add: u32_range_def upt_conv_Cons)
  have cl: "br_cluster ?b0 = br_cluster sample_broker" by (simp add: broker_start_def)
  have c: "partition_count b1 ''t'' = Some 2"
    unfolding b1_def handle_event_def using sample_assign [of 0 1] sample_assign [of 1 2]
    by (simp add: handle_create_topic_def create_topic_def broker_start_def sample_broker_def tm_new_def Let_def range sample_env_def)
      (simp add: partition_count_def num_partitions_def topic_new_def range)
  define s1 where "s1 = \<lparr>ju_broker = b1, ju_pending = []\<rparr>"
  define s3 where "s3 = join_begin 1 ''g'' (Some ''b'') [''t''] (join_begin 0 ''g'' (Some ''a'') [''t''] s1)"
  define s5 where "s5 = join_look 1 (join_look 0 s3)"
  let ?j = "\<lambda>m ts n. \<lparr>jo_group = ''g'', jo_member = Some m, jo_topics = [''t''], jo_left = ts, jo_count = n, jo_existed = [''t'']\<rparr>"
  have s3: "s3 = \<lparr>ju_broker = b1, ju_pending = [(0, ?j ''a'' [''t''] None), (1, ?j ''b'' [''t''] None)]\<rparr>"
    by (simp add: s3_def s1_def join_begin_def c)
  have s5: "s5 = \<lparr>ju_broker = b1, ju_pending = [(0, ?j ''a'' [] (Some (''t'', 2))), (1, ?j ''b'' [] (Some (''t'', 2)))]\<rparr>"
    by (simp add: s5_def s3 join_look_count c)
  let ?b2 = "b1\<lparr>br_coordinator := update_topic_partitions ''t'' 2 (update_topic_partitions ''t'' 2 (br_coordinator b1))\<rparr>"
  define s7 where "s7 = join_tell 0 (join_tell 1 s5)"
  have s7: "s7 = \<lparr>ju_broker = ?b2, ju_pending = [(0, ?j ''a'' [] None), (1, ?j ''b'' [] None)]\<rparr>"
    by (simp add: s7_def s5 join_tell_def)
  define s8 where "s8 = fst (join_finish sample_env 1 (?j ''b'' [] None) s7)"
  have s8: "ju_pending s8 = [(0, ?j ''a'' [] None)]" "partition_count (ju_broker s8) = partition_count b1"
    unfolding s8_def join_finish_counts
    by (simp_all add: join_finish_def Let_def s7 partition_count_def fun_eq_iff split: prod.split outcome.split)
  obtain s' r where fin: "join_finish sample_env 0 (?j ''a'' [] None) s8 = (s', r)" by (cases "join_finish sample_env 0 (?j ''a'' [] None) s8")
  have there: "partition_there (ju_broker s') (partition_assignment_new ''t'' 0)"
    using join_finish_counts [of sample_env 0 "?j ''a'' [] None" s8] fin s8(2) c
    by (simp add: partition_there_def partition_assignment_new_def)
  have a1: "join_step demo_codecs ?s0 s1"
    using join_step.Other [of "Handle sample_env (CreateTopic ''t'' 2)" demo_codecs ?s0] sample_env_ok
    by (simp add: s1_def b1_def)
  have a2: "join_step demo_codecs s1 (join_begin 0 ''g'' (Some ''a'') [''t''] s1)"
    by (rule join_step.Begin) (simp add: s1_def)
  have a3: "join_step demo_codecs (join_begin 0 ''g'' (Some ''a'') [''t''] s1) s3"
    unfolding s3_def by (rule join_step.Begin) (simp add: s1_def join_begin_def)
  have a4: "join_step demo_codecs s3 (join_look 0 s3)"
    by (rule join_step.Look [of _ _ "?j ''a'' [''t''] None"]) (simp_all add: s3)
  have a5: "join_step demo_codecs (join_look 0 s3) s5"
    unfolding s5_def by (rule join_step.Look [of _ _ "?j ''b'' [''t''] None"]) (simp_all add: s3 join_look_count)
  have a6: "join_step demo_codecs s5 (join_tell 1 s5)"
    by (rule join_step.Tell [of _ _ "?j ''b'' [] (Some (''t'', 2))"]) (simp add: s5)
  have a7: "join_step demo_codecs (join_tell 1 s5) s7"
    unfolding s7_def by (rule join_step.Tell [of _ _ "?j ''a'' [] (Some (''t'', 2))"]) (simp add: s5 join_tell_def)
  have a8: "join_step demo_codecs s7 s8"
    unfolding s8_def by (rule join_step.Finish) (simp_all add: s7 sample_env_ok)
  note ahead = converse_rtranclp_into_rtranclp [of "join_step demo_codecs"]
  have reach: "(join_step demo_codecs)\<^sup>*\<^sup>* ?s0 s8"
    by (rule ahead [OF a1], rule ahead [OF a2], rule ahead [OF a3], rule ahead [OF a4], rule ahead [OF a5],
        rule ahead [OF a6], rule ahead [OF a7], rule r_into_rtranclp, rule a8)
  from interleaved_joins_assign [OF sample_broker_new reach _ _ _ sample_env_ok fin]
  obtain g m asg where "r = Ok (JoinGroupSuccess ''g'' m asg)" "hm_get (gc_groups (br_coordinator (ju_broker s'))) ''g'' = Some g"
      "\<forall>p. p \<in> set asg \<longleftrightarrow> owner g p m" "\<exists>!k. owner g (partition_assignment_new ''t'' 0) k"
    using s8(1) there by (auto simp: partition_assignment_new_def)
  then show ?thesis using reach fin s8(1)
    by (intro exI [of _ s8] exI [of _ s'] exI [of _ r] exI [of _ m] exI [of _ asg] exI [of _ g]) (auto simp: hm_keys_def)
qed

end
