(* ===== verification/Metrics.thy ===== *)
theory Metrics
  imports Gaffa_Prelude Complex_Main
begin

text \<open>
  \<open>broker/src/metrics.rs\<close>: the metrics the broker offers to Prometheus, each a static that registers
  itself with the library's registry when it is used for the first time, and the export of what was registered. The
  registry and the text encoder belong to the library and are parameters. Names, labels and
  buckets keep the library's rules, so that no registration panics, whatever is used in whatever
  order.
\<close>

text \<open>The boundaries of the buckets of a histogram are the decimal numbers of the source.\<close>

datatype metric_kind = CounterVec | GaugeVec | HistogramVec "rat list"

record metric =
  mt_name :: string
  mt_help :: string
  mt_labels :: "string list"
  mt_kind :: metric_kind

definition register_counter_vec :: "string \<Rightarrow> string \<Rightarrow> string list \<Rightarrow> metric" where
  "register_counter_vec name help labels =
     \<lparr>mt_name = name, mt_help = help, mt_labels = labels, mt_kind = CounterVec\<rparr>"

definition register_gauge_vec :: "string \<Rightarrow> string \<Rightarrow> string list \<Rightarrow> metric" where
  "register_gauge_vec name help labels =
     \<lparr>mt_name = name, mt_help = help, mt_labels = labels, mt_kind = GaugeVec\<rparr>"

definition register_histogram_vec :: "string \<Rightarrow> string \<Rightarrow> string list \<Rightarrow> rat list \<Rightarrow> metric" where
  "register_histogram_vec name help labels buckets =
     \<lparr>mt_name = name, mt_help = help, mt_labels = labels, mt_kind = HistogramVec buckets\<rparr>"

section \<open>The metrics\<close>

definition MESSAGES_PRODUCED :: metric where
  "MESSAGES_PRODUCED = register_counter_vec
     ''gaffa_messages_produced_total''
     ''Total number of messages produced''
     [''topic'', ''partition'']"

definition MESSAGES_CONSUMED :: metric where
  "MESSAGES_CONSUMED = register_counter_vec
     ''gaffa_messages_consumed_total''
     ''Total number of messages consumed''
     [''topic'', ''partition'', ''consumer_group'']"

definition MESSAGES_FAILED :: metric where
  "MESSAGES_FAILED = register_counter_vec
     ''gaffa_messages_failed_total''
     ''Total number of failed message operations''
     [''operation'', ''topic'']"

definition BYTES_PRODUCED :: metric where
  "BYTES_PRODUCED = register_counter_vec
     ''gaffa_bytes_produced_total''
     ''Total bytes produced''
     [''topic'', ''partition'']"

definition BYTES_CONSUMED :: metric where
  "BYTES_CONSUMED = register_counter_vec
     ''gaffa_bytes_consumed_total''
     ''Total bytes consumed''
     [''topic'', ''partition'']"

definition COMPRESSION_RATIO :: metric where
  "COMPRESSION_RATIO = register_histogram_vec
     ''gaffa_compression_ratio''
     ''Compression ratio (compressed_size / original_size)''
     [''compression_type'']
     [1 / 10, 1 / 5, 3 / 10, 2 / 5, 1 / 2, 3 / 5, 7 / 10, 4 / 5, 9 / 10, 1]"

definition BYTES_SAVED_BY_COMPRESSION :: metric where
  "BYTES_SAVED_BY_COMPRESSION = register_counter_vec
     ''gaffa_bytes_saved_by_compression_total''
     ''Total bytes saved through compression''
     [''compression_type'']"

definition PRODUCE_LATENCY :: metric where
  "PRODUCE_LATENCY = register_histogram_vec
     ''gaffa_produce_latency_seconds''
     ''Produce request latency in seconds''
     [''topic'']
     [1 / 1000, 1 / 200, 1 / 100, 1 / 40, 1 / 20, 1 / 10, 1 / 4, 1 / 2, 1]"

definition FETCH_LATENCY :: metric where
  "FETCH_LATENCY = register_histogram_vec
     ''gaffa_fetch_latency_seconds''
     ''Fetch request latency in seconds''
     [''topic'']
     [1 / 1000, 1 / 200, 1 / 100, 1 / 40, 1 / 20, 1 / 10, 1 / 4, 1 / 2, 1]"

definition TOPIC_COUNT :: metric where
  "TOPIC_COUNT = register_gauge_vec
     ''gaffa_topics_total''
     ''Total number of topics''
     [''broker_id'']"

definition PARTITION_COUNT :: metric where
  "PARTITION_COUNT = register_gauge_vec
     ''gaffa_partitions_total''
     ''Total number of partitions''
     [''topic'']"

definition PARTITION_SIZE :: metric where
  "PARTITION_SIZE = register_gauge_vec
     ''gaffa_partition_size_bytes''
     ''Size of partition in bytes''
     [''topic'', ''partition'']"

definition PARTITION_OFFSET :: metric where
  "PARTITION_OFFSET = register_gauge_vec
     ''gaffa_partition_offset''
     ''Current offset of partition''
     [''topic'', ''partition'']"

definition CONSUMER_GROUP_MEMBERS :: metric where
  "CONSUMER_GROUP_MEMBERS = register_gauge_vec
     ''gaffa_consumer_group_members''
     ''Number of members in consumer group''
     [''group_id'']"

definition CONSUMER_LAG :: metric where
  "CONSUMER_LAG = register_gauge_vec
     ''gaffa_consumer_lag''
     ''Consumer lag (partition offset - committed offset)''
     [''group_id'', ''topic'', ''partition'']"

definition REPLICATION_LAG :: metric where
  "REPLICATION_LAG = register_gauge_vec
     ''gaffa_replication_lag''
     ''Replication lag in messages''
     [''topic'', ''partition'', ''follower_broker'']"

definition ISR_SIZE :: metric where
  "ISR_SIZE = register_gauge_vec
     ''gaffa_isr_size''
     ''Number of in-sync replicas''
     [''topic'', ''partition'']"

definition UNDER_REPLICATED_PARTITIONS :: metric where
  "UNDER_REPLICATED_PARTITIONS = register_gauge_vec
     ''gaffa_under_replicated_partitions''
     ''Number of under-replicated partitions''
     [''broker_id'']"

definition SEGMENT_COUNT :: metric where
  "SEGMENT_COUNT = register_gauge_vec
     ''gaffa_segments_total''
     ''Total number of segments''
     [''topic'', ''partition'']"

definition SEGMENTS_DELETED :: metric where
  "SEGMENTS_DELETED = register_counter_vec
     ''gaffa_segments_deleted_total''
     ''Total number of segments deleted by retention''
     [''topic'', ''partition'', ''reason'']"

definition ACTIVE_CONNECTIONS :: metric where
  "ACTIVE_CONNECTIONS = register_gauge_vec
     ''gaffa_active_connections''
     ''Number of active client connections''
     [''connection_type'']"

definition REQUEST_RATE :: metric where
  "REQUEST_RATE = register_counter_vec
     ''gaffa_requests_total''
     ''Total number of requests''
     [''request_type'']"

definition REQUEST_ERRORS :: metric where
  "REQUEST_ERRORS = register_counter_vec
     ''gaffa_request_errors_total''
     ''Total number of request errors''
     [''request_type'', ''error_type'']"

text \<open>All of them, in the order of the source.\<close>

definition metrics :: "metric list" where
  "metrics =
     [MESSAGES_PRODUCED,
      MESSAGES_CONSUMED,
      MESSAGES_FAILED,
      BYTES_PRODUCED,
      BYTES_CONSUMED,
      COMPRESSION_RATIO,
      BYTES_SAVED_BY_COMPRESSION,
      PRODUCE_LATENCY,
      FETCH_LATENCY,
      TOPIC_COUNT,
      PARTITION_COUNT,
      PARTITION_SIZE,
      PARTITION_OFFSET,
      CONSUMER_GROUP_MEMBERS,
      CONSUMER_LAG,
      REPLICATION_LAG,
      ISR_SIZE,
      UNDER_REPLICATED_PARTITIONS,
      SEGMENT_COUNT,
      SEGMENTS_DELETED,
      ACTIVE_CONNECTIONS,
      REQUEST_RATE,
      REQUEST_ERRORS]"

lemmas metric_defs =
  MESSAGES_PRODUCED_def
  MESSAGES_CONSUMED_def
  MESSAGES_FAILED_def
  BYTES_PRODUCED_def
  BYTES_CONSUMED_def
  COMPRESSION_RATIO_def
  BYTES_SAVED_BY_COMPRESSION_def
  PRODUCE_LATENCY_def
  FETCH_LATENCY_def
  TOPIC_COUNT_def
  PARTITION_COUNT_def
  PARTITION_SIZE_def
  PARTITION_OFFSET_def
  CONSUMER_GROUP_MEMBERS_def
  CONSUMER_LAG_def
  REPLICATION_LAG_def
  ISR_SIZE_def
  UNDER_REPLICATED_PARTITIONS_def
  SEGMENT_COUNT_def
  SEGMENTS_DELETED_def
  ACTIVE_CONNECTIONS_def
  REQUEST_RATE_def
  REQUEST_ERRORS_def
  register_counter_vec_def register_gauge_vec_def register_histogram_vec_def

section \<open>Registration and export\<close>

text \<open>
  A static registers its metric when it is used for the first time; \<open>reg\<close> is the registration of
  the library, whose error the source unwraps. The state is the list of statics that are
  initialised and the registry.
\<close>

definition use_metric ::
    "(metric \<Rightarrow> 'r \<Rightarrow> 'r outcome) \<Rightarrow> metric \<Rightarrow> metric list \<times> 'r \<Rightarrow> (metric list \<times> 'r) outcome" where
  "use_metric reg m s =
     (case s of (used, r) \<Rightarrow>
        if m \<in> set used then Ok s
        else (case reg m r of Ok r' \<Rightarrow> Ok (m # used, r') | _ \<Rightarrow> Panic))"

fun use_metrics ::
    "(metric \<Rightarrow> 'r \<Rightarrow> 'r outcome) \<Rightarrow> metric list \<Rightarrow> metric list \<times> 'r \<Rightarrow> (metric list \<times> 'r) outcome" where
  "use_metrics reg [] s = Ok s"
| "use_metrics reg (m # ms) s = and_then (use_metric reg m s) (use_metrics reg ms)"

text \<open>\<open>gather\<close>, \<open>encoder\<close> and \<open>from_utf8\<close> are those of the libraries; both results are unwrapped.\<close>

definition export_metrics ::
    "('r \<Rightarrow> 'f) \<Rightarrow> ('f \<Rightarrow> bytes outcome) \<Rightarrow> (bytes \<Rightarrow> string option) \<Rightarrow> 'r \<Rightarrow> string outcome" where
  "export_metrics gather encoder from_utf8 r =
     (case encoder (gather r) of
        Ok buffer \<Rightarrow> (case from_utf8 buffer of Some s \<Rightarrow> Ok s | None \<Rightarrow> Panic)
      | _ \<Rightarrow> Panic)"

section \<open>The rules of the registry\<close>

definition letter :: "char \<Rightarrow> bool" where
  "letter c \<longleftrightarrow> (let n = of_char c :: nat in (65 \<le> n \<and> n \<le> 90) \<or> (97 \<le> n \<and> n \<le> 122)) \<or> c = CHR ''_''"

definition digit :: "char \<Rightarrow> bool" where
  "digit c \<longleftrightarrow> (let n = of_char c :: nat in 48 \<le> n \<and> n \<le> 57)"

definition label_ok :: "string \<Rightarrow> bool" where
  "label_ok s \<longleftrightarrow> s \<noteq> [] \<and> letter (hd s) \<and> list_all (\<lambda>c. letter c \<or> digit c) s"

fun increasing :: "rat list \<Rightarrow> bool" where
  "increasing (x # y # ys) \<longleftrightarrow> x < y \<and> increasing (y # ys)"
| "increasing _ \<longleftrightarrow> True"

text \<open>
  What the library documents for names, help texts, labels and buckets; a name may have colons, of which
  the broker makes no use. The label \<open>le\<close> is reserved in histograms.
\<close>

definition metric_valid :: "metric \<Rightarrow> bool" where
  "metric_valid m \<longleftrightarrow>
     label_ok (mt_name m) \<and> mt_help m \<noteq> [] \<and> list_all label_ok (mt_labels m) \<and> distinct (mt_labels m) \<and>
     (case mt_kind m of HistogramVec bs \<Rightarrow> increasing bs \<and> bs \<noteq> [] \<and> ''le'' \<notin> set (mt_labels m) | _ \<Rightarrow> True)"

text \<open>The registry takes a valid metric under a name it does not have.\<close>

definition registry_ok :: "(metric \<Rightarrow> 'r \<Rightarrow> 'r outcome) \<Rightarrow> ('r \<Rightarrow> string set) \<Rightarrow> bool" where
  "registry_ok reg names \<longleftrightarrow>
     (\<forall>m r. metric_valid m \<longrightarrow> mt_name m \<notin> names r \<longrightarrow>
        (\<exists>r'. reg m r = Ok r' \<and> names r' = insert (mt_name m) (names r)))"

lemma metrics_valid: "list_all metric_valid metrics"
  by (simp add: metrics_def metric_defs metric_valid_def label_ok_def letter_def digit_def)

lemma metrics_names_distinct: "distinct (map mt_name metrics)"
  by (simp add: metrics_def metric_defs)

lemma metric_eqI:
  assumes "m \<in> set metrics" and "m' \<in> set metrics" and "mt_name m = mt_name m'"
  shows "m = m'"
  using metrics_names_distinct assms by (metis distinct_map inj_onD)

text \<open>The registry holds the names of the statics in use, beside others that are none of the broker's.\<close>

lemma use_metrics_registers:
  assumes reg: "registry_ok reg names" and "set ms \<subseteq> set metrics" and "set used \<subseteq> set metrics"
    and "names r = names0 \<union> mt_name ` set used" and "names0 \<inter> mt_name ` set metrics = {}"
    and "distinct used"
  shows "\<exists>used' r'. use_metrics reg ms (used, r) = Ok (used', r') \<and> set used' = set used \<union> set ms \<and>
           distinct used' \<and> names r' = names0 \<union> mt_name ` set used'"
  using assms(2-)
proof (induction ms arbitrary: used r)
  case (Cons m ms)
  show ?case
  proof (cases "m \<in> set used")
    case True
    then have "use_metrics reg (m # ms) (used, r) = use_metrics reg ms (used, r)" by (simp add: use_metric_def)
    moreover have "set used \<union> set (m # ms) = set used \<union> set ms" using True by auto
    ultimately show ?thesis using Cons.IH [of used r] Cons.prems by simp
  next
    case False
    have m: "m \<in> set metrics" using Cons.prems(1) by simp
    have "mt_name m \<notin> names r"
      using False m Cons.prems(2,3,4) metric_eqI [OF m] by (auto simp: image_iff)
    moreover have "metric_valid m" using metrics_valid m by (simp add: list_all_iff)
    ultimately obtain r' where r': "reg m r = Ok r'" "names r' = insert (mt_name m) (names r)"
      using reg unfolding registry_ok_def by blast
    then have "\<exists>used' r''. use_metrics reg ms (m # used, r') = Ok (used', r'') \<and>
        set used' = set (m # used) \<union> set ms \<and> distinct used' \<and> names r'' = names0 \<union> mt_name ` set used'"
      using Cons.prems m False by (intro Cons.IH) auto
    then show ?thesis using r'(1) False by (auto simp: use_metric_def)
  qed
qed simp

section \<open>No registration panics\<close>

text \<open>
  Whatever metrics are used, in whatever order and how often, none of their registrations panics, and
  afterwards the registry has exactly the names of the used ones beside what it had before,
  each registered once. The library is relied on to take a valid metric under a new name, and to start without
  names of the broker's metrics.
\<close>

theorem metrics_register:
  assumes "registry_ok reg names" and "set ms \<subseteq> set metrics" and "names r \<inter> mt_name ` set metrics = {}"
  shows "\<exists>used r'. use_metrics reg ms ([], r) = Ok (used, r') \<and> set used = set ms \<and> distinct used \<and>
           names r' = names r \<union> mt_name ` set ms"
  using use_metrics_registers [OF assms(1,2), of "[]" r "names r"] assms(3) by auto

text \<open>A registry that is a list of names, and keeps to its rules.\<close>

definition demo_register :: "metric \<Rightarrow> string list \<Rightarrow> string list outcome" where
  "demo_register m r =
     (if metric_valid m \<and> mt_name m \<notin> set r then Ok (mt_name m # r) else Err (Storage ''cannot register''))"

theorem metrics_register_witness:
  "\<exists>used r'. use_metrics demo_register (metrics @ metrics) ([], []) = Ok (used, r') \<and> set used = set metrics \<and>
     ''gaffa_consumer_lag'' \<in> set r'"
proof -
  have "registry_ok demo_register set" by (simp add: registry_ok_def demo_register_def)
  from metrics_register [OF this, of "metrics @ metrics" "[]"] obtain used r' where
    "use_metrics demo_register (metrics @ metrics) ([], []) = Ok (used, r')" "set used = set metrics"
    "set r' = mt_name ` set metrics"
    by auto
  moreover have "mt_name CONSUMER_LAG = ''gaffa_consumer_lag''" "CONSUMER_LAG \<in> set metrics"
    by (simp add: metric_defs) (simp add: metrics_def)
  ultimately show ?thesis by (metis image_eqI)
qed

end
