(* ===== verification/Example_Programs.thy ===== *)
theory Example_Programs
  imports Producer Consumer
begin

text \<open>
  \<open>examples/*.rs\<close>: the six example programs, as sequences of operations of the client library on an
  arbitrary connection. What a program prints of its data is kept in a list; headings and
  the pauses between the steps are left out. A loop without an end in the source is
  given a number of turns.
\<close>

section \<open>Programs\<close>

text \<open>A client beside its connection, and what the program has printed.\<close>

type_synonym ('c, 's, 'o) session = "('c \<times> 's) \<times> 'o list"
type_synonym ('c, 's, 'o, 'a) program = "('c, 's, 'o) session \<Rightarrow> ('c, 's, 'o) session \<times> 'a outcome"

definition within :: "('c \<times> 's \<Rightarrow> ('c \<times> 's) \<times> 'a outcome) \<Rightarrow> ('c, 's, 'o, 'a) program" where
  "within f = (\<lambda>(cs, out). let (cs', r) = f cs in ((cs', out), r))"

definition emit :: "'o \<Rightarrow> ('c, 's, 'o, unit) program" where
  "emit x = (\<lambda>(cs, out). ((cs, out @ [x]), Ok ()))"

fun for_each :: "('i \<Rightarrow> 'x \<Rightarrow> 'x \<times> unit outcome) \<Rightarrow> 'i list \<Rightarrow> 'x \<Rightarrow> 'x \<times> unit outcome" where
  "for_each f [] x = (x, Ok ())"
| "for_each f (i # is) x = run_then (f i) (\<lambda>_. for_each f is) x"

text \<open>The bytes of a text in ASCII; \<open>clock i\<close> is the time at which the \<open>i\<close>-th message is made.\<close>

definition text_bytes :: "string \<Rightarrow> bytes" where
  "text_bytes = map of_char"

lemma length_text_bytes [simp]: "length (text_bytes s) = length s"
  by (simp add: text_bytes_def)

lemma within_simps:
  "f cs = (cs', r) \<Longrightarrow> within f (cs, out) = ((cs', out), r)"
  by (simp add: within_def)

lemma emit_simps [simp]: "emit x (cs, out) = ((cs, out @ [x]), Ok ())"
  by (simp add: emit_def)

lemma for_each_emit: "for_each (\<lambda>x. emit (f x)) xs (cs, out) = ((cs, out @ map f xs), Ok ())"
  by (induction xs arbitrary: out) simp_all

section \<open>\<open>simple_producer.rs\<close>\<close>

definition simple_message :: "(nat \<Rightarrow> nat) \<Rightarrow> u32 \<Rightarrow> message" where
  "simple_message clock i =
     with_key (text_bytes (''key-'' @ show_word i))
       (message_new (clock (unat i)) (text_bytes (''Message '' @ show_word i)))"

text \<open>The lines of a sent message: its number, the partition and the offset.\<close>

definition simple_producer_step ::
    "(nat \<Rightarrow> nat) \<Rightarrow> 's connection \<Rightarrow> u32 \<Rightarrow> ('p producer, 's, u32 \<times> u32 \<times> u64, unit) program" where
  "simple_producer_step clock conn i =
     (let partition = i mod 3 in
      run_then (within (send conn ''events'' partition [simple_message clock i]))
        (\<lambda>base_offset. emit (i, partition, base_offset)))"

definition simple_producer ::
    "(nat \<Rightarrow> nat) \<Rightarrow> 's connection \<Rightarrow> string + 's \<Rightarrow>
     ((round_robin_partitioner producer, 's, u32 \<times> u32 \<times> u64) session \<times> unit outcome) outcome" where
  "simple_producer clock conn connected =
     and_then (producer_connect connected) (\<lambda>st. Ok (
       run_then (within (producer_create_topic conn ''events'' 3))
         (\<lambda>_. for_each (simple_producer_step clock conn) [1, 2, 3, 4, 5, 6, 7, 8, 9, 10]) (st, [])))"

section \<open>\<open>simple_consumer.rs\<close>\<close>

text \<open>A turn of the loop, whose variable is the offset; what it prints are the records.\<close>

definition simple_consumer_turn :: "'s connection \<Rightarrow> u64 \<Rightarrow> (consumer, 's, stored_record, u64) program" where
  "simple_consumer_turn conn off =
     run_then (within (consumer_fetch conn ''events'' 0 off 10)) (\<lambda>records.
       if records = [] then give (Ok off)
       else run_then (for_each emit records)
              (\<lambda>_. give (Ok (fold (\<lambda>record _. rec_offset record + 1) records off))))"

fun simple_consumer_loop :: "nat \<Rightarrow> 's connection \<Rightarrow> u64 \<Rightarrow> (consumer, 's, stored_record, u64) program" where
  "simple_consumer_loop 0 conn off x = (x, Ok off)"
| "simple_consumer_loop (Suc k) conn off x =
     run_then (simple_consumer_turn conn off) (simple_consumer_loop k conn) x"

definition simple_consumer ::
    "nat \<Rightarrow> 's connection \<Rightarrow> string + 's \<Rightarrow> ((consumer, 's, stored_record) session \<times> u64 outcome) outcome" where
  "simple_consumer turns conn connected =
     and_then (consumer_connect connected) (\<lambda>st. Ok (simple_consumer_loop turns conn 0 (st, [])))"

section \<open>\<open>partitioner_producer.rs\<close>\<close>

datatype partitioner_line =
    LoginSent nat string u64
  | TopicLine string nat
  | PartitionLine u32 u32

definition login_users :: "string list" where
  "login_users = [''user-123'', ''user-456'', ''user-789'', ''user-123'', ''user-456'']"

definition login_message :: "(nat \<Rightarrow> nat) \<Rightarrow> nat \<times> string \<Rightarrow> message" where
  "login_message clock iu =
     (case iu of (i, user) \<Rightarrow>
        with_key (text_bytes user)
          (message_new (clock i) (text_bytes (''Login event '' @ show_nat (i + 1) @ '' for '' @ user))))"

definition batch_message :: "(nat \<Rightarrow> nat) \<Rightarrow> nat \<Rightarrow> message" where
  "batch_message clock i =
     with_key (text_bytes (''batch-key-'' @ show_nat (i mod 3)))
       (message_new (clock (4 + i)) (text_bytes (''Batch message '' @ show_nat i)))"

definition login_step ::
    "((u32 \<times> message list) list \<Rightarrow> (u32 \<times> message list) list) \<Rightarrow> (bytes \<Rightarrow> u64) \<Rightarrow> (nat \<Rightarrow> nat) \<Rightarrow>
     's connection \<Rightarrow> nat \<times> string \<Rightarrow> (unit producer, 's, partitioner_line, unit) program" where
  "login_step bord H clock conn iu =
     run_then (within (send_auto bord (key_hash_partition H) conn ''user-events'' (login_message clock iu)))
       (\<lambda>off. emit (LoginSent (fst iu + 1) (snd iu) off))"

definition topic_lines :: "topic_metadata \<Rightarrow> (unit producer, 's, partitioner_line, unit) program" where
  "topic_lines t =
     run_then (emit (TopicLine (tm_name t) (length (tm_partitions t))))
       (\<lambda>_. for_each (\<lambda>p. emit (PartitionLine (pm_id p) (pm_leader p))) (tm_partitions t))"

definition partitioner_producer ::
    "((u32 \<times> message list) list \<Rightarrow> (u32 \<times> message list) list) \<Rightarrow> (bytes \<Rightarrow> u64) \<Rightarrow> (nat \<Rightarrow> nat) \<Rightarrow>
     's connection \<Rightarrow> string + 's \<Rightarrow> ((unit producer, 's, partitioner_line) session \<times> unit outcome) outcome" where
  "partitioner_producer bord H clock conn connected =
     and_then (connect_with_partitioner connected ()) (\<lambda>st. Ok (
       run_then (within (producer_create_topic conn ''user-events'' 5)) (\<lambda>_.
         run_then (for_each (login_step bord H clock conn) (enumerate 0 login_users)) (\<lambda>_.
           run_then (within (send_batch_auto bord (key_hash_partition H) conn ''user-events''
               (map (batch_message clock) [1, 2, 3, 4, 5, 6, 7, 8, 9, 10]))) (\<lambda>_.
             run_then (within (producer_get_metadata conn [''user-events''])) (\<lambda>metadata.
               for_each topic_lines metadata)))) (st, [])))"

section \<open>\<open>producer_for_groups.rs\<close>\<close>

definition event_message :: "(nat \<Rightarrow> nat) \<Rightarrow> nat \<Rightarrow> message" where
  "event_message clock i =
     (let user_id = ''user-'' @ show_nat (i mod 5) in
      with_key (text_bytes user_id)
        (message_new (clock (2 * i)) (text_bytes (''Event '' @ show_nat i @ '' for '' @ user_id))))"

definition log_message :: "(nat \<Rightarrow> nat) \<Rightarrow> nat \<Rightarrow> message" where
  "log_message clock i = message_new (clock (2 * i + 1)) (text_bytes (''Log message '' @ show_nat i))"

definition produce_pair :: "(nat \<Rightarrow> nat) \<Rightarrow> 's connection \<Rightarrow> nat \<Rightarrow> ('p producer, 's, nat, unit) program" where
  "produce_pair clock conn i =
     run_then (within (send conn ''events'' 0 [event_message clock i])) (\<lambda>_.
       run_then (within (send conn ''logs'' 0 [log_message clock i])) (\<lambda>_.
         if (i + 1) mod 10 = 0 then emit (i + 1) else give (Ok ())))"

definition producer_for_groups ::
    "(nat \<Rightarrow> nat) \<Rightarrow> 's connection \<Rightarrow> string + 's \<Rightarrow>
     ((round_robin_partitioner producer, 's, nat) session \<times> unit outcome) outcome" where
  "producer_for_groups clock conn connected =
     and_then (producer_connect connected) (\<lambda>st. Ok (
       run_then (within (producer_create_topic conn ''events'' 4)) (\<lambda>_.
         run_then (within (producer_create_topic conn ''logs'' 2)) (\<lambda>_.
           for_each (produce_pair clock conn) [0..<50])) (st, [])))"

section \<open>\<open>consumer_group.rs\<close>\<close>

text \<open>The loop, and whether it was left after an error of a poll.\<close>

fun consumer_group_loop ::
    "nat \<Rightarrow> offset_order \<Rightarrow> 's connection \<Rightarrow> (consumer, 's, stored_record, bool) program" where
  "consumer_group_loop 0 oord conn x = (x, Ok False)"
| "consumer_group_loop (Suc k) oord conn x =
     (case within (poll_group oord conn 10) x of
        (x', Ok records) \<Rightarrow> run_then (for_each emit records) (\<lambda>_. consumer_group_loop k oord conn) x'
      | (x', Err e) \<Rightarrow> (x', Ok True)
      | (x', Panic) \<Rightarrow> (x', Panic))"

definition consumer_group_program ::
    "nat \<Rightarrow> offset_order \<Rightarrow> 's connection \<Rightarrow> string + 's \<Rightarrow>
     ((consumer, 's, stored_record) session \<times> unit outcome) outcome" where
  "consumer_group_program turns oord conn connected =
     and_then (consumer_connect connected) (\<lambda>(c, s). Ok (
       run_then (within (consumer_join_group conn [''events'', ''logs''])) (\<lambda>_.
         run_then (consumer_group_loop turns oord conn) (\<lambda>broke.
           if broke then within (consumer_leave_group conn) else give (Ok ())))
         ((with_auto_commit (Some 5000) (with_group_id ''example-group'' c), s), [])))"

section \<open>\<open>subscription_consumer.rs\<close>\<close>

text \<open>The lines of a record: the record, and the position of its partition.\<close>

definition show_record :: "stored_record \<Rightarrow> (consumer, 's, stored_record \<times> u64, unit) program" where
  "show_record record =
     (\<lambda>((c, s), out). emit (record, case get_offset c (rec_topic record) (rec_partition record) of
        Some off \<Rightarrow> off | None \<Rightarrow> 0) ((c, s), out))"

text \<open>
  The loop with its counters, of messages and of polls without records. The first argument bounds
  the number of turns: \<open>None\<close> is a loop that is not over by then.
\<close>

fun subscription_loop ::
    "nat \<Rightarrow> subscription_order \<Rightarrow> 's connection \<Rightarrow> nat \<Rightarrow> nat \<Rightarrow> (consumer, 's, stored_record \<times> u64) session \<Rightarrow>
     ((consumer, 's, stored_record \<times> u64) session \<times> unit outcome) option" where
  "subscription_loop 0 sord conn message_count iterations x = None"
| "subscription_loop (Suc k) sord conn message_count iterations x =
     (case within (poll sord conn 10) x of
        (x', Ok records) \<Rightarrow>
          if records = [] then
            if iterations + 1 \<ge> 20 then Some (x', Ok ())
            else subscription_loop k sord conn message_count (iterations + 1) x'
          else if message_count + length records \<ge> 30 then Some (for_each show_record records x')
          else subscription_loop k sord conn (message_count + length records) iterations
                 (fst (for_each show_record records x'))
      | (x', Err e) \<Rightarrow> Some (x', Err e)
      | (x', Panic) \<Rightarrow> Some (x', Panic))"

definition subscription_consumer ::
    "nat \<Rightarrow> subscription_order \<Rightarrow> 's connection \<Rightarrow> string + 's \<Rightarrow>
     ((consumer, 's, stored_record \<times> u64) session \<times> unit outcome) option outcome" where
  "subscription_consumer turns sord conn connected =
     and_then (consumer_connect connected) (\<lambda>st. Ok (
       case within (subscribe conn [''user-events'', ''events'']) (st, []) of
         (x, Ok _) \<Rightarrow> subscription_loop turns sord conn 0 0 x
       | (x, Err e) \<Rightarrow> Some (x, Err e)
       | (x, Panic) \<Rightarrow> Some (x, Panic)))"

end
