(* ===== verification/Queue_Client.thy ===== *)
theory Queue_Client
  imports Queue_Refinement Broker_Link
begin

text \<open>
  The operations of the clients on a service that implements the queue: what a call of the client
  library returns and what it does to the topics and logs. The broker, reached over a connection,
  is such a service, so programs on the client library can be verified against the queue alone.
\<close>

section \<open>The queue after a call\<close>

definition queue_create :: "string \<Rightarrow> u32 \<Rightarrow> queue \<Rightarrow> queue" where
  "queue_create t n \<sigma> =
     \<sigma>\<lparr>qu_topics := (qu_topics \<sigma>)(t \<mapsto> n), qu_log := (\<lambda>(t', q). if t' = t then [] else qu_log \<sigma> (t', q))\<rparr>"

definition queue_append :: "string \<times> u32 \<times> message list \<Rightarrow> queue \<Rightarrow> queue" where
  "queue_append b \<sigma> =
     (case b of (t, q, ms) \<Rightarrow> \<sigma>\<lparr>qu_log := (qu_log \<sigma>)((t, q) := qu_log \<sigma> (t, q) @ ms)\<rparr>)"

lemma queue_create_simps [simp]:
  "qu_topics (queue_create t n \<sigma>) = (qu_topics \<sigma>)(t \<mapsto> n)"
  "qu_log (queue_create t n \<sigma>) (t', q) = (if t' = t then [] else qu_log \<sigma> (t', q))"
  by (simp_all add: queue_create_def)

lemma queue_append_simps [simp]:
  "qu_topics (queue_append b \<sigma>) = qu_topics \<sigma>"
  "qu_log (queue_append (t, q, ms) \<sigma>) (t', q') = qu_log \<sigma> (t', q') @ (if (t', q') = (t, q) then ms else [])"
  by (auto simp: queue_append_def split: prod.split)

text \<open>The batches of a sequence that went to a partition, one behind the other.\<close>

definition sent_to :: "string \<Rightarrow> u32 \<Rightarrow> (string \<times> u32 \<times> message list) list \<Rightarrow> message list" where
  "sent_to t q bs = concat (map (\<lambda>(t', q', ms). if (t', q') = (t, q) then ms else []) bs)"

lemma sent_to_simps [simp]:
  "sent_to t q [] = []"
  "sent_to t q ((t', q', ms) # bs) = (if (t', q') = (t, q) then ms else []) @ sent_to t q bs"
  "sent_to t q (bs @ bs') = sent_to t q bs @ sent_to t q bs'"
  by (simp_all add: sent_to_def)

lemma queue_fold_append [simp]:
  "qu_topics (fold queue_append bs \<sigma>) = qu_topics \<sigma>"
  "qu_log (fold queue_append bs \<sigma>) (t, q) = qu_log \<sigma> (t, q) @ sent_to t q bs"
proof (induction bs arbitrary: \<sigma>)
  case (Cons b bs)
  case 1 show ?case using Cons.IH(1) by simp
  case 2 show ?case using Cons.IH(2) by (cases b) auto
qed simp_all

text \<open>A message of at most a kilobyte, and the room for a few of them.\<close>

definition light_message :: "message \<Rightarrow> bool" where
  "light_message m \<longleftrightarrow> key_size (msg_key m) + length (msg_value m) \<le> 1000"

lemma light_admits:
  assumes "list_all light_message (qu_log \<sigma> (t, q) @ ms)" and "length (qu_log \<sigma> (t, q) @ ms) < 2 ^ 32"
  shows "queue_admits \<sigma> (Produce t q ms)"
proof -
  have "light_message \<le> small_message" by (auto simp: light_message_def small_message_def)
  then have small: "list_all small_message ms"
    using assms(1) list.pred_mono [of light_message small_message] by auto
  have "batch_bytes xs \<le> 1033 * length xs" if "list_all light_message xs" for xs
    using that by (induction xs) (auto simp: batch_bytes_def light_message_def)
  from this [OF assms(1)] have "batch_bytes (qu_log \<sigma> (t, q) @ ms) < 2 ^ 64"
    using assms(2) by simp
  then show ?thesis using small assms(2) by simp
qed

text \<open>What a consumer finds when it fetches: a slice of the history of some messages, wherever it starts.\<close>

definition shows_log :: "'s connection \<Rightarrow> 's \<Rightarrow> string \<Rightarrow> u32 \<Rightarrow> message list \<Rightarrow> bool" where
  "shows_log conn s t q ms \<longleftrightarrow>
     (\<forall>c off k. \<exists>s'. consumer_fetch conn t q off k (c, s) =
        ((c, s'), Ok (take (unat k) (drop (unat off) (history t q ms)))))"

section \<open>A service that implements the queue\<close>

locale queue_service =
  fixes conn :: "'s connection"
    and rel :: "'s \<Rightarrow> queue \<Rightarrow> bool"
    and env :: "'s \<Rightarrow> environment"
  assumes serve_law:
    "rel s \<sigma> \<Longrightarrow> queue_admits \<sigma> req \<Longrightarrow>
       \<exists>s' resp. conn req s = (s', Received resp) \<and> queue_answers (env s) \<sigma> req resp \<and>
         rel s' (queue_next (env s) req \<sigma>)"
    and bound_law: "rel s \<sigma> \<Longrightarrow> queue_find \<sigma> t q = Ok ms \<Longrightarrow> length ms < 2 ^ 64"
begin

lemma ask_served:
  assumes "rel s \<sigma>" and "queue_admits \<sigma> req"
  obtains s' resp where "ask conn req (c, s) = ((c, s'), Ok resp)" and "queue_answers (env s) \<sigma> req resp"
    and "rel s' (queue_next (env s) req \<sigma>)"
  using serve_law [OF assms] ask_received [where conn = conn] by metis

text \<open>Subscribing to a topic asks for its metadata, and adds all its partitions, from their first offset on.\<close>

lemma metadata_of_topic:
  assumes "rel s \<sigma>"
  obtains s' where "get_topic_metadata conn t (c, s) =
      ((c, s'), case qu_topics \<sigma> t of Some n \<Rightarrow> Ok (topic_metadata_new t n) | None \<Rightarrow> Err (TopicNotFound t))"
    and "rel s' \<sigma>"
proof -
  obtain s' resp where r: "ask conn (GetMetadata [t]) (c, s) = ((c, s'), Ok resp)"
      "queue_answers (env s) \<sigma> (GetMetadata [t]) resp" "rel s' (queue_next (env s) (GetMetadata [t]) \<sigma>)"
    by (rule ask_served [OF assms, of "GetMetadata [t]" c]) simp_all
  then show thesis
    by (intro that [of s'])
      (simp_all add: get_topic_metadata_def queue_metadata_def map_filter_simps split: option.split)
qed

lemma subscribe_topic:
  assumes "rel s \<sigma>" and "qu_topics \<sigma> t = Some n"
  obtains s' where "subscribe conn (t # ts) (c, s) =
      subscribe conn ts (c\<lparr>cs_subscriptions := hm_insert t (u32_range n) (cs_subscriptions c),
        cs_offsets := fold (\<lambda>p. hm_insert (t, p) 0) (u32_range n) (cs_offsets c)\<rparr>, s')"
    and "rel s' \<sigma>"
proof -
  obtain s' where "get_topic_metadata conn t (c, s) = ((c, s'), Ok (topic_metadata_new t n))" "rel s' \<sigma>"
    using metadata_of_topic [OF assms(1), of t c] assms(2) by auto
  then show thesis by (intro that [of s']) (simp_all add: topic_metadata_new_def Let_def)
qed

lemma subscribe_missing:
  assumes "rel s \<sigma>" and "qu_topics \<sigma> t = None"
  obtains s' where "subscribe conn (t # ts) (c, s) = ((c, s'), Err (TopicNotFound t))" and "rel s' \<sigma>"
proof -
  obtain s' where "get_topic_metadata conn t (c, s) = ((c, s'), Err (TopicNotFound t))" "rel s' \<sigma>"
    using metadata_of_topic [OF assms(1), of t c] assms(2) by auto
  then show thesis by (intro that [of s']) simp_all
qed

lemma create_new:
  assumes "rel s \<sigma>" and "qu_topics \<sigma> t = None"
  obtains s' where "producer_create_topic conn t n (pr, s) = ((pr, s'), Ok ())" and "rel s' (queue_create t n \<sigma>)"
proof -
  obtain s' resp where r: "ask conn (CreateTopic t n) (pr, s) = ((pr, s'), Ok resp)"
      "queue_answers (env s) \<sigma> (CreateTopic t n) resp" "rel s' (queue_next (env s) (CreateTopic t n) \<sigma>)"
    by (rule ask_served [OF assms(1), of "CreateTopic t n" pr]) simp_all
  then show thesis
    using assms(2) by (intro that [of s']) (simp_all add: producer_create_topic_def queue_create_def)
qed

lemma create_existing:
  assumes "rel s \<sigma>" and "qu_topics \<sigma> t = Some n'"
  obtains s' where "producer_create_topic conn t n (pr, s) = ((pr, s'), Err (Protocol (error_to_string
        (InvalidMessage (''Topic '' @ [CHR 0x27] @ t @ [CHR 0x27] @ '' already exists'')))))"
    and "rel s' \<sigma>"
proof -
  obtain s' resp where r: "ask conn (CreateTopic t n) (pr, s) = ((pr, s'), Ok resp)"
      "queue_answers (env s) \<sigma> (CreateTopic t n) resp" "rel s' (queue_next (env s) (CreateTopic t n) \<sigma>)"
    by (rule ask_served [OF assms(1), of "CreateTopic t n" pr]) simp_all
  then show thesis
    using assms(2) by (intro that [of s']) (simp_all add: producer_create_topic_def)
qed

lemma send_appends:
  assumes "rel s \<sigma>" and "qu_topics \<sigma> t = Some n" and "q < n" and "ms \<noteq> []"
    and "list_all light_message (qu_log \<sigma> (t, q) @ ms)" and "length (qu_log \<sigma> (t, q) @ ms) < 2 ^ 32"
  obtains s' where "send conn t q ms (pr, s) = ((pr, s'), Ok (of_nat (length (qu_log \<sigma> (t, q)))))"
    and "rel s' (queue_append (t, q, ms) \<sigma>)"
proof -
  obtain s' resp where r: "ask conn (Produce t q ms) (pr, s) = ((pr, s'), Ok resp)"
      "queue_answers (env s) \<sigma> (Produce t q ms) resp" "rel s' (queue_next (env s) (Produce t q ms) \<sigma>)"
    by (rule ask_served [OF assms(1) light_admits [OF assms(5,6)], of pr])
  have "queue_find \<sigma> t q = Ok (qu_log \<sigma> (t, q))" using assms(2,3) by (simp add: queue_find_def)
  then show thesis
    using r assms(4) by (intro that [of s']) (simp_all add: send_def queue_append_def)
qed

lemma fetch_reads:
  assumes "rel s \<sigma>" and "qu_topics \<sigma> t = Some n" and "q < n"
  obtains s' where "consumer_fetch conn t q off k (c, s) =
      ((c, s'), Ok (take (unat k) (drop (unat off) (history t q (qu_log \<sigma> (t, q))))))"
    and "rel s' \<sigma>"
proof -
  obtain s' resp where r: "ask conn (Fetch t q off k) (c, s) = ((c, s'), Ok resp)"
      "queue_answers (env s) \<sigma> (Fetch t q off k) resp" "rel s' (queue_next (env s) (Fetch t q off k) \<sigma>)"
    by (rule ask_served [OF assms(1), of "Fetch t q off k" c]) simp_all
  then show thesis
    using assms(2,3) by (intro that [of s']) (simp_all add: consumer_fetch_def queue_slice_def queue_find_def)
qed

lemma rel_shows_log:
  assumes "rel s \<sigma>" and "qu_topics \<sigma> t = Some n" and "q < n"
  shows "shows_log conn s t q (qu_log \<sigma> (t, q))"
  unfolding shows_log_def
proof (intro allI)
  fix c off k
  show "\<exists>s'. consumer_fetch conn t q off k (c, s) =
      ((c, s'), Ok (take (unat k) (drop (unat off) (history t q (qu_log \<sigma> (t, q))))))"
    by (rule fetch_reads [OF assms, of off k c]) blast
qed

end

section \<open>Batches that a partitioner spreads\<close>

text \<open>The batches of a map of batches, sent to the partitions of a topic.\<close>

definition addressed :: "string \<Rightarrow> batches \<Rightarrow> (string \<times> u32 \<times> message list) list" where
  "addressed t bs = map (\<lambda>(q, b). (t, q, b)) bs"

lemma sent_to_addressed:
  assumes "hm_ok bs"
  shows "sent_to t' q (addressed t bs) = (if t' = t then batch_of bs q else [])"
  using assms
proof (induction bs)
  case (Cons x bs)
  obtain q' b where x: "x = (q', b)" by (cases x)
  have "hm_ok bs" "hm_get bs q' = None"
    using Cons.prems x by (auto simp: hm_ok_def map_of_eq_None_iff image_iff)
  then show ?case using Cons.IH x by (auto simp: addressed_def batch_of_def)
qed (simp add: addressed_def batch_of_def)

context queue_service
begin

lemma refresh_caches:
  assumes "rel s \<sigma>" and "qu_topics \<sigma> t = Some n"
  obtains s' where "refresh_metadata conn t (pr, s) =
      ((pr\<lparr>pr_metadata_cache := hm_insert t n (pr_metadata_cache pr)\<rparr>, s'), Ok ())" and "rel s' \<sigma>"
proof -
  obtain s' resp where r: "ask conn (GetPartitions t) (pr, s) = ((pr, s'), Ok resp)"
      "queue_answers (env s) \<sigma> (GetPartitions t) resp" "rel s' (queue_next (env s) (GetPartitions t) \<sigma>)"
    by (rule ask_served [OF assms(1), of "GetPartitions t" pr]) simp_all
  then show thesis
    using assms(2) by (intro that [of s']) (simp_all add: refresh_metadata_def)
qed

lemma send_loop_appends:
  assumes "rel s \<sigma>" and "qu_topics \<sigma> t = Some n" and "hm_ok bs"
    and "\<forall>(q, b) \<in> set bs. q < n \<and> b \<noteq> [] \<and> list_all light_message (qu_log \<sigma> (t, q) @ b) \<and>
           length (qu_log \<sigma> (t, q) @ b) < 2 ^ 32"
  shows "\<exists>s' base'. send_loop conn t bs base (pr, s) = ((pr, s'), Ok base') \<and>
           rel s' (fold queue_append (addressed t bs) \<sigma>) \<and>
           (\<forall>q b. bs = [(q, b)] \<longrightarrow> base = 0 \<longrightarrow> base' = of_nat (length (qu_log \<sigma> (t, q))))"
  using assms
proof (induction bs arbitrary: s \<sigma> base)
  case (Cons x bs)
  obtain q b where x: "x = (q, b)" by (cases x)
  let ?\<sigma> = "queue_append (t, q, b) \<sigma>" and ?off = "of_nat (length (qu_log \<sigma> (t, q))) :: u64"
  have here: "q < n" "b \<noteq> []" "list_all light_message (qu_log \<sigma> (t, q) @ b)" "length (qu_log \<sigma> (t, q) @ b) < 2 ^ 32"
    using Cons.prems(4) x by auto
  obtain s1 where 1: "send conn t q b (pr, s) = ((pr, s1), Ok ?off)" "rel s1 ?\<sigma>"
    by (rule send_appends [OF Cons.prems(1,2) here])
  have bs: "hm_ok bs" "q \<notin> fst ` set bs" using Cons.prems(3) x by (auto simp: hm_ok_def)
  have rest: "\<forall>(q', b') \<in> set bs. q' < n \<and> b' \<noteq> [] \<and> list_all light_message (qu_log ?\<sigma> (t, q') @ b') \<and>
      length (qu_log ?\<sigma> (t, q') @ b') < 2 ^ 32"
  proof (clarify)
    fix q' b'
    assume qb: "(q', b') \<in> set bs"
    then have "q' \<noteq> q" using bs(2) by force
    then show "q' < n \<and> b' \<noteq> [] \<and> list_all light_message (qu_log ?\<sigma> (t, q') @ b') \<and>
        length (qu_log ?\<sigma> (t, q') @ b') < 2 ^ 32"
      using Cons.prems(4) qb by auto
  qed
  obtain s' base' where "send_loop conn t bs (if base = 0 then ?off else base) (pr, s1) = ((pr, s'), Ok base')"
      "rel s' (fold queue_append (addressed t bs) ?\<sigma>)"
    using Cons.IH [OF 1(2) _ bs(1) rest, of "if base = 0 then ?off else base"] Cons.prems(2) by auto
  then show ?case using 1(1) x by (intro exI [of _ s'] exI [of _ base']) (auto simp: addressed_def)
qed (simp add: addressed_def)

lemma send_batch_auto_appends:
  assumes "rel s \<sigma>" and "qu_topics \<sigma> t = Some n"
    and "hm_get (pr_metadata_cache pr) t = None \<or> hm_get (pr_metadata_cache pr) t = Some n" and "is_order bord"
    and "route_all route n (pr_partitioner pr) (map msg_key ms) = (part', map Ok qs)" and "length qs = length ms"
    and "\<forall>q \<in> set qs. q < n"
    and "\<forall>q. list_all light_message (qu_log \<sigma> (t, q) @ ms) \<and> length (qu_log \<sigma> (t, q) @ ms) < 2 ^ 32"
  shows "\<exists>pr' s' base \<sigma>'. send_batch_auto bord route conn t ms (pr, s) = ((pr', s'), Ok base) \<and>
           pr_partitioner pr' = part' \<and> hm_get (pr_metadata_cache pr') t = Some n \<and> rel s' \<sigma>' \<and>
           qu_topics \<sigma>' = qu_topics \<sigma> \<and>
           (\<forall>t' q. qu_log \<sigma>' (t', q) = qu_log \<sigma> (t', q) @ (if t' = t then routed_to ms (map Ok qs) q else [])) \<and>
           (\<forall>q. qs = [q] \<longrightarrow> base = of_nat (length (qu_log \<sigma> (t, q))))"
proof -
  obtain pr1 s1 where cached: "(if hm_get (pr_metadata_cache pr) t \<noteq> None then ((pr, s), Ok ())
        else refresh_metadata conn t (pr, s)) = ((pr1, s1), Ok ())" "rel s1 \<sigma>"
      "hm_get (pr_metadata_cache pr1) t = Some n" "pr_partitioner pr1 = pr_partitioner pr"
  proof (cases "hm_get (pr_metadata_cache pr) t = None")
    case True
    show thesis
      by (rule refresh_caches [OF assms(1,2), of pr])
        (use True in \<open>auto intro!: that simp: hashmap_simps\<close>)
  next
    case False
    then show thesis using assms(1,3) that [of pr s] by auto
  qed
  obtain bs where bs: "group_loop route n ms [] (pr_partitioner pr) = (part', Ok bs)" "hm_ok bs"
      "\<forall>q. hm_get bs q \<noteq> Some []" "\<forall>q. batch_of bs q = routed_to ms (map Ok qs) q"
    using group_loop_batches [OF assms(5,6), of "[]"] by (auto simp: batch_of_def)
  note bs' = hm_permuted [OF order_mset [OF assms(4)] bs(2)]
  have batch: "b = routed_to ms (map Ok qs) q" "b \<noteq> []" if "(q, b) \<in> set (bord bs)" for q b
  proof -
    have "hm_get bs q = Some b" using that hm_get_eq_Some [OF bs'(1)] bs'(2) by metis
    then show "b = routed_to ms (map Ok qs) q" "b \<noteq> []"
      using bs(3,4) [rule_format, of q] by (auto simp: batch_of_def)
  qed
  have ready: "\<forall>(q, b) \<in> set (bord bs). q < n \<and> b \<noteq> [] \<and> list_all light_message (qu_log \<sigma> (t, q) @ b) \<and>
      length (qu_log \<sigma> (t, q) @ b) < 2 ^ 32"
  proof (clarify)
    fix q b
    assume qb: "(q, b) \<in> set (bord bs)"
    obtain m where "m \<in> set b" using batch(2) [OF qb] by (cases b) auto
    then have "Ok q \<in> set (map Ok qs)"
      unfolding batch(1) [OF qb] routed_to_def by (auto dest: set_zip_rightD)
    then have "q < n" using assms(7) by auto
    moreover have sub: "set b \<subseteq> set ms" "length b \<le> length ms"
      unfolding batch(1) [OF qb] routed_to_def
      by (auto dest: set_zip_leftD intro: order_trans [OF length_filter_le])
    moreover have "list_all light_message (qu_log \<sigma> (t, q) @ b)"
      using assms(8) [rule_format, of q] sub(1) by (auto simp: list_all_iff)
    moreover have "length (qu_log \<sigma> (t, q) @ b) < 2 ^ 32"
      using assms(8) [rule_format, of q] sub(2) by simp
    ultimately show "q < n \<and> b \<noteq> [] \<and> list_all light_message (qu_log \<sigma> (t, q) @ b) \<and>
        length (qu_log \<sigma> (t, q) @ b) < 2 ^ 32"
      using batch(2) [OF qb] by blast
  qed
  let ?pr = "pr1\<lparr>pr_partitioner := part'\<rparr>" and ?\<sigma> = "fold queue_append (addressed t (bord bs)) \<sigma>"
  obtain s2 base where 2: "send_loop conn t (bord bs) 0 (?pr, s1) = ((?pr, s2), Ok base)" "rel s2 ?\<sigma>"
      "\<forall>q b. bord bs = [(q, b)] \<longrightarrow> (0 :: u64) = 0 \<longrightarrow> base = of_nat (length (qu_log \<sigma> (t, q)))"
    using send_loop_appends [OF cached(2) assms(2) bs'(1) ready, of 0 ?pr] by blast
  have "send_batch_auto bord route conn t ms (pr, s) = ((?pr, s2), Ok base)"
    unfolding send_batch_auto_def run_then_def split_conv cached(1)
    using cached(3,4) bs(1) 2(1) by simp
  moreover have "qu_log ?\<sigma> (t', q) = qu_log \<sigma> (t', q) @ (if t' = t then routed_to ms (map Ok qs) q else [])" for t' q
    using sent_to_addressed [OF bs'(1)] bs(4) bs'(2) by (simp add: batch_of_def)
  moreover have "base = of_nat (length (qu_log \<sigma> (t, q)))" if q: "qs = [q]" for q
  proof -
    have "length ms = Suc 0" using q assms(6) by simp
    then obtain m where m: "ms = [m]" by (auto simp: length_Suc_conv)
    obtain part1 where "route (pr_partitioner pr) (msg_key m) n = (part1, Ok q)"
      using assms(5) q m by (auto split: prod.splits)
    then have "bs = [(q, [m])]" using bs(1) m by (auto split: prod.splits)
    then have "bord bs = [(q, [m])]" using order_mset [OF assms(4), of bs] by simp
    then show ?thesis using 2(3) by blast
  qed
  ultimately show ?thesis
    using 2(2) cached(3) by (intro exI [of _ ?pr] exI [of _ s2] exI [of _ base] exI [of _ ?\<sigma>]) simp
qed

end

text \<open>What a reader sees of such a service: the logs of the queue, with the place of every message.\<close>

definition service_holds :: "('s \<Rightarrow> queue \<Rightarrow> bool) \<Rightarrow> 's \<Rightarrow> string \<Rightarrow> u32 \<Rightarrow> stored_record list \<Rightarrow> bool" where
  "service_holds rel s t p recs \<longleftrightarrow>
     (\<exists>\<sigma> ms. rel s \<sigma> \<and> queue_find \<sigma> t p = Ok ms \<and> recs = history t p ms)"

sublocale queue_service \<subseteq> reader: log_reader conn "service_holds rel"
proof
  fix s t p recs off n i
  show "\<exists>s'. conn (Fetch t p off n) s = (s', Received (FetchSuccess t p (take (unat n) (drop (unat off) recs)))) \<and>
      (\<forall>t' p' recs'. service_holds rel s t' p' recs' \<longrightarrow> service_holds rel s' t' p' recs')"
    if holds: "service_holds rel s t p recs"
  proof -
    obtain \<sigma> ms where ms: "rel s \<sigma>" "queue_find \<sigma> t p = Ok ms" "recs = history t p ms"
      using holds by (auto simp: service_holds_def)
    obtain s' resp where s': "conn (Fetch t p off n) s = (s', Received resp)"
        "queue_answers (env s) \<sigma> (Fetch t p off n) resp"
      using serve_law [OF ms(1), of "Fetch t p off n"] by auto
    have "rel s' \<sigma>'" if "rel s \<sigma>'" for \<sigma>'
      using serve_law [OF that, of "Fetch t p off n"] s'(1) by auto
    then show ?thesis using s' ms(2,3) by (auto simp: queue_slice_def service_holds_def)
  qed
  show "rec_offset (recs ! i) = of_nat i" if "service_holds rel s t p recs" and "i < length recs"
    using that by (auto simp: service_holds_def nth_enumerate_eq)
  show "length recs < 2 ^ 64" if "service_holds rel s t p recs"
    using that bound_law by (auto simp: service_holds_def)
qed

section \<open>The broker\<close>

definition link_rel :: "codecs \<Rightarrow> (nat \<Rightarrow> environment) \<Rightarrow> nat \<times> broker \<Rightarrow> queue \<Rightarrow> bool" where
  "link_rel C es st \<sigma> \<longleftrightarrow> (\<forall>i. env_ok (es i)) \<and> queue_rel C (snd st) \<sigma>"

lemma queue_rel_length:
  assumes "queue_rel C b \<sigma>" and "queue_find \<sigma> t q = Ok ms"
  shows "length ms < 2 ^ 64"
proof -
  obtain p where "queue_log C p t q ms" by (rule topics_rel_found [OF queue_relD(1) [OF assms(1)] assms(2)])
  then obtain rss where "part_rep C p rss" "map to_message (concat rss) = ms" by (rule queue_logE)
  then show ?thesis by (auto simp: part_rep_def)
qed

interpretation queued: queue_service "broker_link C es" "link_rel C es" "\<lambda>st. es (fst st)" for C es
proof
  fix st \<sigma> req t q ms
  show "length ms < 2 ^ 64" if "link_rel C es st \<sigma>" "queue_find \<sigma> t q = Ok ms"
    using that queue_rel_length unfolding link_rel_def by blast
next
  fix st \<sigma> req
  assume rel: "link_rel C es st \<sigma>" and room: "queue_admits \<sigma> req"
  have "serves C (es (fst st)) req (snd st) \<sigma>"
    using rel room by (intro request_serves) (simp_all add: link_rel_def)
  then show "\<exists>st' resp. broker_link C es req st = (st', Received resp) \<and>
      queue_answers (es (fst st)) \<sigma> req resp \<and> link_rel C es st' (queue_next (es (fst st)) req \<sigma>)"
    using rel by (cases st) (auto simp: serves_def link_rel_def broker_link_def)
qed

end
