(* ===== verification/Example_Properties.thy ===== *)
theory Example_Properties
  imports Example_Programs Queue_Client Queue_Properties Client_Properties
begin

text \<open>
  The example programs on the broker: what they print and what they leave in its logs, for a broker
  that started on an empty directory, and the end of the one loop that is meant to end.
\<close>

section \<open>Small messages\<close>

lemma length_show_nat:
  assumes "n < 10 ^ k" and "0 < k"
  shows "length (show_nat n) \<le> k"
  using assms
proof (induction n arbitrary: k rule: show_nat.induct)
  case (1 n)
  show ?case
  proof (cases "n < 10")
    case False
    then obtain j where k: "k = Suc j" "0 < j" using "1.prems" by (cases k; cases "k - 1") auto
    then have "n div 10 < 10 ^ j" using "1.prems"(1) by (simp add: less_mult_imp_div_less mult.commute)
    then show ?thesis using "1.IH" [OF False _ k(2)] k False by (simp add: show_nat.simps [of n])
  qed (use "1.prems" in \<open>simp add: show_nat.simps [of n]\<close>)
qed

lemma simple_message_light: "light_message (simple_message clock i)"
proof -
  have "unat i < 10 ^ 10" using unat_u32_less [of i] by simp
  from length_show_nat [OF this] have "length (show_word i) \<le> 10" by (simp add: show_word_def)
  then show ?thesis
    by (simp add: light_message_def simple_message_def with_key_def message_new_def)
qed

section \<open>The simple producer and consumer\<close>

text \<open>The lines of the producer, from the lengths of the logs.\<close>

fun simple_lines :: "(u32 \<Rightarrow> nat) \<Rightarrow> u32 list \<Rightarrow> (u32 \<times> u32 \<times> u64) list" where
  "simple_lines len [] = []"
| "simple_lines len (i # is) =
     (i, i mod 3, of_nat (len (i mod 3))) # simple_lines (len(i mod 3 := Suc (len (i mod 3)))) is"

text \<open>What the program sends.\<close>

definition simple_batches :: "(nat \<Rightarrow> nat) \<Rightarrow> (string \<times> u32 \<times> message list) list" where
  "simple_batches clock = map (\<lambda>i. (''events'', i mod 3, [simple_message clock i])) [1, 2, 3, 4, 5, 6, 7, 8, 9, 10]"

context queue_service
begin

lemma simple_producer_sends:
  assumes "rel s \<sigma>" and "qu_topics \<sigma> ''events'' = Some 3"
    and "\<forall>q. list_all light_message (qu_log \<sigma> (''events'', q))"
    and "\<forall>q. length (qu_log \<sigma> (''events'', q)) + length ks < 2 ^ 32"
    and "len = (\<lambda>q. length (qu_log \<sigma> (''events'', q)))"
  shows "\<exists>s'. for_each (simple_producer_step clock conn) ks ((pr, s), out) =
             (((pr, s'), out @ simple_lines len ks), Ok ()) \<and>
           rel s' (fold queue_append (map (\<lambda>i. (''events'', i mod 3, [simple_message clock i])) ks) \<sigma>)"
  using assms
proof (induction ks arbitrary: s \<sigma> out len)
  case (Cons i ks)
  let ?q = "i mod 3" and ?m = "simple_message clock i"
  let ?\<sigma> = "queue_append (''events'', ?q, [?m]) \<sigma>"
  have q: "?q < 3" by (rule u32_mod_less) simp
  have light: "list_all light_message (qu_log \<sigma> (''events'', ?q) @ [?m])"
    using Cons.prems(3) simple_message_light by simp
  have room: "length (qu_log \<sigma> (''events'', ?q) @ [?m]) < 2 ^ 32"
    using Cons.prems(4) [rule_format, of ?q] by simp
  obtain s1 where s1: "send conn ''events'' ?q [?m] (pr, s) = ((pr, s1), Ok (of_nat (len ?q)))" "rel s1 ?\<sigma>"
    using send_appends [OF Cons.prems(1,2) q _ light room, of pr] Cons.prems(5) by auto
  have logs: "\<forall>q. list_all light_message (qu_log ?\<sigma> (''events'', q))"
    using Cons.prems(3) simple_message_light by auto
  have rest: "\<forall>q. length (qu_log ?\<sigma> (''events'', q)) + length ks < 2 ^ 32"
  proof
    fix q
    show "length (qu_log ?\<sigma> (''events'', q)) + length ks < 2 ^ 32"
      using Cons.prems(4) [rule_format, of q] by (cases "q = ?q") simp_all
  qed
  define len' where "len' = len(?q := Suc (len ?q))"
  have "len' = (\<lambda>q. length (qu_log ?\<sigma> (''events'', q)))"
    using Cons.prems(5) by (auto simp: len'_def)
  from Cons.IH [OF s1(2) _ logs rest this, of "out @ [(i, ?q, of_nat (len ?q))]"] Cons.prems(2)
  obtain s2 where "for_each (simple_producer_step clock conn) ks ((pr, s1), out @ [(i, ?q, of_nat (len ?q))]) =
        (((pr, s2), (out @ [(i, ?q, of_nat (len ?q))]) @ simple_lines len' ks), Ok ())"
      "rel s2 (fold queue_append (map (\<lambda>i. (''events'', i mod 3, [simple_message clock i])) ks) ?\<sigma>)"
    by auto
  moreover have "simple_producer_step clock conn i ((pr, s), out) =
      (((pr, s1), out @ [(i, ?q, of_nat (len ?q))]), Ok ())"
    using s1(1) by (simp add: simple_producer_step_def Let_def within_simps)
  ultimately show ?case by (intro exI [of _ s2]) (simp add: len'_def)
qed simp

text \<open>The program on a queue without the topic.\<close>

lemma simple_producer_runs:
  assumes "rel s \<sigma>" and "qu_topics \<sigma> ''events'' = None"
  shows "\<exists>pr s'. simple_producer clock conn (Inr s) =
      Ok (((pr, s'), [(1, 1, 0), (2, 2, 0), (3, 0, 0), (4, 1, 1), (5, 2, 1), (6, 0, 1), (7, 1, 2), (8, 2, 2),
        (9, 0, 2), (10, 1, 3)]), Ok ()) \<and>
      rel s' (fold queue_append (simple_batches clock) (queue_create ''events'' 3 \<sigma>))"
proof -
  let ?pr = "\<lparr>pr_partitioner = round_robin_new, pr_metadata_cache = []\<rparr>"
  obtain s1 where s1: "producer_create_topic conn ''events'' 3 (?pr, s) = ((?pr, s1), Ok ())"
      "rel s1 (queue_create ''events'' 3 \<sigma>)"
    by (rule create_new [OF assms])
  have "simple_lines (\<lambda>q. 0) [1, 2, 3, 4, 5, 6, 7, 8, 9, 10] = [(1, 1, 0), (2, 2, 0), (3, 0, 0), (4, 1, 1),
      (5, 2, 1), (6, 0, 1), (7, 1, 2), (8, 2, 2), (9, 0, 2), (10, 1, 3)]"
    by simp
  with simple_producer_sends [OF s1(2) _ _ _ refl, of "[1, 2, 3, 4, 5, 6, 7, 8, 9, 10]" clock ?pr "[]"]
  obtain s2 where "for_each (simple_producer_step clock conn) [1, 2, 3, 4, 5, 6, 7, 8, 9, 10] ((?pr, s1), []) =
        (((?pr, s2), [(1, 1, 0), (2, 2, 0), (3, 0, 0), (4, 1, 1), (5, 2, 1), (6, 0, 1), (7, 1, 2), (8, 2, 2),
          (9, 0, 2), (10, 1, 3)]), Ok ())"
      "rel s2 (fold queue_append (simple_batches clock) (queue_create ''events'' 3 \<sigma>))"
    unfolding simple_batches_def by auto
  then show ?thesis
    using s1(1) by (intro exI [of _ ?pr] exI [of _ s2])
      (simp add: simple_producer_def producer_connect_def connect_with_partitioner_def within_simps)
qed

end
lemma fold_last: "fold (\<lambda>record _. rec_offset record + 1) rs off = (if rs = [] then off else rec_offset (last rs) + 1)"
  by (induction rs rule: rev_induct) simp_all

context log_reader
begin

text \<open>A turn fetches ten records from the offset on and moves the offset behind them.\<close>

lemma simple_consumer_turn_reads:
  assumes "holds s ''events'' 0 recs" and "unat off \<le> length recs"
  shows "\<exists>s' off'. simple_consumer_turn conn off ((c, s), out) =
             (((c, s'), out @ take 10 (drop (unat off) recs)), Ok off') \<and>
           unat off' = min (length recs) (unat off + 10) \<and>
           (\<forall>t p recs'. holds s t p recs' \<longrightarrow> holds s' t p recs')"
proof -
  let ?got = "take 10 (drop (unat off) recs)"
  obtain s' where s': "conn (Fetch ''events'' 0 off 10) s = (s', Received (FetchSuccess ''events'' 0 ?got))"
      "\<forall>t p recs'. holds s t p recs' \<longrightarrow> holds s' t p recs'"
    using fetch_law [OF assms(1), of off 10] by auto
  have "consumer_fetch conn ''events'' 0 off 10 (c, s) = ((c, s'), Ok ?got)"
    using s'(1) by (simp add: consumer_fetch_def ask_received [where conn = conn])
  then have turn: "simple_consumer_turn conn off ((c, s), out) =
      (((c, s'), out @ ?got), Ok (if ?got = [] then off else rec_offset (last ?got) + 1))"
    using for_each_emit [of "\<lambda>x. x" ?got "(c, s')" out]
    by (simp add: simple_consumer_turn_def within_simps fold_last run_then_def del: take_eq_Nil drop_eq_Nil)
  show ?thesis
  proof (cases "?got = []")
    case True
    then show ?thesis using turn s'(2) assms(2) by (intro exI [of _ s'] exI [of _ off]) auto
  next
    case False
    then show ?thesis using turn s'(2) next_position(2) [OF assms(1), of "10 :: u32" off]
      by (intro exI [of _ s'] exI [of _ "rec_offset (last ?got) + 1"]) simp
  qed
qed

lemma simple_consumer_loop_reads:
  assumes "holds s ''events'' 0 recs" and "unat off \<le> length recs"
  shows "\<exists>s' off'. simple_consumer_loop k conn off ((c, s), out) =
             (((c, s'), out @ take (k * 10) (drop (unat off) recs)), Ok off') \<and>
           unat off' = min (length recs) (unat off + k * 10) \<and>
           (\<forall>t p recs'. holds s t p recs' \<longrightarrow> holds s' t p recs')"
  using assms
proof (induction k arbitrary: off s out)
  case (Suc k)
  obtain s1 off1 where 1: "simple_consumer_turn conn off ((c, s), out) =
        (((c, s1), out @ take 10 (drop (unat off) recs)), Ok off1)"
      "unat off1 = min (length recs) (unat off + 10)" "\<forall>t p recs'. holds s t p recs' \<longrightarrow> holds s1 t p recs'"
    using simple_consumer_turn_reads [OF Suc.prems] by blast
  obtain s2 off2 where 2: "simple_consumer_loop k conn off1 ((c, s1), out @ take 10 (drop (unat off) recs)) =
        (((c, s2), (out @ take 10 (drop (unat off) recs)) @ take (k * 10) (drop (unat off1) recs)), Ok off2)"
      "unat off2 = min (length recs) (unat off1 + k * 10)" "\<forall>t p recs'. holds s1 t p recs' \<longrightarrow> holds s2 t p recs'"
    using Suc.IH [of s1 off1 "out @ take 10 (drop (unat off) recs)"] 1(2) 1(3) [rule_format, OF Suc.prems(1)]
    by auto
  have "take 10 (drop (unat off) recs) @ take (k * 10) (drop (unat off1) recs) =
      take (Suc k * 10) (drop (unat off) recs)"
    unfolding 1(2) by (simp add: take_add min_def add.commute)
  with 1(1) 2(1) have "simple_consumer_loop (Suc k) conn off ((c, s), out) =
      (((c, s2), out @ take (Suc k * 10) (drop (unat off) recs)), Ok off2)"
    by simp
  moreover have "unat off2 = min (length recs) (unat off + Suc k * 10)" using 1(2) 2(2) by simp
  moreover have "\<forall>t p recs'. holds s t p recs' \<longrightarrow> holds s2 t p recs'" using 1(3) 2(3) by blast
  ultimately show ?case by blast
qed simp

end
context queue_service
begin

text \<open>The second run of the producer fails at its first step.\<close>

lemma simple_producer_again:
  assumes "rel s \<sigma>" and "qu_topics \<sigma> ''events'' = Some n"
  shows "\<exists>pr s'. simple_producer clock conn (Inr s) = Ok (((pr, s'), []), Err (Protocol (error_to_string
      (InvalidMessage (''Topic '' @ [CHR 0x27] @ ''events'' @ [CHR 0x27] @ '' already exists''))))) \<and> rel s' \<sigma>"
proof -
  let ?pr = "\<lparr>pr_partitioner = round_robin_new, pr_metadata_cache = []\<rparr>"
  obtain s' where "producer_create_topic conn ''events'' 3 (?pr, s) = ((?pr, s'), Err (Protocol (error_to_string
      (InvalidMessage (''Topic '' @ [CHR 0x27] @ ''events'' @ [CHR 0x27] @ '' already exists'')))))" "rel s' \<sigma>"
    by (rule create_existing [OF assms])
  then show ?thesis
    by (intro exI [of _ ?pr] exI [of _ s'])
      (simp add: simple_producer_def producer_connect_def connect_with_partitioner_def within_simps)
qed

end

text \<open>A broker that has started on an empty directory stands for the empty queue.\<close>

lemma link_rel_start:
  assumes "codecs_ok C" and "0 < cfg_replication_factor config" and "is_order ford"
    and "broker_new C now config None [] = Ok b0" and "\<forall>i. env_ok (es i)"
  shows "link_rel C es (i, broker_start ford b0) (queue_new now config)"
  using run_from_empty(2) [OF assms(1-4), of "[]"] assms(5) by (simp add: link_rel_def)

text \<open>
  C20. The two simple examples on a broker that has started on an empty directory print what they are
  documented to print. The producer creates its topic and sends ten messages, the \<open>i\<close>-th one to
  partition \<open>i mod 3\<close>, at offsets that count up in each partition. The consumer then
  prints the messages 3, 6 and 9 of partition 0, each once and in order, in its first turn, and nothing in any
  later turn. A second run of the producer fails at the topic, before it sends anything.
\<close>

theorem simple_examples_run:
  assumes "codecs_ok C" and "0 < cfg_replication_factor config" and "is_order ford"
    and "broker_new C now config None [] = Ok b0" and "\<forall>i. env_ok (es i)"
  shows "\<exists>pr st c st' pr' st''.
     simple_producer clock (broker_link C es) (Inr (0, broker_start ford b0)) =
       Ok (((pr, st), [(1, 1, 0), (2, 2, 0), (3, 0, 0), (4, 1, 1), (5, 2, 1), (6, 0, 1), (7, 1, 2), (8, 2, 2),
         (9, 0, 2), (10, 1, 3)]), Ok ()) \<and>
     simple_consumer (Suc k) (broker_link C es) (Inr st) =
       Ok (((c, st'), [\<lparr>rec_topic = ''events'', rec_partition = 0, rec_offset = 0, rec_message = simple_message clock 3\<rparr>,
         \<lparr>rec_topic = ''events'', rec_partition = 0, rec_offset = 1, rec_message = simple_message clock 6\<rparr>,
         \<lparr>rec_topic = ''events'', rec_partition = 0, rec_offset = 2, rec_message = simple_message clock 9\<rparr>]), Ok 3) \<and>
     simple_producer clock' (broker_link C es) (Inr st) =
       Ok (((pr', st''), []), Err (Protocol (error_to_string (InvalidMessage
         (''Topic '' @ [CHR 0x27] @ ''events'' @ [CHR 0x27] @ '' already exists'')))))"
proof -
  note start = link_rel_start [OF assms, of 0]
  have "qu_topics (queue_new now config) ''events'' = None" by (simp add: queue_new_def)
  from queued.simple_producer_runs [OF start this, of clock]
  obtain pr st where made: "simple_producer clock (broker_link C es) (Inr (0, broker_start ford b0)) =
       Ok (((pr, st), [(1, 1, 0), (2, 2, 0), (3, 0, 0), (4, 1, 1), (5, 2, 1), (6, 0, 1), (7, 1, 2), (8, 2, 2),
         (9, 0, 2), (10, 1, 3)]), Ok ())"
      "link_rel C es st (fold queue_append (simple_batches clock) (queue_create ''events'' 3 (queue_new now config)))"
      (is "link_rel C es st ?\<sigma>")
    by blast
  have topics: "qu_topics ?\<sigma> ''events'' = Some 3" by simp
  have log: "qu_log ?\<sigma> (''events'', 0) = [simple_message clock 3, simple_message clock 6, simple_message clock 9]"
    by (simp add: simple_batches_def)
  then have holds: "service_holds (link_rel C es) st ''events'' 0
      (history ''events'' 0 [simple_message clock 3, simple_message clock 6, simple_message clock 9])"
    using made(2) topics unfolding service_holds_def
    by (intro exI [of _ ?\<sigma>] exI [of _ "[simple_message clock 3, simple_message clock 6, simple_message clock 9]"])
      (simp add: queue_find_def)
  define c where "c = fst (case consumer_connect (Inr st) of Ok x \<Rightarrow> x)"
  have c: "consumer_connect (Inr st) = Ok (c, st)" by (simp add: consumer_connect_def c_def)
  obtain st' off where read: "simple_consumer_loop (Suc k) (broker_link C es) 0 ((c, st), []) =
        (((c, st'), [] @ take (Suc k * 10) (drop (unat 0)
          (history ''events'' 0 [simple_message clock 3, simple_message clock 6, simple_message clock 9]))), Ok off)"
      "unat off = min (length (history ''events'' 0 [simple_message clock 3, simple_message clock 6,
         simple_message clock 9])) (unat 0 + Suc k * 10)"
    using queued.reader.simple_consumer_loop_reads [OF holds, of 0 "Suc k" c "[]"] by auto
  have "off = 3" using read(2) by (simp add: word_unat_eq_iff)
  then have "simple_consumer (Suc k) (broker_link C es) (Inr st) =
       Ok (((c, st'), [\<lparr>rec_topic = ''events'', rec_partition = 0, rec_offset = 0, rec_message = simple_message clock 3\<rparr>,
         \<lparr>rec_topic = ''events'', rec_partition = 0, rec_offset = 1, rec_message = simple_message clock 6\<rparr>,
         \<lparr>rec_topic = ''events'', rec_partition = 0, rec_offset = 2, rec_message = simple_message clock 9\<rparr>]), Ok 3)"
    using read(1) by (simp add: simple_consumer_def c del: simple_consumer_loop.simps)
  with made(1) queued.simple_producer_again [OF made(2) topics, of clock'] show ?thesis by blast
qed
text \<open>The broker of the samples.\<close>

lemma sample_start:
  "0 < cfg_replication_factor broker_config_default" "\<forall>i :: nat. env_ok sample_env"
  using sample_env_ok by (simp_all add: broker_config_default_def)

theorem simple_examples_run_witness:
  "\<exists>pr st c st' lines. simple_producer (\<lambda>_. 7) (broker_link demo_codecs (\<lambda>_. sample_env)) (Inr (0, broker_start rev sample_broker)) =
       Ok (((pr, st), lines), Ok ()) \<and> length lines = 10 \<and>
     simple_consumer 2 (broker_link demo_codecs (\<lambda>_. sample_env)) (Inr st) =
       Ok (((c, st'), [\<lparr>rec_topic = ''events'', rec_partition = 0, rec_offset = 0, rec_message = simple_message (\<lambda>_. 7) 3\<rparr>,
         \<lparr>rec_topic = ''events'', rec_partition = 0, rec_offset = 1, rec_message = simple_message (\<lambda>_. 7) 6\<rparr>,
         \<lparr>rec_topic = ''events'', rec_partition = 0, rec_offset = 2, rec_message = simple_message (\<lambda>_. 7) 9\<rparr>]), Ok 3)"
  using simple_examples_run [OF demo_codecs_ok sample_start(1) is_order_rev sample_broker_new,
      of "\<lambda>_. sample_env" "\<lambda>_. 7" "Suc 0" "\<lambda>_. 7"] sample_start(2)
  by (fastforce simp: numeral_2_eq_2 simp del: simple_consumer_loop.simps)

end
