(* ===== verification/Subscription_Properties.thy ===== *)
theory Subscription_Properties
  imports Example_Properties
begin

text \<open>
  The subscription example: the program ends whatever it is connected to, and on the broker it
  prints the logs of all partitions of its topics.
\<close>

section \<open>The end of the loop\<close>

lemma subscription_loop_more:
  "subscription_loop k sord conn message_count iterations x = Some r \<Longrightarrow>
     subscription_loop (k + j) sord conn message_count iterations x = Some r"
proof (induction k arbitrary: message_count iterations x)
  case (Suc k)
  obtain x' records where "within (poll sord conn 10) x = (x', records)" by fastforce
  then show ?case using Suc by (cases records) (auto split: if_splits)
qed simp

lemma subscription_loop_ends:
  assumes "iterations < 20" and "message_count < 30" and "49 \<le> k + iterations + message_count"
  shows "subscription_loop k sord conn message_count iterations x \<noteq> None"
  using assms
proof (induction k arbitrary: message_count iterations x)
  case (Suc k)
  obtain x' r where poll: "within (poll sord conn 10) x = (x', r)" by fastforce
  show ?case
  proof (cases r)
    case (Ok records)
    then have "subscription_loop k sord conn message_count (iterations + 1) x' \<noteq> None" if "iterations + 1 < 20"
      using Suc.IH [of "iterations + 1" message_count x'] Suc.prems that by simp
    moreover have "subscription_loop k sord conn (message_count + length records) iterations y \<noteq> None"
      if "message_count + length records < 30" "records \<noteq> []" for y
      using Suc.IH [of iterations "message_count + length records" y] Suc.prems that
      by (cases records) simp_all
    ultimately show ?thesis using poll Ok by (auto simp del: not_None_eq)
  qed (use poll in simp_all)
qed simp

text \<open>
  C27. The subscription example ends, whatever it is connected to, after at most 49 polls: a poll either
  has records, of which the program takes thirty at most before it stops, or is one of at most twenty
  polls without records.
\<close>

theorem subscription_consumer_ends:
  "subscription_consumer 49 sord conn connected \<noteq> Ok None \<and>
   subscription_consumer (49 + j) sord conn connected = subscription_consumer 49 sord conn connected"
proof (cases connected)
  case (Inl e)
  then show ?thesis by (simp add: subscription_consumer_def consumer_connect_def)
next
  case (Inr s)
  obtain st where st: "consumer_connect connected = Ok st" using Inr by (simp add: consumer_connect_def)
  obtain x r where x: "within (subscribe conn [''user-events'', ''events'']) (st, [] :: (stored_record \<times> u64) list) = (x, r)" by fastforce
  obtain y where y: "subscription_loop 49 sord conn 0 0 x = Some y"
    using subscription_loop_ends [of 0 0 49 sord conn x] by auto
  show ?thesis
    using subscription_loop_more [OF y, of j] y st x by (cases r) (simp_all add: subscription_consumer_def)
qed
section \<open>What the program prints\<close>

abbreviation of_partition :: "string \<Rightarrow> u32 \<Rightarrow> stored_record list \<Rightarrow> stored_record list" where
  "of_partition t p rs \<equiv> filter (\<lambda>r. rec_topic r = t \<and> rec_partition r = p) rs"

definition labelled :: "string \<Rightarrow> u32 \<Rightarrow> stored_record list \<Rightarrow> bool" where
  "labelled t p rs \<longleftrightarrow> (\<forall>r \<in> set rs. rec_topic r = t \<and> rec_partition r = p)"

lemma labelled_history: "labelled t p (history t p ms)"
  by (auto simp: labelled_def)

lemma labelled_slice: "labelled t p rs \<Longrightarrow> labelled t p (take n (drop m rs))"
  by (auto simp: labelled_def dest: in_set_takeD in_set_dropD)

lemma of_partition_labelled:
  "labelled t' p' rs \<Longrightarrow> of_partition t p rs = (if (t', p') = (t, p) then rs else [])"
  by (auto simp: labelled_def filter_id_conv filter_empty_conv)

lemma of_partition_concat:
  assumes "distinct tps" and "(t, p) \<in> set tps" and "\<forall>(t, p) \<in> set tps. labelled t p (f t p)"
  shows "of_partition t p (concat (map (\<lambda>(t, p). f t p) tps)) = f t p"
proof -
  have other: "of_partition t p (concat (map (\<lambda>(t, p). f t p) xs)) = []"
    if "(t, p) \<notin> set xs" "set xs \<subseteq> set tps" for xs
    using that
  proof (induction xs)
    case (Cons x xs)
    obtain t' p' where x: "x = (t', p')" by (cases x)
    then show ?case using Cons assms(3) of_partition_labelled [of t' p' "f t' p'" t p] by auto
  qed simp
  obtain xs ys where tps: "tps = xs @ (t, p) # ys" using assms(2) by (metis split_list)
  then have "of_partition t p (f t p) = f t p"
    using assms(3) of_partition_labelled [of t p "f t p" t p] by auto
  moreover have "set xs \<subseteq> set tps" "set ys \<subseteq> set tps" "(t, p) \<notin> set xs" "(t, p) \<notin> set ys"
    using assms(1) tps by auto
  ultimately show ?thesis using other [of xs] other [of ys] tps by simp
qed

lemma show_records: "for_each show_record records ((c, s), out) =
    (((c, s), out @ map (\<lambda>r. (r, case get_offset c (rec_topic r) (rec_partition r) of Some off \<Rightarrow> off | None \<Rightarrow> 0))
       records), Ok ())"
  by (induction records arbitrary: out) (simp_all add: show_record_def run_then_def)

lemma take_on:
  assumes "x \<le> length xs" and "min (length xs) (x + n) \<le> y"
  shows "take n (drop x xs) @ take (y - min (length xs) (x + n)) (drop (min (length xs) (x + n)) xs) = take (y - x) (drop x xs)"
proof (cases "x + n \<le> length xs")
  case True
  then have "y - x = n + (y - (x + n))" using assms(2) by simp
  then have "take (y - x) (drop x xs) = take n (drop x xs) @ take (y - (x + n)) (drop n (drop x xs))"
    by (metis take_add)
  then show ?thesis using True by (simp add: min_def add.commute)
qed (use assms in simp)

context log_reader
begin

text \<open>
  The loop of a subscribed consumer that ends: of every partition it has printed the records from
  the position on to the new position, and it has seen thirty records or the end of every log.
\<close>

lemma subscription_loop_reads:
  assumes "tps = concat (map (\<lambda>(topic, ps). map (Pair topic) ps) (sord (cs_subscriptions c)))" and "distinct tps"
    and "\<forall>(t, p) \<in> set tps. holds s t p (recs t p) \<and> labelled t p (recs t p) \<and> position c t p \<le> length (recs t p)"
    and "subscription_loop k sord conn message_count iterations ((c, s), out) = Some (x, r)"
  shows "\<exists>c' s' more. x = ((c', s'), out @ more) \<and> r = Ok () \<and>
           (\<lambda>(r, _). (rec_topic r, rec_partition r)) ` set more \<subseteq> set tps \<and>
           (\<forall>(t, p) \<in> set tps. of_partition t p (map fst more) =
              take (position c' t p - position c t p) (drop (position c t p) (recs t p)) \<and>
              position c t p \<le> position c' t p \<and> position c' t p \<le> length (recs t p)) \<and>
           (30 \<le> message_count + length more \<or> (\<forall>(t, p) \<in> set tps. position c' t p = length (recs t p)))"
  using assms
proof (induction k arbitrary: c s message_count iterations out)
  case (Suc k)
  have ready: "\<forall>(t, p) \<in> set tps. holds s t p (recs t p) \<and> position c t p \<le> length (recs t p)"
    using Suc.prems(3) by blast
  define got where "got = concat (map (\<lambda>(t, p). take 10 (drop (position c t p) (recs t p))) tps)"
  obtain offs s1 where "poll_loop conn 10 tps (c, s) = ((c\<lparr>cs_offsets := offs\<rparr>, s1),
        Ok (concat (map (\<lambda>(t, p). take (unat (10 :: u32)) (drop (position c t p) (recs t p))) tps)))"
      "\<forall>(t, p) \<in> set tps. position (c\<lparr>cs_offsets := offs\<rparr>) t p =
        min (length (recs t p)) (position c t p + unat (10 :: u32))"
      "\<forall>t p recs'. holds s t p recs' \<longrightarrow> holds s1 t p recs'"
    by (rule poll_loop_reads [OF Suc.prems(2) ready])
  then have 1: "poll sord conn 10 (c, s) = ((c\<lparr>cs_offsets := offs\<rparr>, s1), Ok got)"
      "\<forall>(t, p) \<in> set tps. position (c\<lparr>cs_offsets := offs\<rparr>) t p = min (length (recs t p)) (position c t p + 10)"
      "\<forall>t p recs'. holds s t p recs' \<longrightarrow> holds s1 t p recs'"
    using Suc.prems(1) by (simp_all add: poll_def got_def)
  let ?c = "c\<lparr>cs_offsets := offs\<rparr>"
  have subs: "tps = concat (map (\<lambda>(topic, ps). map (Pair topic) ps) (sord (cs_subscriptions ?c)))"
    using Suc.prems(1) by simp
  have rest: "\<forall>(t, p) \<in> set tps. holds s1 t p (recs t p) \<and> labelled t p (recs t p) \<and> position ?c t p \<le> length (recs t p)"
    using Suc.prems(3) 1(2,3) by auto
  have here: "\<forall>(t, p) \<in> set tps. of_partition t p got = take 10 (drop (position c t p) (recs t p))"
    unfolding got_def using Suc.prems(3) labelled_slice
    by (auto intro!: of_partition_concat [OF Suc.prems(2), where f = "\<lambda>t p. take 10 (drop (position c t p) (recs t p))"])
  have places: "(\<lambda>r. (rec_topic r, rec_partition r)) ` set got \<subseteq> set tps"
  proof (rule image_subsetI)
    fix r
    assume "r \<in> set got"
    then obtain t p where r: "(t, p) \<in> set tps" "r \<in> set (take 10 (drop (position c t p) (recs t p)))"
      by (auto simp: got_def)
    then have "labelled t p (take 10 (drop (position c t p) (recs t p)))"
      using Suc.prems(3) labelled_slice by auto
    then show "(rec_topic r, rec_partition r) \<in> set tps" using r by (simp add: labelled_def)
  qed
  show ?case
  proof (cases "got = []")
    case True
    then have done_all: "\<forall>(t, p) \<in> set tps. position c t p = length (recs t p)"
      using Suc.prems(3) by (fastforce simp: got_def)
    then have same: "position c t p = length (recs t p)" "position ?c t p = length (recs t p)" if "(t, p) \<in> set tps" for t p
      using 1(2) that by fastforce+
    show ?thesis
    proof (cases "20 \<le> iterations + 1")
      case True
      then have "x = ((?c, s1), out)" "r = Ok ()" using Suc.prems(4) 1(1) \<open>got = []\<close> by (simp_all add: within_simps)
      then show ?thesis using same by (intro exI [of _ ?c] exI [of _ s1] exI [of _ "[]"]) auto
    next
      case False
      then have "subscription_loop k sord conn message_count (iterations + 1) ((?c, s1), out) = Some (x, r)"
        using Suc.prems(4) 1(1) \<open>got = []\<close> by (simp add: within_simps)
      from Suc.IH [OF subs Suc.prems(2) rest this] show ?thesis using same
        by (elim exE conjE) (intro exI conjI, assumption+, auto)
    qed
  next
    case False
    define new where "new = map (\<lambda>r. (r, case get_offset ?c (rec_topic r) (rec_partition r) of
        Some off \<Rightarrow> off | None \<Rightarrow> 0)) got"
    have new: "map fst new = got" "length new = length got" by (simp_all add: new_def o_def)
    have new_places: "(\<lambda>(r, _). (rec_topic r, rec_partition r)) ` set new \<subseteq> set tps"
      using places by (auto simp: new_def)
    note shown = show_records [of got ?c s1 out, folded new_def]
    show ?thesis
    proof (cases "30 \<le> message_count + length got")
      case True
      then have "x = ((?c, s1), out @ new)" "r = Ok ()"
        using Suc.prems(4) 1(1) \<open>got \<noteq> []\<close> shown by (simp_all add: within_simps)
      moreover have "of_partition t p (map fst new) =
            take (position ?c t p - position c t p) (drop (position c t p) (recs t p)) \<and>
            position c t p \<le> position ?c t p \<and> position ?c t p \<le> length (recs t p)"
        if tp: "(t, p) \<in> set tps" for t p
      proof -
        have "position ?c t p = min (length (recs t p)) (position c t p + 10)" "position c t p \<le> length (recs t p)"
          "of_partition t p got = take 10 (drop (position c t p) (recs t p))"
          using 1(2) ready here tp by fastforce+
        then show ?thesis by (simp add: new(1) min_def)
      qed
      ultimately show ?thesis
        using True new(2) new_places by (intro exI [of _ ?c] exI [of _ s1] exI [of _ new]) auto
    next
      case False
      then have "subscription_loop k sord conn (message_count + length got) iterations ((?c, s1), out @ new) = Some (x, r)"
        using Suc.prems(4) 1(1) \<open>got \<noteq> []\<close> shown by (simp add: within_simps)
      from Suc.IH [OF subs Suc.prems(2) rest this]
      obtain c' s' more where 2: "x = ((c', s'), (out @ new) @ more)" "r = Ok ()"
          "\<forall>(t, p) \<in> set tps. of_partition t p (map fst more) =
             take (position c' t p - position ?c t p) (drop (position ?c t p) (recs t p)) \<and>
             position ?c t p \<le> position c' t p \<and> position c' t p \<le> length (recs t p)"
          "30 \<le> message_count + length got + length more \<or> (\<forall>(t, p) \<in> set tps. position c' t p = length (recs t p))"
          "(\<lambda>(r, _). (rec_topic r, rec_partition r)) ` set more \<subseteq> set tps"
        by blast
      have "of_partition t p (map fst (new @ more)) =
            take (position c' t p - position c t p) (drop (position c t p) (recs t p)) \<and>
            position c t p \<le> position c' t p \<and> position c' t p \<le> length (recs t p)"
        if tp: "(t, p) \<in> set tps" for t p
      proof -
        have now: "position ?c t p = min (length (recs t p)) (position c t p + 10)" "position c t p \<le> length (recs t p)"
            "of_partition t p got = take 10 (drop (position c t p) (recs t p))"
          using 1(2) ready here tp by fastforce+
        moreover have "of_partition t p (map fst more) =
              take (position c' t p - position ?c t p) (drop (position ?c t p) (recs t p))"
            and end': "position ?c t p \<le> position c' t p" "position c' t p \<le> length (recs t p)"
          using 2(3) tp by fastforce+
        ultimately show ?thesis
          using take_on [of "position c t p" "recs t p" 10 "position c' t p"] new(1) by simp
      qed
      then show ?thesis using 2 new(2) new_places
        by (intro exI [of _ c'] exI [of _ s'] exI [of _ "new @ more"]) auto
    qed
  qed
qed simp

end
section \<open>The program on the broker\<close>

text \<open>The partitions of the two topics.\<close>

definition topic_places :: "u32 \<Rightarrow> u32 \<Rightarrow> (string \<times> u32) set" where
  "topic_places n m = {''user-events''} \<times> {..<n} \<union> {''events''} \<times> {..<m}"

definition subscribed :: "u32 \<Rightarrow> u32 \<Rightarrow> (string \<times> u32 list) list" where
  "subscribed n m = [(''user-events'', u32_range n), (''events'', u32_range m)]"

lemma subscribed_partitions:
  assumes "is_order sord" and "tps = concat (map (\<lambda>(topic, ps). map (Pair topic) ps) (sord (subscribed n m)))"
  shows "distinct tps" and "set tps = topic_places n m"
proof -
  let ?flat = "\<lambda>xs. concat (map (\<lambda>(topic, ps). map (Pair topic) ps) xs) :: (string \<times> u32) list"
  have perm: "mset tps = mset (?flat (subscribed n m))"
  proof -
    have "mset (?flat xs) = sum_mset (image_mset (\<lambda>(topic, ps). mset (map (Pair topic) ps)) (mset xs))" for xs
      by (induction xs) auto
    then show ?thesis unfolding assms(2) by (simp add: order_mset [OF assms(1)])
  qed
  have "distinct (?flat (subscribed n m))"
    by (auto simp: subscribed_def distinct_map inj_on_def)
  then show "distinct tps" using perm by (metis mset_eq_imp_distinct_iff)
  have "set tps = set (?flat (subscribed n m))" using perm by (rule mset_eq_setD)
  then show "set tps = topic_places n m"
    by (auto simp: subscribed_def topic_places_def set_u32_range)
qed

lemma fold_zero: "hm_get (fold (\<lambda>p. hm_insert (t, p) 0) ps offs) k = Some off \<Longrightarrow> hm_get offs k = Some off \<or> off = 0"
proof (induction ps arbitrary: offs)
  case (Cons p ps)
  then have "hm_get (hm_insert (t, p) 0 offs) k = Some off \<or> off = 0" by simp
  then show ?case by (cases "k = (t, p)") (simp_all add: hashmap_simps)
qed simp

context queue_service
begin

lemma subscription_consumer_reads:
  assumes "rel s \<sigma>" and "qu_topics \<sigma> ''user-events'' = Some n" and "qu_topics \<sigma> ''events'' = Some m"
    and "is_order sord"
  shows "\<exists>c s' out. subscription_consumer 49 sord conn (Inr s) = Ok (Some (((c, s'), out), Ok ())) \<and>
           (\<lambda>(r, _). (rec_topic r, rec_partition r)) ` set out \<subseteq> topic_places n m \<and>
           (\<forall>t q. (t, q) \<in> topic_places n m \<longrightarrow>
              (\<exists>j. of_partition t q (map fst out) = take j (history t q (qu_log \<sigma> (t, q)))) \<and>
              (length out < 30 \<longrightarrow> of_partition t q (map fst out) = history t q (qu_log \<sigma> (t, q))))"
proof -
  define c where "c = fst (case consumer_connect (Inr s) of Ok x \<Rightarrow> x)"
  have c: "consumer_connect (Inr s) = Ok (c, s)" "cs_subscriptions c = []" "cs_offsets c = []"
    by (simp_all add: consumer_connect_def c_def)
  define offs where "offs = fold (\<lambda>p. hm_insert (''events'', p) (0 :: u64)) (u32_range m)
      (fold (\<lambda>p. hm_insert (''user-events'', p) 0) (u32_range n) [])"
  define c' where "c' = c\<lparr>cs_subscriptions := subscribed n m, cs_offsets := offs\<rparr>"
  obtain s2 where sub: "subscribe conn [''user-events'', ''events''] (c, s) = ((c', s2), Ok ())" "rel s2 \<sigma>"
  proof (rule subscribe_topic [OF assms(1,2), of "[''events'']" c])
    fix s1
    assume 1: "subscribe conn [''user-events'', ''events''] (c, s) = subscribe conn [''events'']
        (c\<lparr>cs_subscriptions := hm_insert ''user-events'' (u32_range n) (cs_subscriptions c),
           cs_offsets := fold (\<lambda>p. hm_insert (''user-events'', p) 0) (u32_range n) (cs_offsets c)\<rparr>, s1)" "rel s1 \<sigma>"
    show thesis
      by (rule subscribe_topic [OF 1(2) assms(3), of "[]" "c\<lparr>cs_subscriptions := hm_insert ''user-events'' (u32_range n) (cs_subscriptions c),
           cs_offsets := fold (\<lambda>p. hm_insert (''user-events'', p) 0) (u32_range n) (cs_offsets c)\<rparr>"])
        (use 1(1) c in \<open>auto intro!: that simp: c'_def offs_def subscribed_def\<close>)
  qed
  have zero: "position c' t q = 0" for t q
    using fold_zero [of "''events''" "u32_range m"] fold_zero [of "''user-events''" "u32_range n" "[]"]
    by (fastforce simp: position_def c'_def offs_def split: option.split)
  define tps where "tps = concat (map (\<lambda>(topic, ps). map (Pair topic) ps) (sord (cs_subscriptions c')))"
  have "tps = concat (map (\<lambda>(topic, ps). map (Pair topic) ps) (sord (subscribed n m)))" by (simp add: tps_def c'_def)
  note parts = subscribed_partitions [OF assms(4) this]
  let ?recs = "\<lambda>t q. history t q (qu_log \<sigma> (t, q))"
  have "service_holds rel s2 t q (?recs t q)" if "(t, q) \<in> set tps" for t q
  proof -
    have "queue_find \<sigma> t q = Ok (qu_log \<sigma> (t, q))"
      using that assms(2,3) unfolding parts(2) by (auto simp: queue_find_def topic_places_def)
    then show ?thesis using sub(2) unfolding service_holds_def by blast
  qed
  then have ready: "\<forall>(t, q) \<in> set tps. service_holds rel s2 t q (?recs t q) \<and> labelled t q (?recs t q) \<and>
      position c' t q \<le> length (?recs t q)"
    using labelled_history zero by auto
  obtain x r where x: "subscription_loop 49 sord conn 0 0 ((c', s2), []) = Some (x, r)"
    using subscription_loop_ends [of 0 0 49 sord conn "((c', s2), [])"] by auto
  from reader.subscription_loop_reads [OF tps_def parts(1) ready x] obtain c'' s3 more where
      out: "x = ((c'', s3), more)" "r = Ok ()"
      "\<forall>(t, q) \<in> set tps. of_partition t q (map fst more) =
         take (position c'' t q - position c' t q) (drop (position c' t q) (?recs t q)) \<and>
         position c' t q \<le> position c'' t q \<and> position c'' t q \<le> length (?recs t q)"
      "30 \<le> 0 + length more \<or> (\<forall>(t, q) \<in> set tps. position c'' t q = length (?recs t q))"
      "(\<lambda>(r, _). (rec_topic r, rec_partition r)) ` set more \<subseteq> set tps"
    by auto
  have run: "subscription_consumer 49 sord conn (Inr s) = Ok (Some (((c'', s3), more), Ok ()))"
    using c(1) sub(1) x out(1,2) by (simp add: subscription_consumer_def within_simps)
  have "of_partition t q (map fst more) = take (position c'' t q) (?recs t q)"
    "length more < 30 \<Longrightarrow> position c'' t q = length (?recs t q)" if "(t, q) \<in> set tps" for t q
    using out(3,4) that zero by fastforce+
  then have "(\<exists>j. of_partition t q (map fst more) = take j (?recs t q)) \<and>
      (length more < 30 \<longrightarrow> of_partition t q (map fst more) = ?recs t q)" if "(t, q) \<in> set tps" for t q
    using that by auto
  then show ?thesis
    using run out(5) unfolding parts(2) by (intro exI [of _ c''] exI [of _ s3] exI [of _ more]) blast
qed

lemma subscription_consumer_missing:
  assumes "rel s \<sigma>" and "qu_topics \<sigma> ''user-events'' = None \<and> t = ''user-events'' \<or>
      qu_topics \<sigma> ''user-events'' \<noteq> None \<and> qu_topics \<sigma> ''events'' = None \<and> t = ''events''"
  shows "\<exists>c s'. subscription_consumer k sord conn (Inr s) = Ok (Some (((c, s'), []), Err (TopicNotFound t)))"
proof -
  define c where "c = fst (case consumer_connect (Inr s) of Ok x \<Rightarrow> x)"
  have c: "consumer_connect (Inr s) = Ok (c, s)" by (simp add: consumer_connect_def c_def)
  have "\<exists>c' s'. subscribe conn [''user-events'', ''events''] (c, s) = ((c', s'), Err (TopicNotFound t))"
  proof (cases "qu_topics \<sigma> ''user-events''")
    case None
    then show ?thesis
      using subscribe_missing [OF assms(1) None, of "[''events'']" c] assms(2) by blast
  next
    case (Some n)
    then have 0: "qu_topics \<sigma> ''events'' = None" "t = ''events''" using assms(2) by auto
    obtain c1 s1 where 1: "subscribe conn [''user-events'', ''events''] (c, s) = subscribe conn [''events''] (c1, s1)" "rel s1 \<sigma>"
      using subscribe_topic [OF assms(1) Some, of "[''events'']" c] by blast
    show ?thesis using subscribe_missing [OF 1(2) 0(1), of "[]" c1] 1(1) 0(2) by metis
  qed
  then obtain c' s' where "subscribe conn [''user-events'', ''events''] (c, s) = ((c', s'), Err (TopicNotFound t))" by blast
  then show ?thesis using c by (simp add: subscription_consumer_def within_simps)
qed

end

definition subscription_events :: "event list" where
  "subscription_events =
     [Handle sample_env (CreateTopic ''user-events'' 1), Handle sample_env (CreateTopic ''events'' 2),
      Handle sample_env (Produce ''events'' 1 [sample_message])]"

lemma subscription_admitted: "run_admitted (queue_new 0 broker_config_default) subscription_events"
  using sample_env_ok
  by (simp add: subscription_events_def queue_new_def batch_bytes_def small_message_def sample_message_def)


end
