(* ===== verification/Partitioned_Examples.thy ===== *)
theory Partitioned_Examples
  imports Subscription_Properties
begin

text \<open>
  The other two producers on the broker: the one with the key-hash partitioner keeps the messages of
  a user together and in order, and the one for consumer groups fills one partition of each topic only.
\<close>

section \<open>The producer with the key-hash partitioner\<close>

text \<open>The partition of a message in a topic of \<open>n\<close> partitions.\<close>

definition place :: "(bytes \<Rightarrow> u64) \<Rightarrow> u32 \<Rightarrow> message \<Rightarrow> u32" where
  "place H n m = (case msg_key m of Some k \<Rightarrow> if k \<noteq> [] then hash_bytes H k mod n else 0 | None \<Rightarrow> 0)"

lemma place_less: "0 < n \<Longrightarrow> place H n m < n"
  by (simp add: place_def u32_mod_less split: option.split)

lemma key_hash_routes:
  assumes "0 < n"
  shows "route_all (key_hash_partition H) n part (map msg_key ms) = (part, map Ok (map (place H n) ms))"
proof -
  have "snd (key_hash_partition H () (msg_key m) n) = Ok (place H n m)" for m
    using assms by (auto simp: key_hash_partition_def place_def split: option.split)
  then show ?thesis by (simp add: route_all_key_hash)
qed

lemma routed_to_place: "routed_to ms (map Ok (map (place H n) ms)) q = filter (\<lambda>m. place H n m = q) ms"
  by (induction ms) auto

text \<open>The lines of the logins: the offset of a message is the number of earlier ones of its partition.\<close>

fun login_lines :: "(bytes \<Rightarrow> u64) \<Rightarrow> (nat \<Rightarrow> nat) \<Rightarrow> message list \<Rightarrow> (nat \<times> string) list \<Rightarrow> partitioner_line list" where
  "login_lines H clock seen [] = []"
| "login_lines H clock seen (iu # ius) =
     LoginSent (fst iu + 1) (snd iu)
       (of_nat (length (filter (\<lambda>m. place H 5 m = place H 5 (login_message clock iu)) seen)))
     # login_lines H clock (seen @ [login_message clock iu]) ius"

context queue_service
begin

lemma key_batch_appends:
  assumes "rel s \<sigma>" and "qu_topics \<sigma> t = Some n" and "0 < n"
    and "hm_get (pr_metadata_cache pr) t = None \<or> hm_get (pr_metadata_cache pr) t = Some n" and "is_order bord"
    and "\<forall>q. qu_log \<sigma> (t, q) = filter (\<lambda>m. place H n m = q) seen"
    and "list_all light_message (seen @ ms)" and "length (seen @ ms) < 2 ^ 32"
  shows "\<exists>pr' s' base \<sigma>'. send_batch_auto bord (key_hash_partition H) conn t ms (pr, s) = ((pr', s'), Ok base) \<and>
           hm_get (pr_metadata_cache pr') t = Some n \<and> rel s' \<sigma>' \<and> qu_topics \<sigma>' = qu_topics \<sigma> \<and>
           (\<forall>q. qu_log \<sigma>' (t, q) = filter (\<lambda>m. place H n m = q) (seen @ ms)) \<and>
           (\<forall>m. ms = [m] \<longrightarrow> base = of_nat (length (filter (\<lambda>m'. place H n m' = place H n m) seen)))"
proof -
  have room: "\<forall>q. list_all light_message (qu_log \<sigma> (t, q) @ ms) \<and> length (qu_log \<sigma> (t, q) @ ms) < 2 ^ 32"
  proof
    fix q
    have "list_all light_message (qu_log \<sigma> (t, q) @ ms)"
      using assms(6,7) by (auto simp: list_all_iff)
    moreover have "length (qu_log \<sigma> (t, q) @ ms) < 2 ^ 32"
      by (rule le_less_trans [OF _ assms(8)]) (simp add: assms(6))
    ultimately show "list_all light_message (qu_log \<sigma> (t, q) @ ms) \<and> length (qu_log \<sigma> (t, q) @ ms) < 2 ^ 32" ..
  qed
  have "\<forall>q \<in> set (map (place H n) ms). q < n" using place_less [OF assms(3)] by auto
  from send_batch_auto_appends [OF assms(1,2,4,5) key_hash_routes [OF assms(3)] _ this room]
  obtain pr' s' base \<sigma>' where sent: "send_batch_auto bord (key_hash_partition H) conn t ms (pr, s) = ((pr', s'), Ok base)"
      "hm_get (pr_metadata_cache pr') t = Some n" "rel s' \<sigma>'" "qu_topics \<sigma>' = qu_topics \<sigma>"
      "\<forall>t' q. qu_log \<sigma>' (t', q) = qu_log \<sigma> (t', q) @
         (if t' = t then routed_to ms (map Ok (map (place H n) ms)) q else [])"
      "\<forall>q. map (place H n) ms = [q] \<longrightarrow> base = of_nat (length (qu_log \<sigma> (t, q)))"
    by auto
  then show ?thesis
    using assms(6) by (intro exI [of _ pr'] exI [of _ s'] exI [of _ base] exI [of _ \<sigma>']) (auto simp: routed_to_place simp del: map_map)
qed

lemma login_loop_sends:
  assumes "rel s \<sigma>" and "qu_topics \<sigma> ''user-events'' = Some 5"
    and "hm_get (pr_metadata_cache pr) ''user-events'' = None \<or> hm_get (pr_metadata_cache pr) ''user-events'' = Some 5"
    and "is_order bord" and "\<forall>q. qu_log \<sigma> (''user-events'', q) = filter (\<lambda>m. place H 5 m = q) seen"
    and "list_all light_message (seen @ map (login_message clock) ius)"
    and "length (seen @ map (login_message clock) ius) < 2 ^ 32"
  shows "\<exists>pr' s' \<sigma>'. for_each (login_step bord H clock conn) ius ((pr, s), out) =
             (((pr', s'), out @ login_lines H clock seen ius), Ok ()) \<and>
           (hm_get (pr_metadata_cache pr') ''user-events'' = None \<or> hm_get (pr_metadata_cache pr') ''user-events'' = Some 5) \<and>
           rel s' \<sigma>' \<and> qu_topics \<sigma>' = qu_topics \<sigma> \<and>
           (\<forall>q. qu_log \<sigma>' (''user-events'', q) = filter (\<lambda>m. place H 5 m = q) (seen @ map (login_message clock) ius))"
  using assms
proof (induction ius arbitrary: s \<sigma> pr out seen)
  case Nil
  then show ?case by (intro exI [of _ pr] exI [of _ s] exI [of _ \<sigma>]) simp
next
  case (Cons iu ius)
  let ?m = "login_message clock iu"
  have room: "list_all light_message (seen @ [?m])" "length (seen @ [?m]) < 2 ^ 32" using Cons.prems(6,7) by simp_all
  have five: "(0 :: u32) < 5" by simp
  define off where "off = (of_nat (length (filter (\<lambda>m. place H 5 m = place H 5 ?m) seen)) :: u64)"
  obtain pr1 s1 \<sigma>1 where 1: "send_batch_auto bord (key_hash_partition H) conn ''user-events'' [?m] (pr, s) = ((pr1, s1), Ok off)"
      "hm_get (pr_metadata_cache pr1) ''user-events'' = Some 5" "rel s1 \<sigma>1" "qu_topics \<sigma>1 = qu_topics \<sigma>"
      "\<forall>q. qu_log \<sigma>1 (''user-events'', q) = filter (\<lambda>m. place H 5 m = q) (seen @ [?m])"
    using key_batch_appends [OF Cons.prems(1,2) five Cons.prems(3,4,5) room] unfolding off_def by blast
  have step: "login_step bord H clock conn iu ((pr, s), out) = (((pr1, s1), out @ [LoginSent (fst iu + 1) (snd iu) off]), Ok ())"
    using 1(1) by (simp add: login_step_def send_auto_def within_simps)
  have "\<exists>pr' s' \<sigma>'. for_each (login_step bord H clock conn) ius ((pr1, s1), out @ [LoginSent (fst iu + 1) (snd iu) off]) =
        (((pr', s'), (out @ [LoginSent (fst iu + 1) (snd iu) off]) @ login_lines H clock (seen @ [?m]) ius), Ok ()) \<and>
      (hm_get (pr_metadata_cache pr') ''user-events'' = None \<or> hm_get (pr_metadata_cache pr') ''user-events'' = Some 5) \<and>
      rel s' \<sigma>' \<and> qu_topics \<sigma>' = qu_topics \<sigma>1 \<and>
      (\<forall>q. qu_log \<sigma>' (''user-events'', q) = filter (\<lambda>m. place H 5 m = q) ((seen @ [?m]) @ map (login_message clock) ius))"
    by (rule Cons.IH [OF 1(3) _ _ Cons.prems(4) 1(5)])
      (use 1(2,4) Cons.prems(2,6,7) in \<open>simp_all add: add.commute\<close>)
  then show ?case using step 1(4) by (simp add: off_def)
qed

lemma own_metadata:
  assumes "rel s \<sigma>" and "qu_topics \<sigma> t = Some n"
  obtains pr' s' where "producer_get_metadata conn [t] (pr, s) = ((pr', s'), Ok [topic_metadata_new t n])"
    and "rel s' \<sigma>"
proof -
  obtain s' resp where r: "ask conn (GetMetadata [t]) (pr, s) = ((pr, s'), Ok resp)"
      "queue_answers (env s) \<sigma> (GetMetadata [t]) resp" "rel s' (queue_next (env s) (GetMetadata [t]) \<sigma>)"
    by (rule ask_served [OF assms(1), of "GetMetadata [t]" pr]) simp_all
  then show thesis
    using assms(2)
    by (intro that [of "pr\<lparr>pr_metadata_cache := hm_insert t n (pr_metadata_cache pr)\<rparr>" s'])
      (simp_all add: producer_get_metadata_def queue_metadata_def map_filter_simps topic_metadata_new_def)
qed

lemma partitioner_producer_runs:
  assumes "rel s \<sigma>" and "qu_topics \<sigma> ''user-events'' = None" and "is_order bord"
  shows "\<exists>pr s' \<sigma>'. partitioner_producer bord H clock conn (Inr s) =
           Ok (((pr, s'), login_lines H clock [] (enumerate 0 login_users) @ TopicLine ''user-events'' 5 #
             map (\<lambda>q. PartitionLine q 0) [0, 1, 2, 3, 4]), Ok ()) \<and>
         rel s' \<sigma>' \<and> qu_topics \<sigma>' ''user-events'' = Some 5 \<and>
         (\<forall>q. qu_log \<sigma>' (''user-events'', q) = filter (\<lambda>m. place H 5 m = q)
            (map (login_message clock) (enumerate 0 login_users) @
             map (batch_message clock) [1, 2, 3, 4, 5, 6, 7, 8, 9, 10]))"
proof -
  let ?logins = "map (login_message clock) (enumerate 0 login_users)"
  let ?batch = "map (batch_message clock) [1, 2, 3, 4, 5, 6, 7, 8, 9, 10]"
  let ?lines = "login_lines H clock [] (enumerate 0 login_users)"
  define pr where "pr = \<lparr>pr_partitioner = (), pr_metadata_cache = []\<rparr>"
  have light: "list_all light_message ([] @ ?logins)" "list_all light_message ?batch"
    by (simp_all add: light_message_def login_message_def login_users_def batch_message_def with_key_def message_new_def
        show_nat.simps)
  then have both: "list_all light_message (([] @ ?logins) @ ?batch)" by simp
  have len: "length ([] @ ?logins) < 2 ^ 32" "length (([] @ ?logins) @ ?batch) < 2 ^ 32" by (simp_all add: login_users_def)
  have five: "(0 :: u32) < 5" by simp
  obtain s1 where 1: "producer_create_topic conn ''user-events'' 5 (pr, s) = ((pr, s1), Ok ())"
      "rel s1 (queue_create ''user-events'' 5 \<sigma>)"
    by (rule create_new [OF assms(1,2)])
  have start: "qu_topics (queue_create ''user-events'' 5 \<sigma>) ''user-events'' = Some 5"
      "hm_get (pr_metadata_cache pr) ''user-events'' = None \<or> hm_get (pr_metadata_cache pr) ''user-events'' = Some 5"
      "\<forall>q. qu_log (queue_create ''user-events'' 5 \<sigma>) (''user-events'', q) = filter (\<lambda>m. place H 5 m = q) []"
    by (simp_all add: pr_def)
  obtain pr2 s2 \<sigma>2 where 2: "for_each (login_step bord H clock conn) (enumerate 0 login_users) ((pr, s1), []) =
        (((pr2, s2), ?lines), Ok ())"
      "hm_get (pr_metadata_cache pr2) ''user-events'' = None \<or> hm_get (pr_metadata_cache pr2) ''user-events'' = Some 5"
      "rel s2 \<sigma>2" "qu_topics \<sigma>2 ''user-events'' = Some 5"
      "\<forall>q. qu_log \<sigma>2 (''user-events'', q) = filter (\<lambda>m. place H 5 m = q) ([] @ ?logins)"
    using login_loop_sends [OF 1(2) start(1,2) assms(3) start(3) light(1) len(1), of "[]"] start(1) by fastforce
  obtain pr3 s3 base \<sigma>3 where 3: "send_batch_auto bord (key_hash_partition H) conn ''user-events'' ?batch (pr2, s2) =
        ((pr3, s3), Ok base)"
      "rel s3 \<sigma>3" "qu_topics \<sigma>3 = qu_topics \<sigma>2"
      "\<forall>q. qu_log \<sigma>3 (''user-events'', q) = filter (\<lambda>m. place H 5 m = q) (([] @ ?logins) @ ?batch)"
    using key_batch_appends [OF 2(3,4) five 2(2) assms(3) 2(5) both len(2)] by blast
  obtain pr4 s4 where 4: "producer_get_metadata conn [''user-events''] (pr3, s3) =
        ((pr4, s4), Ok [topic_metadata_new ''user-events'' 5])" "rel s4 \<sigma>3"
    by (rule own_metadata [OF 3(2), of "''user-events''" 5 pr3]) (use 2(4) 3(3) in simp_all)
  have range: "u32_range 5 = [0, 1, 2, 3, 4]" by (simp add: u32_range_def upt_conv_Cons)
  have print: "for_each topic_lines [topic_metadata_new ''user-events'' 5] ((pr4, s4), ?lines) =
      (((pr4, s4), ?lines @ TopicLine ''user-events'' 5 # map (\<lambda>q. PartitionLine q 0) [0, 1, 2, 3, 4]), Ok ())"
    by (simp add: topic_lines_def run_then_def topic_metadata_new_def range partition_metadata_new_def)
  have connect: "connect_with_partitioner (Inr s) () = Ok (pr, s)" by (simp add: connect_with_partitioner_def pr_def)
  have "partitioner_producer bord H clock conn (Inr s) = Ok (((pr4, s4), ?lines @ TopicLine ''user-events'' 5 #
      map (\<lambda>q. PartitionLine q 0) [0, 1, 2, 3, 4]), Ok ())"
    unfolding partitioner_producer_def connect and_then.simps
    using 1(1) 2(1) 3(1) 4(1) print
    by (simp add: within_simps run_then_def del: for_each.simps login_lines.simps)
  then show ?thesis
    using 4(2) 2(4) 3(3,4) by (intro exI [of _ pr4] exI [of _ s4] exI [of _ \<sigma>3]) simp
qed

end

text \<open>
  The partitioner example on a broker that has started on an empty directory, for every hash function
  and every iteration order: it ends without an error and prints for every login the number of earlier
  messages of its partition as the offset. Afterwards a reader finds in every partition of the
  topic the messages whose keys hash to it and no others, in the order in which they were sent.
\<close>

theorem partitioner_example_keeps_keys_together:
  assumes "codecs_ok C" and "0 < cfg_replication_factor config" and "is_order ford"
    and "broker_new C now config None [] = Ok b0" and "\<forall>i. env_ok (es i)" and "is_order bord"
  shows "\<exists>pr st. partitioner_producer bord H clock (broker_link C es) (Inr (0, broker_start ford b0)) =
           Ok (((pr, st), login_lines H clock [] (enumerate 0 login_users) @ TopicLine ''user-events'' 5 #
             map (\<lambda>q. PartitionLine q 0) [0, 1, 2, 3, 4]), Ok ()) \<and>
         (\<forall>q. q < 5 \<longrightarrow> shows_log (broker_link C es) st ''user-events'' q (filter (\<lambda>m. place H 5 m = q)
            (map (login_message clock) (enumerate 0 login_users) @
             map (batch_message clock) [1, 2, 3, 4, 5, 6, 7, 8, 9, 10])))"
proof -
  note start = link_rel_start [OF assms(1-5), of 0]
  have "qu_topics (queue_new now config) ''user-events'' = None" by (simp add: queue_new_def)
  from queued.partitioner_producer_runs [OF start this assms(6), of H clock]
  obtain pr st \<sigma> where run: "partitioner_producer bord H clock (broker_link C es) (Inr (0, broker_start ford b0)) =
      Ok (((pr, st), login_lines H clock [] (enumerate 0 login_users) @ TopicLine ''user-events'' 5 #
        map (\<lambda>q. PartitionLine q 0) [0, 1, 2, 3, 4]), Ok ())"
    and rel: "link_rel C es st \<sigma>" "qu_topics \<sigma> ''user-events'' = Some 5"
    and logs: "\<forall>q. qu_log \<sigma> (''user-events'', q) = filter (\<lambda>m. place H 5 m = q)
        (map (login_message clock) (enumerate 0 login_users) @ map (batch_message clock) [1, 2, 3, 4, 5, 6, 7, 8, 9, 10])"
    by blast
  from queued.rel_shows_log [OF rel] run show ?thesis unfolding logs [rule_format] by blast
qed

definition parity_hash :: "bytes \<Rightarrow> u64" where
  "parity_hash k = ucast (last k)"

theorem partitioner_example_keeps_keys_together_witness:
  "\<exists>pr st. partitioner_producer rev parity_hash (\<lambda>_. 7) (broker_link demo_codecs (\<lambda>_. sample_env))
       (Inr (0, broker_start rev sample_broker)) =
     Ok (((pr, st), [LoginSent 1 ''user-123'' 0, LoginSent 2 ''user-456'' 0, LoginSent 3 ''user-789'' 0,
       LoginSent 4 ''user-123'' 1, LoginSent 5 ''user-456'' 1, TopicLine ''user-events'' 5,
       PartitionLine 0 0, PartitionLine 1 0, PartitionLine 2 0, PartitionLine 3 0, PartitionLine 4 0]), Ok ())"
proof -
  have "\<exists>pr st. partitioner_producer rev parity_hash (\<lambda>_. 7) (broker_link demo_codecs (\<lambda>_. sample_env))
       (Inr (0, broker_start rev sample_broker)) =
     Ok (((pr, st), login_lines parity_hash (\<lambda>_. 7) [] (enumerate 0 login_users) @ TopicLine ''user-events'' 5 #
        map (\<lambda>q. PartitionLine q 0) [0, 1, 2, 3, 4]), Ok ())"
    using partitioner_example_keeps_keys_together [OF demo_codecs_ok sample_start(1) is_order_rev sample_broker_new
        _ is_order_rev, of "\<lambda>_. sample_env" parity_hash "\<lambda>_. 7"] sample_start(2) by fastforce
  moreover have "login_lines parity_hash (\<lambda>_. 7) [] (enumerate 0 login_users) = [LoginSent 1 ''user-123'' 0,
      LoginSent 2 ''user-456'' 0, LoginSent 3 ''user-789'' 0, LoginSent 4 ''user-123'' 1, LoginSent 5 ''user-456'' 1]"
    by (simp add: login_users_def place_def login_message_def with_key_def message_new_def parity_hash_def
        hash_bytes_def text_bytes_def)
  ultimately show ?thesis by simp
qed
section \<open>The producer for consumer groups\<close>

definition pair_batches :: "(nat \<Rightarrow> nat) \<Rightarrow> nat list \<Rightarrow> (string \<times> u32 \<times> message list) list" where
  "pair_batches clock ks =
     concat (map (\<lambda>i. [(''events'', 0, [event_message clock i]), (''logs'', 0, [log_message clock i])]) ks)"

lemma sent_to_pairs:
  "sent_to t q (pair_batches clock ks) =
     (if (t, q) = (''events'', 0) then map (event_message clock) ks
      else if (t, q) = (''logs'', 0) then map (log_message clock) ks else [])"
  by (induction ks) (auto simp: pair_batches_def)

lemma pair_light:
  assumes "i < 10 ^ 3"
  shows "light_message (event_message clock i)" and "light_message (log_message clock i)"
proof -
  have "length (show_nat i) \<le> 3" "length (show_nat (i mod 5)) \<le> 3"
    using assms by (auto intro: length_show_nat order_le_less_trans [OF mod_less_eq_dividend])
  then show "light_message (event_message clock i)" and "light_message (log_message clock i)"
    by (simp_all add: light_message_def event_message_def log_message_def with_key_def message_new_def Let_def)
qed

context queue_service
begin

lemma pair_loop_sends:
  assumes "rel s \<sigma>" and "qu_topics \<sigma> ''events'' = Some n" and "qu_topics \<sigma> ''logs'' = Some m" and "0 < n" and "0 < m"
    and "list_all (\<lambda>i. i < 10 ^ 3) ks"
    and "list_all light_message (qu_log \<sigma> (''events'', 0))" and "list_all light_message (qu_log \<sigma> (''logs'', 0))"
    and "length (qu_log \<sigma> (''events'', 0)) + length ks < 2 ^ 32" and "length (qu_log \<sigma> (''logs'', 0)) + length ks < 2 ^ 32"
  shows "\<exists>s'. for_each (produce_pair clock conn) ks ((pr, s), out) =
             (((pr, s'), out @ filter (\<lambda>i. i mod 10 = 0) (map Suc ks)), Ok ()) \<and>
           rel s' (fold queue_append (pair_batches clock ks) \<sigma>)"
  using assms
proof (induction ks arbitrary: s \<sigma> out)
  case (Cons i ks)
  let ?e = "event_message clock i" and ?l = "log_message clock i"
  let ?\<sigma>1 = "queue_append (''events'', 0, [?e]) \<sigma>"
  let ?\<sigma>2 = "queue_append (''logs'', 0, [?l]) ?\<sigma>1"
  have light: "light_message ?e" "light_message ?l" using Cons.prems(6) pair_light by auto
  obtain s1 where 1: "send conn ''events'' 0 [?e] (pr, s) = ((pr, s1), Ok (of_nat (length (qu_log \<sigma> (''events'', 0)))))"
      "rel s1 ?\<sigma>1"
    by (rule send_appends [OF Cons.prems(1,2,4), of "[?e]" pr]) (use Cons.prems(7,9) light in simp_all)
  obtain s2 where 2: "send conn ''logs'' 0 [?l] (pr, s1) = ((pr, s2), Ok (of_nat (length (qu_log ?\<sigma>1 (''logs'', 0)))))"
      "rel s2 ?\<sigma>2"
    by (rule send_appends [OF 1(2) _ Cons.prems(5), of "''logs''" "[?l]" pr]) (use Cons.prems(3,8,10) light in simp_all)
  have step: "produce_pair clock conn i ((pr, s), out) =
      (((pr, s2), out @ filter (\<lambda>i. i mod 10 = 0) [Suc i]), Ok ())"
    using 1(1) 2(1) by (simp add: produce_pair_def within_simps)
  have "\<exists>s'. for_each (produce_pair clock conn) ks ((pr, s2), out @ filter (\<lambda>i. i mod 10 = 0) [Suc i]) =
        (((pr, s'), (out @ filter (\<lambda>i. i mod 10 = 0) [Suc i]) @ filter (\<lambda>i. i mod 10 = 0) (map Suc ks)), Ok ()) \<and>
      rel s' (fold queue_append (pair_batches clock ks) ?\<sigma>2)"
    by (rule Cons.IH [OF 2(2) _ _ Cons.prems(4,5)]) (use Cons.prems light in simp_all)
  then show ?case using step by (auto simp: pair_batches_def)
qed (simp add: pair_batches_def)

lemma producer_for_groups_runs:
  assumes "rel s \<sigma>" and "qu_topics \<sigma> ''events'' = None" and "qu_topics \<sigma> ''logs'' = None"
  shows "\<exists>pr s'. producer_for_groups clock conn (Inr s) = Ok (((pr, s'), [10, 20, 30, 40, 50]), Ok ()) \<and>
           rel s' (fold queue_append (pair_batches clock [0..<50]) (queue_create ''logs'' 2 (queue_create ''events'' 4 \<sigma>)))"
proof -
  define pr where "pr = \<lparr>pr_partitioner = round_robin_new, pr_metadata_cache = []\<rparr>"
  let ?\<sigma> = "queue_create ''logs'' 2 (queue_create ''events'' 4 \<sigma>)"
  obtain s1 where 1: "producer_create_topic conn ''events'' 4 (pr, s) = ((pr, s1), Ok ())"
      "rel s1 (queue_create ''events'' 4 \<sigma>)"
    by (rule create_new [OF assms(1,2)])
  obtain s2 where 2: "producer_create_topic conn ''logs'' 2 (pr, s1) = ((pr, s2), Ok ())" "rel s2 ?\<sigma>"
    by (rule create_new [OF 1(2), of "''logs''"]) (use assms(3) in simp_all)
  have small: "list_all (\<lambda>i. i < 10 ^ 3) [0..<50]" by (simp add: list_all_iff)
  have lines: "filter (\<lambda>i. i mod 10 = 0) (map Suc [0..<50]) = [10, 20, 30, 40, 50]" by (simp add: upt_conv_Cons)
  have "\<exists>s'. for_each (produce_pair clock conn) [0..<50] ((pr, s2), []) =
        (((pr, s'), [] @ filter (\<lambda>i. i mod 10 = 0) (map Suc [0..<50])), Ok ()) \<and>
      rel s' (fold queue_append (pair_batches clock [0..<50]) ?\<sigma>)"
    by (rule pair_loop_sends [OF 2(2) _ _ _ _ small, of 4 2]) simp_all
  then obtain s3 where 3: "for_each (produce_pair clock conn) [0..<50] ((pr, s2), []) = (((pr, s3), [10, 20, 30, 40, 50]), Ok ())"
      "rel s3 (fold queue_append (pair_batches clock [0..<50]) ?\<sigma>)"
    unfolding lines by auto
  have connect: "producer_connect (Inr s) = Ok (pr, s)"
    by (simp add: producer_connect_def connect_with_partitioner_def pr_def)
  have "producer_for_groups clock conn (Inr s) = Ok (((pr, s3), [10, 20, 30, 40, 50]), Ok ())"
    unfolding producer_for_groups_def connect and_then.simps
    using 1(1) 2(1) 3(1) by (simp add: within_simps run_then_def del: for_each.simps upt_rec_numeral)
  then show ?thesis using 3(2) by blast
qed

end

text \<open>
  The producer for consumer groups on a broker that has started on an empty directory ends without an
  error, and partition 0 of each of its topics then holds the fifty messages in order. All other
  partitions are empty, so of several members of a group that share a topic
  only the one with partition 0 is ever given a message.
\<close>

theorem groups_example_fills_one_partition:
  assumes "codecs_ok C" and "0 < cfg_replication_factor config" and "is_order ford"
    and "broker_new C now config None [] = Ok b0" and "\<forall>i. env_ok (es i)"
  shows "\<exists>pr st. producer_for_groups clock (broker_link C es) (Inr (0, broker_start ford b0)) =
           Ok (((pr, st), [10, 20, 30, 40, 50]), Ok ()) \<and>
         (\<forall>q. q < 4 \<longrightarrow> shows_log (broker_link C es) st ''events'' q
            (if q = 0 then map (event_message clock) [0..<50] else [])) \<and>
         (\<forall>q. q < 2 \<longrightarrow> shows_log (broker_link C es) st ''logs'' q
            (if q = 0 then map (log_message clock) [0..<50] else []))"
proof -
  note start = link_rel_start [OF assms, of 0]
  have none: "qu_topics (queue_new now config) t = None" for t by (simp add: queue_new_def)
  let ?\<sigma> = "fold queue_append (pair_batches clock [0..<50])
      (queue_create ''logs'' 2 (queue_create ''events'' 4 (queue_new now config)))"
  obtain pr st where run: "producer_for_groups clock (broker_link C es) (Inr (0, broker_start ford b0)) =
      Ok (((pr, st), [10, 20, 30, 40, 50]), Ok ())"
    and rel: "link_rel C es st ?\<sigma>"
    using queued.producer_for_groups_runs [OF start none none, of clock] by blast
  have topics: "qu_topics ?\<sigma> ''events'' = Some 4" "qu_topics ?\<sigma> ''logs'' = Some 2" by simp_all
  have logs: "qu_log ?\<sigma> (''events'', q) = (if q = 0 then map (event_message clock) [0..<50] else [])"
      "qu_log ?\<sigma> (''logs'', q) = (if q = 0 then map (log_message clock) [0..<50] else [])" for q
    by (simp_all add: sent_to_pairs del: upt_rec_numeral)
  show ?thesis
    using run queued.rel_shows_log [OF rel topics(1)] queued.rel_shows_log [OF rel topics(2)] unfolding logs by blast
qed

theorem groups_example_fills_one_partition_witness:
  "\<exists>pr st. producer_for_groups (\<lambda>_. 7) (broker_link demo_codecs (\<lambda>_. sample_env)) (Inr (0, broker_start rev sample_broker)) =
       Ok (((pr, st), [10, 20, 30, 40, 50]), Ok ()) \<and>
     shows_log (broker_link demo_codecs (\<lambda>_. sample_env)) st ''events'' 3 []"
proof -
  obtain pr st where
    "producer_for_groups (\<lambda>_. 7) (broker_link demo_codecs (\<lambda>_. sample_env)) (Inr (0, broker_start rev sample_broker)) =
       Ok (((pr, st), [10, 20, 30, 40, 50]), Ok ())"
    "\<forall>q. q < 4 \<longrightarrow> shows_log (broker_link demo_codecs (\<lambda>_. sample_env)) st ''events'' q
       (if q = 0 then map (event_message (\<lambda>_. 7)) [0..<50] else [])"
    using groups_example_fills_one_partition [OF demo_codecs_ok sample_start(1) is_order_rev sample_broker_new,
        of "\<lambda>_. sample_env" "\<lambda>_. 7"] sample_start(2) by blast
  then show ?thesis by (intro exI [of _ pr] exI [of _ st] conjI) (auto dest: spec [of _ 3])
qed

end
