(* ===== verification/Group_Example.thy ===== *)
theory Group_Example
  imports Partitioned_Examples
begin

text \<open>
  The consumer group example on the broker: a member that reads the partitions it was assigned from
  the committed offsets on, and commits what it has read.
\<close>

section \<open>Members of a group on a service that implements the queue\<close>

definition queue_committed :: "queue \<Rightarrow> string \<Rightarrow> string \<times> u32 \<Rightarrow> u64" where
  "queue_committed \<sigma> g tp =
     (case qu_offsets \<sigma> (g, fst tp, snd tp) of Some off \<Rightarrow> off | None \<Rightarrow> 0)"

definition queue_commit :: "string \<Rightarrow> (string \<times> u32) \<times> u64 \<Rightarrow> queue \<Rightarrow> queue" where
  "queue_commit g x \<sigma> =
     (case x of ((t, p), off) \<Rightarrow> \<sigma>\<lparr>qu_offsets := (qu_offsets \<sigma>)((g, t, p) \<mapsto> off)\<rparr>)"

lemma queue_commit_simps [simp]:
  "qu_topics (queue_commit g x \<sigma>) = qu_topics \<sigma>"
  "qu_log (queue_commit g x \<sigma>) = qu_log \<sigma>"
  "queue_committed (queue_commit g x \<sigma>) g tp = (if tp = fst x then snd x else queue_committed \<sigma> g tp)"
  by (auto simp: queue_commit_def queue_committed_def split: prod.split)

lemma queue_commits:
  "qu_topics (fold (queue_commit g) os \<sigma>) = qu_topics \<sigma>"
  "qu_log (fold (queue_commit g) os \<sigma>) = qu_log \<sigma>"
  "hm_ok os \<Longrightarrow> queue_committed (fold (queue_commit g) os \<sigma>) g tp =
     (case hm_get os tp of Some off \<Rightarrow> off | None \<Rightarrow> queue_committed \<sigma> g tp)"
proof (induction os arbitrary: \<sigma>)
  case (Cons x os)
  case 1 show ?case using Cons.IH(1) by simp
  case 2 show ?case using Cons.IH(2) by simp
  case 3
  then have "hm_ok os" "hm_get os (fst x) = None" by (cases x, auto simp: hm_ok_def map_of_eq_None_iff)+
  then show ?case using Cons.IH(3) by (cases x) (auto split: option.split)
qed simp_all

text \<open>The offsets that a member has after it has fetched the committed ones.\<close>

definition resumed :: "queue \<Rightarrow> string \<Rightarrow> partition_assignment list \<Rightarrow> (string \<times> u32, u64) hashmap \<Rightarrow> (string \<times> u32, u64) hashmap" where
  "resumed \<sigma> g as offs =
     fold (\<lambda>a. hm_insert (pa_topic a, pa_partition a) (queue_committed \<sigma> g (pa_topic a, pa_partition a))) as offs"

lemma resumed_get:
  "hm_get (resumed \<sigma> g as offs) tp =
     (if tp \<in> (\<lambda>a. (pa_topic a, pa_partition a)) ` set as then Some (queue_committed \<sigma> g tp) else hm_get offs tp)"
  by (induction as arbitrary: offs) (auto simp: resumed_def hashmap_simps)

lemma resumed_ok: "hm_ok offs \<Longrightarrow> hm_ok (resumed \<sigma> g as offs)"
  by (induction as arbitrary: offs) (simp_all add: resumed_def hashmap_simps)

text \<open>What a member stands on: its offsets are the committed ones, and lie within the logs.\<close>

definition at_committed :: "consumer \<Rightarrow> queue \<Rightarrow> string \<Rightarrow> bool" where
  "at_committed c \<sigma> g \<longleftrightarrow>
     cs_group_id c = Some g \<and> cs_auto_commit c \<and> hm_ok (cs_offsets c) \<and> distinct (cs_assignments c) \<and>
     (\<forall>tp off. hm_get (cs_offsets c) tp = Some off \<longrightarrow> queue_committed \<sigma> g tp = off) \<and>
     (\<forall>a \<in> set (cs_assignments c). let tp = (pa_topic a, pa_partition a) in
        hm_get (cs_offsets c) tp \<noteq> None \<and> queue_find \<sigma> (pa_topic a) (pa_partition a) = Ok (qu_log \<sigma> tp) \<and>
        unat (queue_committed \<sigma> g tp) \<le> length (qu_log \<sigma> tp))"

lemma poll_loop_offsets:
  assumes "poll_loop conn n tps (c, s) = ((c', s'), Ok records)"
  shows "(records = [] \<longrightarrow> c' = c) \<and> (\<forall>k. hm_get (cs_offsets c) k \<noteq> None \<longrightarrow> hm_get (cs_offsets c') k \<noteq> None)"
  using assms
proof (induction tps arbitrary: c s c' s' records)
  case (Cons tp tps)
  obtain t p where tp: "tp = (t, p)" by (cases tp)
  obtain c1 s1 r1 where 1: "poll_partition conn n t p (c, s) = ((c1, s1), r1)" by (metis surj_pair)
  obtain rs where r1: "r1 = Ok rs" using Cons.prems tp 1 by (cases r1) simp_all
  obtain c2 s2 r2 where 2: "poll_loop conn n tps (c1, s1) = ((c2, s2), r2)" by (metis surj_pair)
  obtain more where r2: "r2 = Ok more" using Cons.prems tp 1 r1 2 by (cases r2) simp_all
  have eq: "c' = c2" "records = rs @ more" using Cons.prems tp 1 r1 2 r2 by simp_all
  have first: "(rs = [] \<longrightarrow> c1 = c) \<and> (\<forall>k. hm_get (cs_offsets c) k \<noteq> None \<longrightarrow> hm_get (cs_offsets c1) k \<noteq> None)"
    using 1 r1
    by (auto simp: poll_partition_def consumer_fetch_def run_then_def ask_def Let_def unexpected_def hashmap_simps
        split: prod.splits outcome.splits response.splits if_splits)
  show ?case using first Cons.IH [OF 2 [unfolded r2]] eq by auto
qed simp

context queue_service
begin

lemma init_offsets_resumes:
  assumes "rel s \<sigma>" and "cs_group_id c = Some g"
  shows "\<exists>s'. init_offsets conn as (c, s) = ((c\<lparr>cs_offsets := resumed \<sigma> g as (cs_offsets c)\<rparr>, s'), Ok ()) \<and> rel s' \<sigma>"
  using assms
proof (induction as arbitrary: c s)
  case (Cons a as)
  let ?off = "queue_committed \<sigma> g (pa_topic a, pa_partition a)"
  let ?c = "c\<lparr>cs_offsets := hm_insert (pa_topic a, pa_partition a) ?off (cs_offsets c)\<rparr>"
  obtain s1 resp where 1: "ask conn (FetchOffset g (pa_topic a) (pa_partition a)) (c, s) = ((c, s1), Ok resp)"
      "queue_answers (env s) \<sigma> (FetchOffset g (pa_topic a) (pa_partition a)) resp"
      "rel s1 (queue_next (env s) (FetchOffset g (pa_topic a) (pa_partition a)) \<sigma>)"
    by (rule ask_served [OF Cons.prems(1), of "FetchOffset g (pa_topic a) (pa_partition a)" c]) simp_all
  then have "fetch_committed_offset conn (pa_topic a) (pa_partition a) (c, s) = ((c, s1), Ok ?off)"
    using Cons.prems(2) by (simp add: fetch_committed_offset_def queue_committed_def)
  moreover obtain s2 where "init_offsets conn as (?c, s1) = ((?c\<lparr>cs_offsets := resumed \<sigma> g as (cs_offsets ?c)\<rparr>, s2), Ok ())"
      "rel s2 \<sigma>"
    using Cons.IH [of s1 ?c] 1(3) Cons.prems(2) by auto
  ultimately show ?case by (intro exI [of _ s2]) (simp add: resumed_def)
qed (auto simp: resumed_def)

text \<open>Joining a group: the partitions exist, and the member stands at the committed offsets.\<close>

lemma join_group_resumes:
  assumes "rel s \<sigma>" and "cs_group_id c = Some g"
  obtains c' s' \<sigma>' where "consumer_join_group conn ts (c, s) = ((c', s'), Ok ())" and "rel s' \<sigma>'"
    and "qu_topics \<sigma>' = qu_topics \<sigma>" and "qu_log \<sigma>' = qu_log \<sigma>" and "qu_offsets \<sigma>' = qu_offsets \<sigma>"
    and "distinct (cs_assignments c')"
    and "\<forall>a \<in> set (cs_assignments c'). is_ok (queue_find \<sigma> (pa_topic a) (pa_partition a))"
    and "cs_offsets c' = resumed \<sigma> g (cs_assignments c') (cs_offsets c)"
    and "cs_group_id c' = Some g" and "cs_auto_commit c' = cs_auto_commit c" and "cs_member_id c' \<noteq> None"
proof -
  let ?\<sigma> = "queue_next (env s) (JoinGroup g (cs_member_id c) ts) \<sigma>"
  obtain s1 resp where 1: "ask conn (JoinGroup g (cs_member_id c) ts) (c, s) = ((c, s1), Ok resp)"
      "queue_answers (env s) \<sigma> (JoinGroup g (cs_member_id c) ts) resp" "rel s1 ?\<sigma>"
    by (rule ask_served [OF assms(1), of "JoinGroup g (cs_member_id c) ts" c]) simp_all
  then obtain m asg where j: "resp = JoinGroupSuccess g m asg" "distinct asg"
      "\<forall>a \<in> set asg. is_ok (queue_find \<sigma> (pa_topic a) (pa_partition a))"
    by auto
  let ?c1 = "c\<lparr>cs_member_id := Some m, cs_assignments := asg\<rparr>"
  obtain s2 where 2: "init_offsets conn asg (?c1, s1) = ((?c1\<lparr>cs_offsets := resumed ?\<sigma> g asg (cs_offsets ?c1)\<rparr>, s2), Ok ())"
      "rel s2 ?\<sigma>"
    using init_offsets_resumes [OF 1(3), of ?c1 g asg] assms(2) by auto
  let ?c2 = "?c1\<lparr>cs_offsets := resumed ?\<sigma> g asg (cs_offsets c), cs_heartbeat_task := Some (cs_next_task c),
      cs_tasks := hm_insert (cs_next_task c) (g, m) (cs_tasks c), cs_next_task := Suc (cs_next_task c)\<rparr>"
  have "consumer_join_group conn ts (c, s) = ((?c2, s2), Ok ())"
    using assms(2) 1(1) j(1) 2(1) by (simp add: consumer_join_group_def start_heartbeat_task_def)
  moreover have "resumed ?\<sigma> g asg (cs_offsets c) = resumed \<sigma> g asg (cs_offsets c)"
    by (simp add: resumed_def queue_committed_def)
  ultimately show thesis
    using 2(2) j(2,3) assms(2) by (intro that [of ?c2 s2 ?\<sigma>]) simp_all
qed

text \<open>A poll reads only; whatever it returns, the queue is the same.\<close>

lemma poll_loop_rel:
  assumes "rel s \<sigma>" and "poll_loop conn n tps (c, s) = ((c', s'), r)"
  shows "rel s' \<sigma>"
  using assms
proof (induction tps arbitrary: c s c' s' r)
  case (Cons tp tps)
  obtain t p where tp: "tp = (t, p)" by (cases tp)
  let ?off = "case hm_get (cs_offsets c) (t, p) of Some off \<Rightarrow> off | None \<Rightarrow> 0"
  obtain s1 resp where 1: "ask conn (Fetch t p ?off n) (c, s) = ((c, s1), Ok resp)" "rel s1 \<sigma>"
    by (rule ask_served [OF Cons.prems(1), of "Fetch t p ?off n" c]) simp_all
  have "snd (fst (poll_partition conn n t p (c, s))) = s1"
    using 1(1) by (simp add: poll_partition_def consumer_fetch_def run_then_def split: response.split outcome.split)
  then obtain c1 r1 where 2: "poll_partition conn n t p (c, s) = ((c1, s1), r1)" by (metis prod.collapse)
  show ?case
  proof (cases r1)
    case (Ok records)
    obtain c2 s2 r2 where 3: "poll_loop conn n tps (c1, s1) = ((c2, s2), r2)" by (metis surj_pair)
    from Cons.IH [OF 1(2) 3] have "rel s2 \<sigma>" .
    moreover have "s' = s2" using Cons.prems(2) tp 2 Ok 3 by (cases r2) (simp_all add: run_then_def)
    ultimately show ?thesis by simp
  qed (use Cons.prems(2) tp 1(2) 2 in simp_all)
qed simp

lemma commit_loop_commits:
  assumes "rel s \<sigma>"
  shows "\<exists>s'. commit_loop conn g os (c, s) = ((c, s'), Ok ()) \<and> rel s' (fold (queue_commit g) os \<sigma>)"
  using assms
proof (induction os arbitrary: s \<sigma>)
  case (Cons x os)
  obtain t p off where x: "x = ((t, p), off)" by (metis surj_pair)
  obtain s1 resp where 1: "ask conn (CommitOffset g t p off) (c, s) = ((c, s1), Ok resp)"
      "queue_answers (env s) \<sigma> (CommitOffset g t p off) resp" "rel s1 (queue_next (env s) (CommitOffset g t p off) \<sigma>)"
    by (rule ask_served [OF Cons.prems, of "CommitOffset g t p off" c]) simp_all
  have "queue_next (env s) (CommitOffset g t p off) \<sigma> = queue_commit g x \<sigma>" by (simp add: queue_commit_def x)
  then obtain s2 where "commit_loop conn g os (c, s1) = ((c, s2), Ok ())"
      "rel s2 (fold (queue_commit g) os (queue_commit g x \<sigma>))"
    using Cons.IH [of s1 "queue_commit g x \<sigma>"] 1(3) by auto
  then show ?case using 1(1,2) x by auto
qed simp

lemma poll_group_turn:
  assumes "rel s \<sigma>" and "at_committed c \<sigma> g" and "is_order oord"
  shows "\<exists>c' s' \<sigma>' got. poll_group oord conn 10 (c, s) = ((c', s'), Ok got) \<and> rel s' \<sigma>' \<and> at_committed c' \<sigma>' g \<and>
           cs_assignments c' = cs_assignments c \<and> cs_member_id c' = cs_member_id c \<and> qu_log \<sigma>' = qu_log \<sigma> \<and>
           (\<forall>a \<in> set (cs_assignments c). let t = pa_topic a; q = pa_partition a in
              of_partition t q got = take 10 (drop (unat (queue_committed \<sigma> g (t, q))) (history t q (qu_log \<sigma> (t, q)))) \<and>
              unat (queue_committed \<sigma>' g (t, q)) = min (length (qu_log \<sigma> (t, q))) (unat (queue_committed \<sigma> g (t, q)) + 10))"
proof -
  let ?tps = "map (\<lambda>a. (pa_topic a, pa_partition a)) (cs_assignments c)"
  let ?recs = "\<lambda>t q. history t q (qu_log \<sigma> (t, q))"
  have c: "cs_group_id c = Some g" "cs_auto_commit c" "hm_ok (cs_offsets c)" "distinct (cs_assignments c)"
      "\<And>tp off. hm_get (cs_offsets c) tp = Some off \<Longrightarrow> queue_committed \<sigma> g tp = off"
    using assms(2) unfolding at_committed_def by blast+
  have part: "hm_get (cs_offsets c) (t, q) \<noteq> None" "queue_find \<sigma> t q = Ok (qu_log \<sigma> (t, q))"
      "unat (queue_committed \<sigma> g (t, q)) \<le> length (qu_log \<sigma> (t, q))" if "(t, q) \<in> set ?tps" for t q
    using that assms(2) by (auto simp: at_committed_def Let_def)
  have pos: "position c t q = unat (queue_committed \<sigma> g (t, q))" if "(t, q) \<in> set ?tps" for t q
    using part(1) [OF that] c(5) [of "(t, q)"] by (auto simp: position_def)
  have tps: "distinct ?tps"
    using c(4) by (auto simp: distinct_map inj_on_def)
  have ready: "\<forall>(t, q) \<in> set ?tps. service_holds rel s t q (?recs t q) \<and> position c t q \<le> length (?recs t q)"
    using part pos assms(1) unfolding service_holds_def by fastforce
  obtain offs s1 where 1: "poll_loop conn 10 ?tps (c, s) = ((c\<lparr>cs_offsets := offs\<rparr>, s1),
        Ok (concat (map (\<lambda>(t, q). take (unat (10 :: u32)) (drop (position c t q) (?recs t q))) ?tps)))"
      "\<forall>(t, q) \<in> set ?tps. position (c\<lparr>cs_offsets := offs\<rparr>) t q =
        min (length (?recs t q)) (position c t q + unat (10 :: u32))" "hm_ok (cs_offsets c) \<longrightarrow> hm_ok offs"
    by (rule reader.poll_loop_reads [OF tps ready])
  define got where "got = concat (map (\<lambda>(t, q). take 10 (drop (position c t q) (?recs t q))) ?tps)"
  have run: "poll_loop conn 10 ?tps (c, s) = ((c\<lparr>cs_offsets := offs\<rparr>, s1), Ok got)" using 1(1) by (simp add: got_def)
  have rel1: "rel s1 \<sigma>" by (rule poll_loop_rel [OF assms(1) run])
  note kept = poll_loop_offsets [OF run]
  have here: "of_partition t q got = take 10 (drop (unat (queue_committed \<sigma> g (t, q))) (?recs t q))"
    if tq: "(t, q) \<in> set ?tps" for t q
    unfolding got_def pos [OF tq, symmetric]
    by (rule of_partition_concat [OF tps tq]) (auto intro: labelled_slice labelled_history)
  have moved: "position (c\<lparr>cs_offsets := offs\<rparr>) t q = min (length (qu_log \<sigma> (t, q))) (unat (queue_committed \<sigma> g (t, q)) + 10)"
    if tq: "(t, q) \<in> set ?tps" for t q
    using 1(2) tq pos [OF tq] by fastforce
  show ?thesis
  proof (cases "got = []")
    case True
    then have same: "c\<lparr>cs_offsets := offs\<rparr> = c" using kept by simp
    have "poll_group oord conn 10 (c, s) = ((c, s1), Ok got)"
      using run True unfolding same by (cases "cs_assignments c") (simp_all add: poll_group_def)
    moreover have "unat (queue_committed \<sigma> g (t, q)) = min (length (qu_log \<sigma> (t, q))) (unat (queue_committed \<sigma> g (t, q)) + 10)"
      if tq: "(t, q) \<in> set ?tps" for t q
      using moved [OF tq] unfolding same pos [OF tq] .
    ultimately show ?thesis
      using rel1 assms(2) here by (intro exI [of _ c] exI [of _ s1] exI [of _ \<sigma>] exI [of _ got]) (auto simp: Let_def)
  next
    case False
    then have ne: "cs_assignments c \<noteq> []" by (auto simp: got_def)
    let ?c = "c\<lparr>cs_offsets := offs\<rparr>" and ?\<sigma> = "fold (queue_commit g) (oord offs) \<sigma>"
    have "hm_ok offs" using 1(3) c(3) by blast
    note ord = hm_permuted [OF order_mset [OF assms(3)] this]
    obtain s2 where 2: "commit_loop conn g (oord offs) (?c, s1) = ((?c, s2), Ok ())" "rel s2 ?\<sigma>"
      using commit_loop_commits [OF rel1, of g "oord offs" ?c] by blast
    have "poll_group oord conn 10 (c, s) = ((?c, s2), Ok got)"
      using ne run c(1,2) False 2(1) by (simp add: poll_group_def commit_offsets_def)
    moreover have committed: "queue_committed ?\<sigma> g tp = (case hm_get offs tp of Some off \<Rightarrow> off | None \<Rightarrow> queue_committed \<sigma> g tp)" for tp
      using queue_commits(3) [OF ord(1), of g \<sigma> tp] ord(2) by simp
    moreover have at: "unat (queue_committed ?\<sigma> g (t, q)) = min (length (qu_log \<sigma> (t, q))) (unat (queue_committed \<sigma> g (t, q)) + 10)"
      "hm_get offs (t, q) \<noteq> None" if tq: "(t, q) \<in> set ?tps" for t q
    proof -
      obtain off where off: "hm_get offs (t, q) = Some off" using kept part(1) [OF tq] by auto
      then show "hm_get offs (t, q) \<noteq> None" by simp
      show "unat (queue_committed ?\<sigma> g (t, q)) = min (length (qu_log \<sigma> (t, q))) (unat (queue_committed \<sigma> g (t, q)) + 10)"
        using moved [OF tq] off by (simp add: committed position_def)
    qed
    moreover have "at_committed ?c ?\<sigma> g"
      unfolding at_committed_def Let_def
    proof (intro conjI ballI allI impI)
      fix a
      assume "a \<in> set (cs_assignments ?c)"
      then have a: "(pa_topic a, pa_partition a) \<in> set ?tps" by auto
      show "hm_get (cs_offsets ?c) (pa_topic a, pa_partition a) \<noteq> None" using at(2) [OF a] by simp
      show "queue_find ?\<sigma> (pa_topic a) (pa_partition a) = Ok (qu_log ?\<sigma> (pa_topic a, pa_partition a))"
        using part(2) [OF a] unfolding queue_find_def queue_commits(1,2) .
      show "unat (queue_committed ?\<sigma> g (pa_topic a, pa_partition a)) \<le> length (qu_log ?\<sigma> (pa_topic a, pa_partition a))"
        using at(1) [OF a] by (simp add: queue_commits(2))
    qed (use c \<open>hm_ok offs\<close> committed in simp_all)
    ultimately show ?thesis
      using 2(2) here queue_commits(2)
      by (intro exI [of _ ?c] exI [of _ s2] exI [of _ ?\<sigma>] exI [of _ got]) (auto simp: Let_def)
  qed
qed

lemma group_loop_reads:
  assumes "rel s \<sigma>" and "at_committed c \<sigma> g" and "is_order oord"
  shows "\<exists>c' s' \<sigma>' more. consumer_group_loop k oord conn ((c, s), out) = (((c', s'), out @ more), Ok False) \<and>
           rel s' \<sigma>' \<and> cs_assignments c' = cs_assignments c \<and> cs_member_id c' = cs_member_id c \<and>
           (\<forall>a \<in> set (cs_assignments c). let t = pa_topic a; q = pa_partition a in
              of_partition t q more =
                take (k * 10) (drop (unat (queue_committed \<sigma> g (t, q))) (history t q (qu_log \<sigma> (t, q)))) \<and>
              unat (queue_committed \<sigma>' g (t, q)) =
                min (length (qu_log \<sigma> (t, q))) (unat (queue_committed \<sigma> g (t, q)) + k * 10))"
  using assms(1,2)
proof (induction k arbitrary: c s \<sigma> out)
  case 0
  then show ?case
    by (intro exI [of _ c] exI [of _ s] exI [of _ \<sigma>] exI [of _ "[]"]) (auto simp: at_committed_def Let_def)
next
  case (Suc k)
  obtain c1 s1 \<sigma>1 got where 1: "poll_group oord conn 10 (c, s) = ((c1, s1), Ok got)" "rel s1 \<sigma>1" "at_committed c1 \<sigma>1 g"
      "cs_assignments c1 = cs_assignments c" "cs_member_id c1 = cs_member_id c" "qu_log \<sigma>1 = qu_log \<sigma>"
      "\<forall>a \<in> set (cs_assignments c). let t = pa_topic a; q = pa_partition a in
         of_partition t q got = take 10 (drop (unat (queue_committed \<sigma> g (t, q))) (history t q (qu_log \<sigma> (t, q)))) \<and>
         unat (queue_committed \<sigma>1 g (t, q)) = min (length (qu_log \<sigma> (t, q))) (unat (queue_committed \<sigma> g (t, q)) + 10)"
    using poll_group_turn [OF Suc.prems assms(3)] by blast
  obtain c2 s2 \<sigma>2 more where 2: "consumer_group_loop k oord conn ((c1, s1), out @ got) = (((c2, s2), (out @ got) @ more), Ok False)"
      "rel s2 \<sigma>2" "cs_assignments c2 = cs_assignments c1" "cs_member_id c2 = cs_member_id c1"
      "\<forall>a \<in> set (cs_assignments c1). let t = pa_topic a; q = pa_partition a in
         of_partition t q more =
           take (k * 10) (drop (unat (queue_committed \<sigma>1 g (t, q))) (history t q (qu_log \<sigma>1 (t, q)))) \<and>
         unat (queue_committed \<sigma>2 g (t, q)) =
           min (length (qu_log \<sigma>1 (t, q))) (unat (queue_committed \<sigma>1 g (t, q)) + k * 10)"
    using Suc.IH [OF 1(2,3)] by blast
  have "consumer_group_loop (Suc k) oord conn ((c, s), out) = (((c2, s2), out @ got @ more), Ok False)"
    using 1(1) 2(1) for_each_emit [of "\<lambda>x. x" got "(c1, s1)" out] by (simp add: within_simps run_then_def)
  moreover have "of_partition t q (got @ more) =
        take (Suc k * 10) (drop (unat (queue_committed \<sigma> g (t, q))) (history t q (qu_log \<sigma> (t, q)))) \<and>
      unat (queue_committed \<sigma>2 g (t, q)) =
        min (length (qu_log \<sigma> (t, q))) (unat (queue_committed \<sigma> g (t, q)) + Suc k * 10)"
    if a: "a \<in> set (cs_assignments c)" "t = pa_topic a" "q = pa_partition a" for a t q
  proof -
    let ?x = "unat (queue_committed \<sigma> g (t, q))" and ?h = "history t q (qu_log \<sigma> (t, q))"
    have now: "of_partition t q got = take 10 (drop ?x ?h)"
        "unat (queue_committed \<sigma>1 g (t, q)) = min (length (qu_log \<sigma> (t, q))) (?x + 10)"
      using 1(7) a by (auto simp: Let_def)
    have then': "of_partition t q more = take (k * 10) (drop (unat (queue_committed \<sigma>1 g (t, q))) ?h)"
        "unat (queue_committed \<sigma>2 g (t, q)) = min (length (qu_log \<sigma> (t, q))) (unat (queue_committed \<sigma>1 g (t, q)) + k * 10)"
      using 2(5) 1(4,6) a by (auto simp: Let_def)
    have "?x \<le> length ?h" using Suc.prems(2) a by (auto simp: at_committed_def Let_def)
    then have "take 10 (drop ?x ?h) @ take (k * 10) (drop (min (length ?h) (?x + 10)) ?h) = take (Suc k * 10) (drop ?x ?h)"
      by (simp add: take_add min_def add.commute)
    then show ?thesis using now then' by simp
  qed
  ultimately show ?case
    using 1(4,5) 2(2-4) by (intro exI [of _ c2] exI [of _ s2] exI [of _ \<sigma>2] exI [of _ "got @ more"]) (simp add: Let_def)
qed

lemma consumer_group_reads:
  assumes "rel s \<sigma>" and "is_order oord"
    and "\<forall>t q. is_ok (queue_find \<sigma> t q) \<longrightarrow> unat (queue_committed \<sigma> ''example-group'' (t, q)) \<le> length (qu_log \<sigma> (t, q))"
  shows "\<exists>c s' \<sigma>' out. consumer_group_program k oord conn (Inr s) = Ok (((c, s'), out), Ok ()) \<and> rel s' \<sigma>' \<and>
           cs_member_id c \<noteq> None \<and> distinct (cs_assignments c) \<and>
           (\<forall>a \<in> set (cs_assignments c). let t = pa_topic a; q = pa_partition a in
              of_partition t q out = take (k * 10)
                (drop (unat (queue_committed \<sigma> ''example-group'' (t, q))) (history t q (qu_log \<sigma> (t, q)))) \<and>
              unat (queue_committed \<sigma>' ''example-group'' (t, q)) = min (length (qu_log \<sigma> (t, q)))
                (unat (queue_committed \<sigma> ''example-group'' (t, q)) + k * 10))"
proof -
  let ?g = "''example-group''"
  define c where "c = fst (case consumer_connect (Inr s) of Ok x \<Rightarrow> x)"
  have c: "consumer_connect (Inr s) = Ok (c, s)" "cs_offsets c = []" by (simp_all add: consumer_connect_def c_def)
  let ?c = "with_auto_commit (Some 5000) (with_group_id ?g c)"
  have c': "cs_group_id ?c = Some ?g" "cs_auto_commit ?c" "cs_offsets ?c = []"
    using c(2) by (simp_all add: with_auto_commit_def with_group_id_def Let_def)
  obtain c1 s1 \<sigma>1 where 1: "consumer_join_group conn [''events'', ''logs''] (?c, s) = ((c1, s1), Ok ())" "rel s1 \<sigma>1"
      "qu_topics \<sigma>1 = qu_topics \<sigma>" "qu_log \<sigma>1 = qu_log \<sigma>" "qu_offsets \<sigma>1 = qu_offsets \<sigma>"
      "distinct (cs_assignments c1)"
      "\<forall>a \<in> set (cs_assignments c1). is_ok (queue_find \<sigma> (pa_topic a) (pa_partition a))"
      "cs_offsets c1 = resumed \<sigma> ?g (cs_assignments c1) (cs_offsets ?c)"
      "cs_group_id c1 = Some ?g" "cs_auto_commit c1 = cs_auto_commit ?c" "cs_member_id c1 \<noteq> None"
    by (rule join_group_resumes [OF assms(1) c'(1)])
  have committed: "queue_committed \<sigma>1 ?g = queue_committed \<sigma> ?g" by (simp add: fun_eq_iff queue_committed_def 1(5))
  have find: "queue_find \<sigma>1 = queue_find \<sigma>" by (intro ext) (simp only: queue_find_def 1(3,4))
  have "at_committed c1 \<sigma>1 ?g"
    unfolding at_committed_def Let_def committed find 1(4)
  proof (intro conjI ballI allI impI)
    fix a
    assume a: "a \<in> set (cs_assignments c1)"
    then show "hm_get (cs_offsets c1) (pa_topic a, pa_partition a) \<noteq> None" by (simp add: 1(8) resumed_get)
    have ok: "is_ok (queue_find \<sigma> (pa_topic a) (pa_partition a))" using 1(7) a by blast
    then show "queue_find \<sigma> (pa_topic a) (pa_partition a) = Ok (qu_log \<sigma> (pa_topic a, pa_partition a))"
      by (auto simp: queue_find_def split: option.splits if_splits)
    show "unat (queue_committed \<sigma> ?g (pa_topic a, pa_partition a)) \<le> length (qu_log \<sigma> (pa_topic a, pa_partition a))"
      using ok assms(3) by blast
  next
    show "hm_ok (cs_offsets c1)" unfolding 1(8) c'(3) by (rule resumed_ok) (simp add: hm_ok_def)
    show "queue_committed \<sigma> ?g tp = off" if "hm_get (cs_offsets c1) tp = Some off" for tp off
      using that by (simp add: 1(8) c'(3) resumed_get split: if_splits)
  qed (use 1(6,9,10) c'(2) in simp_all)
  from group_loop_reads [OF 1(2) this assms(2), of k "[]"]
  obtain c2 s2 \<sigma>2 out where 2: "consumer_group_loop k oord conn ((c1, s1), []) = (((c2, s2), out), Ok False)"
      "rel s2 \<sigma>2" "cs_assignments c2 = cs_assignments c1" "cs_member_id c2 = cs_member_id c1"
      "\<forall>a \<in> set (cs_assignments c1). let t = pa_topic a; q = pa_partition a in
         of_partition t q out = take (k * 10) (drop (unat (queue_committed \<sigma> ?g (t, q))) (history t q (qu_log \<sigma> (t, q)))) \<and>
         unat (queue_committed \<sigma>2 ?g (t, q)) = min (length (qu_log \<sigma> (t, q))) (unat (queue_committed \<sigma> ?g (t, q)) + k * 10)"
    unfolding committed 1(4) by auto
  have "consumer_group_program k oord conn (Inr s) = Ok (((c2, s2), out), Ok ())"
    unfolding consumer_group_program_def c(1) and_then.simps prod.case
    using 1(1) 2(1) by (simp add: within_simps run_then_def del: consumer_group_loop.simps)
  then show ?thesis
    using 2(2-5) 1(6,11) by (intro exI [of _ c2] exI [of _ s2] exI [of _ \<sigma>2] exI [of _ out]) simp
qed

end



end
