(* ===== verification/Spec2Isabelle.thy ===== *)
theory Spec2Isabelle
  imports Storage_Properties Log_Properties Group_Properties Broker_Properties Client_Properties Concurrent_Properties
    Queue_Properties Concurrent_Commit Concurrent_Join Metrics Group_Example
begin

text \<open>
  Gaffa is a message broker with a log on disk, consumer groups and leader-based replication,
  written in Rust. This development models the code of its crates \<open>common\<close>, \<open>protocol\<close>, \<open>storage\<close>, \<open>broker\<close> and
  \<open>client\<close> and its example programs, function by function, and proves what makes it correct, and where it is not.

  \<^bold>\<open>The program.\<close> A client writes requests on a TCP connection as frames: a length and a bincode value.
  The broker reads one after the other, handles each and writes one response. A produce request goes
  through the topic manager to a topic and its partition, a list of segments of which the last
  one is written to; a segment is a log file of records and a sparse index. A fetch finds the
  segment of an offset and reads on across segments. Consumers may form groups, among whose members the
  coordinator divides the partitions, and commit their positions, which the offset manager keeps
  in memory and in one text file for each group. The cluster metadata hold the brokers with
  their heartbeats and, for each partition, leader, replicas, in-sync set and high watermark. Two periodic tasks check
  the heartbeats of the members and of the brokers. The producer chooses partitions by a partitioner,
  the consumer keeps positions and moves them behind what it has fetched.

  \<^bold>\<open>The theories\<close>, in the order of their imports, with the source each one models.

  \<^item> \<open>Gaffa_Prelude\<close> (\<open>common/src/error.rs\<close>, \<open>config.rs\<close>): the errors and the configuration; \<open>outcome\<close>, the result of an
    operation that may return an error or panic; words of the widths the code has and their bytes;
    the decimal texts of numbers; hash maps as association lists without repeated keys, with an iteration order as a
    parameter wherever the code iterates; files as bytes.
  \<^item> \<open>Messages\<close> (\<open>protocol/src/messages.rs\<close>): all requests, responses and the data in them.
  \<^item> \<open>Compressors\<close> and \<open>Disk_Record\<close> (\<open>storage/src/compression.rs\<close>, \<open>record.rs\<close>): the format of a stored record.
    The three compression libraries and the checksum are fields of the record \<open>codecs\<close>; \<open>codecs_ok\<close>
    states that decompressing what was compressed gives it back. \<open>demo_codecs\<close> is an instance, used by the witnesses.
  \<^item> \<open>Offset_Index\<close> (\<open>index.rs\<close>): the index file with its cursor and its memory map. The binary search is a function with a
    termination proof.
  \<^item> \<open>Append_Log\<close>: the contract of an append-only log, a locale. Segments and partitions
    interpret it.
  \<^item> \<open>Log_Segment\<close> and \<open>Partition_Log\<close> (\<open>segment.rs\<close>, \<open>partition.rs\<close>): the two levels of the log, with creation,
    recovery from the files and rotation. \<open>seg_rep\<close> and \<open>part_rep\<close> say which records a state
    represents; \<open>part_log\<close> is the abstract log of a partition.
  \<^item> \<open>Topic_Manager\<close>, \<open>Retention\<close> (\<open>topic.rs\<close>, \<open>retention.rs\<close>).
  \<^item> \<open>Codec\<close> (\<open>protocol/src/codec.rs\<close>): the frames of both sides, with a locale for a framing of values
    that is interpreted on requests and on responses. The bincode functions are the fields of the record \<open>bincode\<close>.
  \<^item> \<open>Coordinator\<close>, \<open>Offset_Manager\<close>, \<open>Cluster\<close>, \<open>Replication\<close> (\<open>broker/src/\<close>, the files of these names): each with its
    state as a record, its operations, a step relation of all of them and the invariant of the reachable states.
    The offset manager has an abstract specification, a map, that its operations refine.
  \<^item> \<open>Server\<close> (\<open>server.rs\<close>): the state of the broker, one function for each request, the periodic tasks, the loop of a
    connection, and the step relation \<open>broker_step\<close>. \<open>Broker_Runs\<close>: runs of a broker as sequences of events.
    \<open>Concurrent_Produce\<close>: the two steps of the produce handler, interleaved with those of others.
    \<open>Concurrent_Commit\<close>: commits taken apart into the change of the map, the truncation of the file and writes of any length,
    interleaved. \<open>Concurrent_Create\<close>: the two steps of the creation of a topic. \<open>Concurrent_Join\<close>: the join handler's lookups of
    topics, its messages to the coordinator and its join. \<open>broker_main\<close> is the executable (\<open>main.rs\<close>).
  \<^item> \<open>Queue_Spec\<close>: the abstract specification of the broker, a queue: topics, a list of messages for each partition,
    committed offsets, members and brokers, with the effect of every request and its right answers.
    \<open>Queue_Relations\<close> and \<open>Queue_Refinement\<close>: the relation \<open>queue_rel\<close> of a broker to a queue, and its preservation by every
    request and task. \<open>Queue_Restart\<close>: what the directory holds and what a new broker reads from it.
    \<open>Queue_Connections\<close>: one connection over any bytes. \<open>Server_Runs\<close>: the server with all its connections, as a step
    function on the schedule (accept, arrival of bytes, turn of a connection or a task); \<open>one_connection\<close> shows that the turns of
    one connection are its loop.
  \<^item> \<open>Metrics\<close> (\<open>broker/src/metrics.rs\<close>): the metrics, their registration and export, with registry and encoder of the
    library as parameters.
  \<^item> \<open>Partitioner\<close>, \<open>Client_Connection\<close>, \<open>Producer\<close>, \<open>Consumer\<close> (\<open>client/src/\<close>): the clients over an abstract connection.
    The locales \<open>partitioner\<close>, \<open>log_reader\<close>, \<open>log_service\<close>, \<open>delivery\<close> and \<open>group_service\<close> state what the clients rely on;
    \<open>Broker_Link\<close> interprets them on the connection to the model of the broker.
  \<^item> \<open>Queue_Client\<close>: the operations of the clients on any service that implements the queue, the locale
    \<open>queue_service\<close>, which the connection to the broker interprets; a reader of its logs is a \<open>log_reader\<close>.
    \<open>Example_Programs\<close> (\<open>examples/*.rs\<close>): the six programs on the client library. \<open>Example_Properties\<close>, \<open>Subscription_Properties\<close>,
    \<open>Partitioned_Examples\<close> and \<open>Group_Example\<close> verify them against the queue and conclude what they do on the broker.
  \<^item> \<open>Storage_Properties\<close>, \<open>Log_Properties\<close>, \<open>Group_Properties\<close>, \<open>Broker_Properties\<close>, \<open>Client_Properties\<close>,
    \<open>Concurrent_Properties\<close> and \<open>Queue_Properties\<close>: the properties, those of interest beyond their component
    numbered, with an application to concrete data after each. \<open>Concurrent_Commit\<close> and \<open>Concurrent_Join\<close> hold their own. The property of this theory
    is about all of the broker.

  \<^bold>\<open>What the lemmas show.\<close> Records: round trip, and detection of cut and damaged ones. Segments and partitions: a history of
  batches is acknowledged, read back, continued and recovered after restarts and crashes exactly
  as a list of messages would be. Topics: isolation and recovery. Retention: only what the policy asks for, from
  the oldest on. Groups: every partition has one owner, evenly, in every reachable state. Offsets:
  refinement of a map. Cluster: leaders in sync, elections among in-sync replicas, the meaning of the
  high watermark. The whole broker: it implements the queue, for every run, across restarts, and for any
  number of clients under any schedule, whatever bytes they send. Connections: their loop ends, and every request is answered once and in order. Clients: what is sent is what
  is stored and what is read. Examples: what each program prints, on the whole stack from its calls to the
  records on disk. Other properties state precisely where the code fails its
  documents: the index after a restart, topics with missing partitions, rebalances that
  are not announced, separators in topic names, offset
  files torn by a crash, high watermarks that go back, elections of failed brokers, heartbeats
  that nobody sends, followers whose progress is ignored, polls that drop records,
  heartbeat tasks that are not stopped, replicas that a restart forgets, fetches too large to be answered, topics that are created twice at once.

  \<^bold>\<open>Conventions.\<close> Unsigned integers are words of the width they have in the code and wrap around, as
  in a build without overflow checks; where a wrapped value would matter, a property says which
  bound it needs (logs of fewer than \<open>2 ^ 64\<close> records and bytes, offsets that leave room for the lag
  threshold). A panic is the value \<open>Panic\<close>. The clock, fresh identifiers and iteration orders of hash maps are arguments, and properties
  hold for all of them. A handler of the broker is one step: requests of different
  connections are interleaved between handlers, not inside one; the two steps of the produce
  handler, the locks and writes of a commit, the two steps of a creation and those of a join are also taken apart. A loop over the bytes of a stream has one unit of fuel
  more than there are bytes; each turn takes at least the four bytes of a length, so that
  the fuel does not run out: any larger bound gives the same result. The loop of the subscription example has 49
  turns, which are proved to be enough; the loops of the other two consumers have no end, and properties hold for any number of turns.

  \<^bold>\<open>Not modelled.\<close> The lists of modules
  and the tests; logging, the headings and pauses of the examples and the heartbeats beside them; sockets, the async runtime, and locks other than those of a commit; failures of the file system other than missing files
  and torn ends of files. \<open>start_follower_replication\<close>, \<open>update_broker_heartbeat\<close>, \<open>can_acknowledge_write\<close> and all of \<open>retention.rs\<close> are
  called nowhere in the repository; the last three are modelled as functions of their own, of the first the body of its loop is.
\<close>

section \<open>The life of a topic\<close>

text \<open>
  C1. The life of a topic on a broker: a client creates it, and from then on the broker handles any
  requests of any clients in any order, with its periodic tasks in between. For every partition of
  the topic, the produce requests to it are acknowledged with consecutive offsets, and a fetch
  returns exactly the messages produced to it so far, in the order in which the broker handled
  them, each labelled with the topic, the partition and its position, whatever happened to
  all other topics, partitions, groups and brokers.
\<close>

theorem topic_lifecycle:
  assumes "codecs_ok C" and "hm_get (tm_topics (br_topics b0)) t = None" and "hm_get (tm_disk (br_topics b0)) t = None"
    and "process_request C e0 (CreateTopic t n) b0 = (b1, Ok (CreateTopicSuccess t n))" and "q < n"
    and "run_events C evs b1 = (b2, answers)"
    and "accepted (partition_append C) (part_accepts C) (produced t q evs)
           (partition_new t q (tm_data_dir (br_topics b0)) [])"
  shows "acks_of t q answers = map (\<lambda>k. Ok (ProduceSuccess t q
             (of_nat (length (concat (take k (produced t q evs)))))
             (of_nat (length (produced t q evs ! k))))) [0..<length (produced t q evs)] \<and>
         process_request C e (Fetch t q off m) b2 = (b2, Ok (FetchSuccess t q (take (unat m) (drop (unat off)
             (map (\<lambda>(j, x). \<lparr>rec_topic = t, rec_partition = q, rec_offset = of_nat j, rec_message = x\<rparr>)
               (enumerate 0 (concat (produced t q evs))))))))"
proof -
  let ?p0 = "partition_new t q (tm_data_dir (br_topics b0)) []"
  obtain tm to where tm: "create_topic t n (br_topics b0) = (tm, Ok to)"
      "\<And>q. q < n \<Longrightarrow> find_partition tm t q = Ok (partition_new t q (tm_data_dir (br_topics b0))
         (dir_of (case hm_get (tm_disk (br_topics b0)) t of None \<Rightarrow> [] | Some dirs \<Rightarrow> dirs) q))"
    by (rule create_topic_find [OF assms(2), of n]) (rule that)
  have "br_topics b1 = tm"
    using assms(4) tm(1) by (auto simp: handle_create_topic_def split: outcome.splits)
  then have found: "find_partition (br_topics b1) t q = Ok ?p0"
    using tm(2) [OF assms(5)] assms(3) by (simp add: dir_of_def)
  have pos: "0 < sc_max_size segment_config_default" by (simp add: segment_config_default_def DEFAULT_MAX_SEGMENT_SIZE_def)
  have fresh: "part_log C ?p0 []"
    unfolding partition_new_def by (rule partition_with_config_log [OF assms(1) no_files pos])
  from run_events_log [OF found fresh assms(7)] obtain p2 where
    p2: "find_partition (br_topics b2) t q = Ok p2"
      "p2 = fst (append_all (partition_append C) (produced t q evs) ?p0)"
      "acks_of t q answers = map (\<lambda>k. Ok (ProduceSuccess t q
           (of_nat (length ([] :: stored_record list) + length (concat (take k (produced t q evs)))))
           (of_nat (length (produced t q evs ! k))))) [0..<length (produced t q evs)]"
    unfolding assms(6) by auto
  have "part_log C p2 (history t q (concat (produced t q evs)))"
    unfolding p2(2) partition_new_def
    by (rule partition_filled [OF assms(1) no_files pos assms(7) [unfolded partition_new_def] surjective_pairing])
  from part_log_fetch [OF this, of off m] show ?thesis
    using p2(1,3) by (simp add: handle_fetch_def tm_fetch_find)
qed

text \<open>Three clients on a broker whose topic has two partitions, with a turn of each periodic task.\<close>

definition sample_events :: "event list" where
  "sample_events =
     [Handle sample_env (Produce ''t'' 1 [sample_message]), Handle sample_env (CreateTopic ''u'' 1),
      GroupTick sample_env, Handle sample_env (Produce ''t'' 0 [sample_message, sample_message]),
      Handle sample_env (JoinGroup ''g'' None [''t'']), HealthTick sample_env,
      Handle sample_env (Produce ''t'' 1 [sample_message, sample_message])]"

theorem topic_lifecycle_witness:
  "process_request demo_codecs sample_env (Fetch ''t'' 1 2 5) (fst (run_events demo_codecs sample_events topic_broker)) =
     (fst (run_events demo_codecs sample_events topic_broker),
      Ok (FetchSuccess ''t'' 1 [\<lparr>rec_topic = ''t'', rec_partition = 1, rec_offset = 2, rec_message = sample_message\<rparr>]))"
proof -
  have prod: "produced ''t'' 1 sample_events = [[sample_message], [sample_message, sample_message]]"
    by (simp add: sample_events_def)
  have "accepted (partition_append demo_codecs) (part_accepts demo_codecs) (produced ''t'' 1 sample_events)
      (partition_new ''t'' 1 (tm_data_dir (br_topics sample_broker)) [])"
    unfolding partition_new_def
    by (rule accepted_fresh [OF no_files])
      (use sample_small in \<open>simp_all add: segment_config_default_def DEFAULT_MAX_SEGMENT_SIZE_def prod
        batch_bytes_def sample_message_def\<close>)
  from topic_lifecycle [OF demo_codecs_ok _ _ topic_broker_created(1) _ surjective_pairing this, of sample_env 2 5]
  show ?thesis by (simp add: prod sample_broker_def tm_new_def)
qed

end
